(* ===== verification/Kcp_Prelude.thy ===== *)
theory Kcp_Prelude
  imports Main "HOL-Library.Word" "HOL-Library.Multiset" "HOL-Library.Monad_Syntax"
begin

text \<open>
  Shared vocabulary of the development: the machine types of the Go code, the built-in
  \<open>copy\<close>, the visitor pattern of Go's range-over-function loops on plain lists, runs of
  consecutive sequence numbers, and the collections of facts the component theories use.

  A Go \<open>int\<close> (64 bits) is an \<open>int\<close> where it can be negative and a \<open>nat\<close> where it is
  an index or a length; \<open>uint8\<close>, \<open>uint16\<close> and \<open>uint32\<close> are words of their width.
  A run-time panic (a slice or index out of range, a division by zero) is \<open>None\<close>.
\<close>

type_synonym byte = "8 word"
type_synonym u16 = "16 word"
type_synonym u32 = "32 word"
type_synonym i32 = "32 word"
type_synonym bytes = "byte list"

named_theorems queue_simps \<open>contents of the queues after an operation\<close>
named_theorems frame_simps \<open>fields an operation leaves alone\<close>

section \<open>Go's built-in copy\<close>

text \<open>\<open>copy(dst, src)\<close> overwrites a prefix of \<open>dst\<close> with as much of \<open>src\<close> as fits.\<close>

definition go_copy :: "'a list \<Rightarrow> 'a list \<Rightarrow> 'a list" where
  "go_copy dst src = take (length dst) src @ drop (length src) dst"

lemma length_go_copy [simp]: "length (go_copy dst src) = length dst"
  by (simp add: go_copy_def)

lemma go_copy_same_length: "length src = length dst \<Longrightarrow> go_copy dst src = src"
  by (simp add: go_copy_def)

lemma go_copy_prefix: "length src \<le> length dst \<Longrightarrow> take (length src) (go_copy dst src) = src"
  by (simp add: go_copy_def)

lemma go_copy_Nil [simp]: "go_copy dst [] = dst"
  by (simp add: go_copy_def)

section \<open>Visiting a list with an early exit\<close>

text \<open>
  The body of a \<open>for x := range r.ForEach\<close> loop is a function that may update the element
  it is given (it gets a pointer) and the variables it closes over, and says whether to go on.
  On a plain list such a loop is:
\<close>

fun list_each :: "('a \<Rightarrow> 's \<Rightarrow> bool \<times> 'a \<times> 's) \<Rightarrow> 'a list \<Rightarrow> 's \<Rightarrow> bool \<times> 'a list \<times> 's" where
  "list_each fn [] s = (True, [], s)"
| "list_each fn (x # xs) s =
     (case fn x s of (go, x', s') \<Rightarrow>
        if go then (case list_each fn xs s' of (g, ys, t) \<Rightarrow> (g, x' # ys, t))
        else (False, x' # xs, s'))"

lemma list_each_Cons:
  "list_each fn (x # xs) s =
     (if fst (fn x s)
      then (fst (list_each fn xs (snd (snd (fn x s)))),
            fst (snd (fn x s)) # fst (snd (list_each fn xs (snd (snd (fn x s))))),
            snd (snd (list_each fn xs (snd (snd (fn x s))))))
      else (False, fst (snd (fn x s)) # xs, snd (snd (fn x s))))"
  by (simp add: case_prod_beta)

lemma length_list_each [simp]: "length (fst (snd (list_each fn xs s))) = length xs"
  by (induction xs arbitrary: s) (auto simp: list_each_Cons simp del: list_each.simps(2))

lemma list_each_append:
  "list_each fn (xs @ ys) s =
     (case list_each fn xs s of (go, xs', s') \<Rightarrow>
        if go then (case list_each fn ys s' of (g, ys', t) \<Rightarrow> (g, xs' @ ys', t))
        else (False, xs' @ ys, s'))"
  by (induction xs arbitrary: s) (auto split: prod.splits)

lemma list_each_map_inv:
  assumes "\<And>x s. f (fst (snd (fn x s))) = f x"
  shows "map f (fst (snd (list_each fn xs s))) = map f xs"
proof (induction xs arbitrary: s)
  case Nil
  then show ?case by simp
next
  case (Cons x xs)
  from Cons assms show ?case
    by (simp add: list_each_Cons del: list_each.simps(2))
qed

lemma list_each_list_all:
  assumes "\<And>x s. P x \<Longrightarrow> P (fst (snd (fn x s)))" and "list_all P xs"
  shows "list_all P (fst (snd (list_each fn xs s)))"
  using assms(2)
proof (induction xs arbitrary: s)
  case Nil
  then show ?case by simp
next
  case (Cons x xs)
  from Cons assms(1) show ?case
    by (simp add: list_each_Cons del: list_each.simps(2))
qed

text \<open>
  A loop whose body always goes on, keeps an invariant on the elements already visited and the
  closed-over variables, and relates old and new elements.
\<close>

lemma list_each_all:
  assumes "\<And>x s zs. x \<in> set xs \<Longrightarrow> I zs s \<Longrightarrow>
      \<exists>x' s'. fn x s = (True, x', s') \<and> I (zs @ [x']) s' \<and> R x x'"
    and "I zs s"
  shows "\<exists>ys s'. list_each fn xs s = (True, ys, s') \<and> I (zs @ ys) s' \<and> list_all2 R xs ys"
  using assms
proof (induction xs arbitrary: s zs)
  case Nil
  then show ?case by simp
next
  case (Cons x xs)
  obtain x' s1 where x: "fn x s = (True, x', s1)" "I (zs @ [x']) s1" "R x x'"
    using Cons.prems(1)[of x zs s] Cons.prems(2) by auto
  obtain ys s' where "list_each fn xs s1 = (True, ys, s')" "I ((zs @ [x']) @ ys) s'" "list_all2 R xs ys"
    using Cons.IH[OF _ x(2)] Cons.prems(1) by (metis list.set_intros(2))
  then show ?case
    using x by (intro exI[of _ "x' # ys"] exI[of _ s']) simp
qed

lemma list_all2_right: "list_all2 R xs ys \<Longrightarrow> y \<in> set ys \<Longrightarrow> \<exists>x \<in> set xs. R x y"
  by (metis in_set_conv_nth list_all2_conv_all_nth)

lemma list_all2_left: "list_all2 R xs ys \<Longrightarrow> x \<in> set xs \<Longrightarrow> \<exists>y \<in> set ys. R x y"
  by (metis in_set_conv_nth list_all2_conv_all_nth)

section \<open>Runs of consecutive sequence numbers\<close>

text \<open>\<open>sn_run a n\<close> is the list of the \<open>n\<close> sequence numbers from \<open>a\<close> on, with wrap-around.\<close>

fun sn_run :: "u32 \<Rightarrow> nat \<Rightarrow> u32 list" where
  "sn_run a 0 = []"
| "sn_run a (Suc n) = a # sn_run (a + 1) n"

lemma length_sn_run [simp]: "length (sn_run a n) = n"
  by (induction n arbitrary: a) auto

lemma sn_run_append: "sn_run a (m + n) = sn_run a m @ sn_run (a + of_nat m) n"
  by (induction m arbitrary: a) (auto simp: algebra_simps)

lemma sn_run_snoc: "sn_run a (Suc n) = sn_run a n @ [a + of_nat n]"
  using sn_run_append[of a n 1] by simp

lemma nth_sn_run: "i < n \<Longrightarrow> sn_run a n ! i = a + of_nat i"
  by (induction n arbitrary: a i) (auto simp: nth_Cons' of_nat_diff algebra_simps)

lemma sn_run_drop: "drop m (sn_run a n) = sn_run (a + of_nat m) (n - m)"
proof (induction m arbitrary: a n)
  case 0
  then show ?case by simp
next
  case (Suc m)
  then show ?case by (cases n) (auto simp: algebra_simps)
qed

lemma sn_run_take: "m \<le> n \<Longrightarrow> take m (sn_run a n) = sn_run a m"
proof (induction m arbitrary: a n)
  case 0
  then show ?case by simp
next
  case (Suc m)
  then show ?case by (cases n) auto
qed

lemma in_sn_run_iff: "x \<in> set (sn_run a n) \<longleftrightarrow> (\<exists>i<n. x = a + of_nat i)"
  by (auto simp: in_set_conv_nth nth_sn_run)

end
