(* ===== verification/Ring_Buffer.thy ===== *)
theory Ring_Buffer
  imports Kcp_Prelude
begin

text \<open>
  The generic ring buffer of \<open>ringbuffer.go\<close>: a head index, a tail index and a backing slice
  of which one slot is always free. The three queues of a KCP connection are ring buffers.
  \<open>rb_list\<close> reads a ring buffer as the list of its elements; every operation is shown to
  implement the corresponding list operation, through the growth of the backing slice and
  through the wrap-around of both indices. The parameter \<open>z\<close> is Go's zero value of the
  element type (\<open>var zero T\<close>). Indices are \<open>nat\<close>: the code never decrements them below 0
  except to end the downward loop of \<open>ForEachReverse\<close>, which is counted one up here.
\<close>

section \<open>The code\<close>

definition RINGBUFFER_MIN :: nat where "RINGBUFFER_MIN = 8"
definition RINGBUFFER_EXP :: nat where "RINGBUFFER_EXP = 1024"

record 'a RingBuffer =
  rb_head :: nat
  rb_tail :: nat
  rb_elements :: "'a list"

definition NewRingBuffer :: "'a \<Rightarrow> int \<Rightarrow> 'a RingBuffer" where
  "NewRingBuffer z sz =
     (let sz = (if sz \<le> int RINGBUFFER_MIN then int RINGBUFFER_MIN else sz)
      in \<lparr>rb_head = 0, rb_tail = 0, rb_elements = replicate (nat sz) z\<rparr>)"

definition rb_Len :: "'a RingBuffer \<Rightarrow> nat" where
  "rb_Len r =
     (if rb_head r \<le> rb_tail r then rb_tail r - rb_head r
      else length (drop (rb_head r) (rb_elements r)) + length (take (rb_tail r) (rb_elements r)))"

definition rb_IsFull :: "'a RingBuffer \<Rightarrow> bool" where
  "rb_IsFull r \<longleftrightarrow> (rb_tail r + 1) mod length (rb_elements r) = rb_head r"

definition rb_IsEmpty :: "'a RingBuffer \<Rightarrow> bool" where
  "rb_IsEmpty r \<longleftrightarrow> rb_Len r = 0"

definition rb_MaxLen :: "'a RingBuffer \<Rightarrow> nat" where
  "rb_MaxLen r = length (rb_elements r) - 1"

text \<open>The growth policy of \<open>grow\<close>, then \<open>grow\<close> itself.\<close>

definition rb_new_size :: "nat \<Rightarrow> nat" where
  "rb_new_size currentSize =
     (if currentSize < RINGBUFFER_MIN then RINGBUFFER_MIN
      else if currentSize < RINGBUFFER_EXP then currentSize * 2
      else currentSize + (currentSize + 9) div 10)"

definition rb_grow :: "'a \<Rightarrow> 'a RingBuffer \<Rightarrow> 'a RingBuffer" where
  "rb_grow z r =
     (let currentLength = rb_Len r;
          newElements = replicate (rb_new_size (length (rb_elements r))) z;
          els = rb_elements r;
          newElements' =
            (if rb_head r < rb_tail r
             then go_copy newElements (drop (rb_head r) (take (rb_tail r) els))
             else let n = min (length newElements) (length (drop (rb_head r) els));
                      copied = go_copy newElements (drop (rb_head r) els)
                  in take n copied @ go_copy (drop n copied) (take (rb_tail r) els))
      in \<lparr>rb_head = 0, rb_tail = currentLength, rb_elements = newElements'\<rparr>)"

definition rb_Push :: "'a \<Rightarrow> 'a \<Rightarrow> 'a RingBuffer \<Rightarrow> 'a RingBuffer" where
  "rb_Push z v r =
     (let r = (if rb_IsFull r then rb_grow z r else r);
          r = r\<lparr>rb_elements := (rb_elements r)[rb_tail r := v]\<rparr>
      in r\<lparr>rb_tail := (rb_tail r + 1) mod length (rb_elements r)\<rparr>)"

definition rb_Pop :: "'a \<Rightarrow> 'a RingBuffer \<Rightarrow> 'a option \<times> 'a RingBuffer" where
  "rb_Pop z r =
     (if rb_Len r = 0 then (None, r)
      else let value = rb_elements r ! rb_head r;
               r = r\<lparr>rb_elements := (rb_elements r)[rb_head r := z]\<rparr>
           in (Some value, r\<lparr>rb_head := (rb_head r + 1) mod length (rb_elements r)\<rparr>))"

definition rb_Peek :: "'a RingBuffer \<Rightarrow> 'a option" where
  "rb_Peek r = (if rb_Len r = 0 then None else Some (rb_elements r ! rb_head r))"

definition rb_Clear :: "'a \<Rightarrow> 'a RingBuffer \<Rightarrow> 'a RingBuffer" where
  "rb_Clear z r = \<lparr>rb_head = 0, rb_tail = 0, rb_elements = map (\<lambda>_. z) (rb_elements r)\<rparr>"

text \<open>The loop of \<open>Discard\<close>, \<open>for range n\<close>.\<close>

fun rb_discard_loop :: "'a \<Rightarrow> nat \<Rightarrow> 'a RingBuffer \<Rightarrow> 'a RingBuffer" where
  "rb_discard_loop z 0 r = r"
| "rb_discard_loop z (Suc n) r =
     (let r = r\<lparr>rb_elements := (rb_elements r)[rb_head r := z]\<rparr>
      in rb_discard_loop z n (r\<lparr>rb_head := (rb_head r + 1) mod length (rb_elements r)\<rparr>))"

definition rb_Discard :: "'a \<Rightarrow> int \<Rightarrow> 'a RingBuffer \<Rightarrow> int \<times> 'a RingBuffer" where
  "rb_Discard z n r =
     (let n = min n (int (rb_Len r))
      in if n = int (rb_Len r) then (n, rb_Clear z r)
         else (n, rb_discard_loop z (nat n) r))"

text \<open>
  \<open>for i := lo; i < hi; i++ { if !fn(&r.elements[i]) { return } }\<close>; the flag of the result
  says whether the loop ran to its end.
\<close>

function rb_range ::
    "('a \<Rightarrow> 's \<Rightarrow> bool \<times> 'a \<times> 's) \<Rightarrow> nat \<Rightarrow> nat \<Rightarrow> 'a list \<Rightarrow> 's \<Rightarrow> bool \<times> 'a list \<times> 's" where
  "rb_range fn i hi els s =
     (if i < hi
      then case fn (els ! i) s of (go, x, s') \<Rightarrow>
             if go then rb_range fn (i + 1) hi (els[i := x]) s'
             else (False, els[i := x], s')
      else (True, els, s))"
  by pat_completeness auto
termination
  by (relation "measure (\<lambda>(fn, i, hi, els, s). hi - i)") auto

text \<open>\<open>for i := hi - 1; i >= lo; i-- { ... }\<close>, with \<open>hi\<close> one above the next index.\<close>

function rb_range_down ::
    "('a \<Rightarrow> 's \<Rightarrow> bool \<times> 'a \<times> 's) \<Rightarrow> nat \<Rightarrow> nat \<Rightarrow> 'a list \<Rightarrow> 's \<Rightarrow> bool \<times> 'a list \<times> 's" where
  "rb_range_down fn lo hi els s =
     (if lo < hi
      then case fn (els ! (hi - 1)) s of (go, x, s') \<Rightarrow>
             if go then rb_range_down fn lo (hi - 1) (els[hi - 1 := x]) s'
             else (False, els[hi - 1 := x], s')
      else (True, els, s))"
  by pat_completeness auto
termination
  by (relation "measure (\<lambda>(fn, lo, hi, els, s). hi)") auto

definition rb_ForEach ::
    "('a \<Rightarrow> 's \<Rightarrow> bool \<times> 'a \<times> 's) \<Rightarrow> 'a RingBuffer \<Rightarrow> 's \<Rightarrow> 'a RingBuffer \<times> 's" where
  "rb_ForEach fn r s =
     (if rb_Len r = 0 then (r, s)
      else if rb_head r < rb_tail r
      then (case rb_range fn (rb_head r) (rb_tail r) (rb_elements r) s of
              (go, els, s') \<Rightarrow> (r\<lparr>rb_elements := els\<rparr>, s'))
      else (case rb_range fn (rb_head r) (length (rb_elements r)) (rb_elements r) s of
              (go, els, s') \<Rightarrow>
                if go
                then (case rb_range fn 0 (rb_tail r) els s' of
                        (go', els', s'') \<Rightarrow> (r\<lparr>rb_elements := els'\<rparr>, s''))
                else (r\<lparr>rb_elements := els\<rparr>, s')))"

definition rb_ForEachReverse ::
    "('a \<Rightarrow> 's \<Rightarrow> bool \<times> 'a \<times> 's) \<Rightarrow> 'a RingBuffer \<Rightarrow> 's \<Rightarrow> 'a RingBuffer \<times> 's" where
  "rb_ForEachReverse fn r s =
     (if rb_Len r = 0 then (r, s)
      else if rb_head r < rb_tail r
      then (case rb_range_down fn (rb_head r) (rb_tail r) (rb_elements r) s of
              (go, els, s') \<Rightarrow> (r\<lparr>rb_elements := els\<rparr>, s'))
      else (case rb_range_down fn 0 (rb_tail r) (rb_elements r) s of
              (go, els, s') \<Rightarrow>
                if go
                then (case rb_range_down fn (rb_head r) (length els) els s' of
                        (go', els', s'') \<Rightarrow> (r\<lparr>rb_elements := els'\<rparr>, s''))
                else (r\<lparr>rb_elements := els\<rparr>, s')))"

section \<open>Invariant and abstraction\<close>

definition rb_inv :: "'a RingBuffer \<Rightarrow> bool" where
  "rb_inv r \<longleftrightarrow> RINGBUFFER_MIN \<le> length (rb_elements r)
     \<and> rb_head r < length (rb_elements r) \<and> rb_tail r < length (rb_elements r)"

definition rb_list :: "'a RingBuffer \<Rightarrow> 'a list" where
  "rb_list r =
     (if rb_head r \<le> rb_tail r then drop (rb_head r) (take (rb_tail r) (rb_elements r))
      else drop (rb_head r) (rb_elements r) @ take (rb_tail r) (rb_elements r))"

declare rb_range.simps [simp del] rb_range_down.simps [simp del]

lemmas rb_consts = RINGBUFFER_MIN_def RINGBUFFER_EXP_def

section \<open>Construction, length and emptiness\<close>

lemma rb_inv_New [simp]: "rb_inv (NewRingBuffer z n)"
  by (simp add: rb_inv_def NewRingBuffer_def Let_def rb_consts) linarith

lemma rb_list_New [queue_simps]: "rb_list (NewRingBuffer z n) = []"
  by (simp add: rb_list_def NewRingBuffer_def Let_def)

lemma rb_Len_list [queue_simps]: "rb_inv r \<Longrightarrow> rb_Len r = length (rb_list r)"
  by (auto simp: rb_inv_def rb_Len_def rb_list_def)

lemma rb_length_le_MaxLen: "rb_inv r \<Longrightarrow> length (rb_list r) \<le> rb_MaxLen r"
  by (auto simp: rb_inv_def rb_list_def rb_MaxLen_def)

lemma rb_IsEmpty_iff [queue_simps]: "rb_inv r \<Longrightarrow> rb_IsEmpty r \<longleftrightarrow> rb_list r = []"
  by (simp add: rb_IsEmpty_def queue_simps)

lemma Suc_mod_cases: "a < n \<Longrightarrow> Suc a mod n = (if Suc a = n then 0 else Suc a)"
  by auto

lemma rb_IsFull_iff: "rb_inv r \<Longrightarrow> rb_IsFull r \<longleftrightarrow> length (rb_list r) = rb_MaxLen r"
  by (auto simp: rb_inv_def rb_IsFull_def rb_list_def rb_MaxLen_def Suc_mod_cases rb_consts)

lemma rb_Peek_list [queue_simps]:
  "rb_inv r \<Longrightarrow> rb_Peek r = (case rb_list r of [] \<Rightarrow> None | x # _ \<Rightarrow> Some x)"
  by (auto simp: rb_inv_def rb_Peek_def rb_Len_def rb_list_def hd_drop_conv_nth hd_append
      drop_eq_Nil neq_Nil_conv split: list.split dest: arg_cong[where f = hd])

section \<open>Push, pop, clear and discard\<close>

lemma rb_list_length_Clear [simp]: "length (rb_elements (rb_Clear z r)) = length (rb_elements r)"
  by (simp add: rb_Clear_def)

lemma rb_inv_Clear: "rb_inv r \<Longrightarrow> rb_inv (rb_Clear z r)"
  by (auto simp: rb_inv_def rb_Clear_def)

lemma rb_list_Clear [queue_simps]: "rb_list (rb_Clear z r) = []"
  by (simp add: rb_list_def rb_Clear_def)

text \<open>Writing the slot at the tail and advancing the tail, when a slot is free.\<close>

lemma rb_list_write_tail:
  assumes "rb_inv r" and "\<not> rb_IsFull r"
  shows "rb_list (r\<lparr>rb_elements := (rb_elements r)[rb_tail r := v],
                 rb_tail := (rb_tail r + 1) mod length (rb_elements r)\<rparr>) = rb_list r @ [v]"
proof (cases "Suc (rb_tail r) = length (rb_elements r)")
  case True
  with assms show ?thesis
    by (intro nth_equalityI)
       (auto simp: rb_inv_def rb_IsFull_def rb_list_def nth_append nth_list_update less_Suc_eq)
next
  case False
  with assms show ?thesis
    by (auto simp: rb_inv_def rb_IsFull_def rb_list_def Suc_mod_cases take_Suc_conv_app_nth)
qed

lemma rb_inv_mod: "rb_inv r \<Longrightarrow> n mod length (rb_elements r) < length (rb_elements r)"
  by (rule mod_less_divisor) (auto simp: rb_inv_def)

lemma rb_inv_write_tail:
  "rb_inv r \<Longrightarrow> rb_inv (r\<lparr>rb_elements := (rb_elements r)[rb_tail r := v],
                 rb_tail := (rb_tail r + 1) mod length (rb_elements r)\<rparr>)"
  using rb_inv_mod[of r] by (simp add: rb_inv_def)

lemma rb_new_size_gt: "RINGBUFFER_MIN \<le> rb_new_size n \<and> n < rb_new_size n"
  by (auto simp: rb_new_size_def rb_consts)

lemma rb_grow_correct:
  assumes "rb_inv r" and "rb_IsFull r"
  shows "rb_inv (rb_grow z r)" and "rb_list (rb_grow z r) = rb_list r"
    and "\<not> rb_IsFull (rb_grow z r)"
proof -
  let ?n = "length (rb_elements r)" and ?m = "rb_new_size (length (rb_elements r))"
  have m: "RINGBUFFER_MIN \<le> ?m" "?n < ?m"
    using rb_new_size_gt[of ?n] by auto
  have els: "rb_elements (rb_grow z r) = rb_list r @ replicate (?m - length (rb_list r)) z"
  proof (cases "rb_head r < rb_tail r")
    case True
    then show ?thesis
      using assms(1) m by (simp add: rb_grow_def rb_list_def rb_inv_def Let_def go_copy_def min_def)
        linarith
  next
    case False
    then have "rb_tail r < rb_head r"
      using assms by (auto simp: rb_inv_def rb_IsFull_def Suc_mod_cases rb_consts split: if_splits)
    moreover have "\<not> ?m \<le> ?n - rb_head r" "\<not> ?m + rb_head r - ?n \<le> rb_tail r"
      using m assms(1) calculation by (auto simp: rb_inv_def)
    ultimately show ?thesis
      using assms(1) m
      by (simp add: rb_grow_def rb_list_def rb_inv_def Let_def go_copy_def min_def add.commute)
  qed
  have len: "rb_tail (rb_grow z r) = length (rb_list r)" "rb_head (rb_grow z r) = 0"
    using assms by (simp_all add: rb_grow_def Let_def rb_Len_list)
  have lt: "length (rb_list r) + 1 < ?m"
    using rb_length_le_MaxLen[OF assms(1)] assms m
    by (auto simp: rb_MaxLen_def rb_inv_def rb_consts)
  show "rb_inv (rb_grow z r)"
    using els len m lt by (simp add: rb_inv_def)
  show "rb_list (rb_grow z r) = rb_list r"
    using els len by (simp add: rb_list_def[of "rb_grow z r"])
  show "\<not> rb_IsFull (rb_grow z r)"
    using els len lt by (simp add: rb_IsFull_def)
qed

lemma rb_Push_correct:
  assumes "rb_inv r"
  shows "rb_inv (rb_Push z v r)" and "rb_list (rb_Push z v r) = rb_list r @ [v]"
proof -
  let ?g = "if rb_IsFull r then rb_grow z r else r"
  have g: "rb_inv ?g" "\<not> rb_IsFull ?g" "rb_list ?g = rb_list r"
    using assms rb_grow_correct[of r z] by auto
  have push: "rb_Push z v r = ?g\<lparr>rb_elements := (rb_elements ?g)[rb_tail ?g := v],
      rb_tail := (rb_tail ?g + 1) mod length (rb_elements ?g)\<rparr>"
    by (simp add: rb_Push_def Let_def)
  show "rb_list (rb_Push z v r) = rb_list r @ [v]"
    unfolding push using rb_list_write_tail[OF g(1,2)] g(3) by metis
  show "rb_inv (rb_Push z v r)"
    unfolding push using rb_inv_write_tail[OF g(1)] by metis
qed

lemmas rb_inv_Push [simp] = rb_Push_correct(1)
lemmas rb_list_Push [queue_simps] = rb_Push_correct(2)

lemma rb_inv_advance:
  "rb_inv r \<Longrightarrow> rb_inv (r\<lparr>rb_elements := (rb_elements r)[rb_head r := z],
      rb_head := (rb_head r + 1) mod length (rb_elements r)\<rparr>)"
  using rb_inv_mod[of r] by (simp add: rb_inv_def)

lemma rb_list_advance:
  "rb_inv r \<Longrightarrow> rb_list r \<noteq> [] \<Longrightarrow>
     rb_list (r\<lparr>rb_elements := (rb_elements r)[rb_head r := z],
                rb_head := (rb_head r + 1) mod length (rb_elements r)\<rparr>) = tl (rb_list r)"
  by (auto simp: rb_inv_def rb_list_def Suc_mod_cases tl_drop drop_Suc[symmetric]
      take_update_swap list_update_beyond split: if_splits)

lemma rb_Pop_correct:
  assumes "rb_inv r"
  shows "rb_inv (snd (rb_Pop z r))"
    and "fst (rb_Pop z r) = (case rb_list r of [] \<Rightarrow> None | x # _ \<Rightarrow> Some x)"
    and "rb_list (snd (rb_Pop z r)) = tl (rb_list r)"
proof -
  have ne: "rb_Len r = 0 \<longleftrightarrow> rb_list r = []"
    using assms by (simp add: queue_simps)
  show "rb_inv (snd (rb_Pop z r))"
    using assms rb_inv_advance[OF assms] by (auto simp: rb_Pop_def Let_def)
  show "fst (rb_Pop z r) = (case rb_list r of [] \<Rightarrow> None | x # _ \<Rightarrow> Some x)"
    using rb_Peek_list[OF assms] by (simp add: rb_Pop_def rb_Peek_def Let_def split: if_splits)
  show "rb_list (snd (rb_Pop z r)) = tl (rb_list r)"
    using assms rb_list_advance[OF assms] ne by (auto simp: rb_Pop_def Let_def)
qed

lemmas rb_inv_Pop [simp] = rb_Pop_correct(1)
lemmas rb_Pop_queue [queue_simps] = rb_Pop_correct(2,3)

lemma rb_discard_loop_correct:
  "rb_inv r \<Longrightarrow> n \<le> length (rb_list r) \<Longrightarrow>
     rb_inv (rb_discard_loop z n r) \<and> rb_list (rb_discard_loop z n r) = drop n (rb_list r)"
proof (induction n arbitrary: r)
  case 0
  then show ?case by simp
next
  case (Suc n)
  let ?r = "r\<lparr>rb_elements := (rb_elements r)[rb_head r := z],
                rb_head := (rb_head r + 1) mod length (rb_elements r)\<rparr>"
  have ne: "rb_list r \<noteq> []" using Suc.prems(2) by auto
  have "rb_inv ?r" "rb_list ?r = tl (rb_list r)"
    using rb_inv_advance[OF Suc.prems(1)] rb_list_advance[OF Suc.prems(1) ne] by blast+
  then show ?case
    using Suc.IH[of ?r] Suc.prems(2) by (simp add: Let_def drop_Suc)
qed

lemma rb_Discard_correct:
  assumes "rb_inv r"
  shows "rb_inv (snd (rb_Discard z n r))"
    and "rb_list (snd (rb_Discard z n r)) = drop (nat n) (rb_list r)"
    and "fst (rb_Discard z n r) = min n (int (length (rb_list r)))"
proof -
  have loop: "n < int (length (rb_list r)) \<Longrightarrow> nat n \<le> length (rb_list r)" by linarith
  show "rb_inv (snd (rb_Discard z n r))"
    using assms loop rb_discard_loop_correct[OF assms] rb_inv_Clear[OF assms]
    by (auto simp: rb_Discard_def Let_def rb_Len_list min_def)
  show "rb_list (snd (rb_Discard z n r)) = drop (nat n) (rb_list r)"
    using assms loop rb_discard_loop_correct[OF assms]
    by (auto simp: rb_Discard_def Let_def rb_Len_list min_def rb_list_Clear le_nat_iff)
  show "fst (rb_Discard z n r) = min n (int (length (rb_list r)))"
    using assms by (simp add: rb_Discard_def Let_def rb_Len_list)
qed

lemmas rb_inv_Discard [simp] = rb_Discard_correct(1)
lemmas rb_list_Discard [queue_simps] = rb_Discard_correct(2,3)

section \<open>Visiting\<close>

lemma list_update_three:
  assumes "i < hi" and "hi \<le> length els"
  shows "els[i := x] = take i els @ x # drop (Suc i) (take hi els) @ drop hi els"
proof -
  have "drop (Suc i) els = drop (Suc i) (take hi els @ drop hi els)" by simp
  also have "\<dots> = drop (Suc i) (take hi els) @ drop hi els"
    unfolding drop_append using assms by simp
  finally show ?thesis using assms by (simp add: upd_conv_take_nth_drop)
qed

lemma rb_range_list:
  assumes "i \<le> hi" and "hi \<le> length els"
  shows "rb_range fn i hi els s =
     (case list_each fn (drop i (take hi els)) s of
        (go, mid, s') \<Rightarrow> (go, take i els @ mid @ drop hi els, s'))"
  using assms
proof (induction fn i hi els s rule: rb_range.induct)
  case (1 fn i hi els s)
  show ?case
  proof (cases "i < hi")
    case False
    with "1.prems" show ?thesis by (simp add: rb_range.simps)
  next
    case True
    obtain go x s' where fn: "fn (els ! i) s = (go, x, s')" by (metis prod_cases3)
    have front: "drop i (take hi els) = els ! i # drop (Suc i) (take hi els)"
      using True "1.prems" by (simp add: Cons_nth_drop_Suc[symmetric])
    have rest: "drop (Suc i) (take hi (els[i := x])) = drop (Suc i) (take hi els)"
      by (simp add: take_update_swap)
    have pre: "take (Suc i) (els[i := x]) = take i els @ [x]"
      using True "1.prems" by (simp add: take_Suc_conv_app_nth)
    have split: "els[i := x] = take i els @ x # drop (Suc i) (take hi els) @ drop hi els"
      using True "1.prems" by (simp add: list_update_three)
    have post: "drop hi (els[i := x]) = drop hi els"
      using True by simp
    show ?thesis
    proof (cases go)
      case False
      with True split show ?thesis
        by (simp add: rb_range.simps[of fn i] fn front)
    next
      case go: True
      have "rb_range fn (i + 1) hi (els[i := x]) s' =
          (case list_each fn (drop (Suc i) (take hi els)) s' of
             (g, mid, t) \<Rightarrow> (g, (take i els @ [x]) @ mid @ drop hi els, t))"
        using "1.IH"[OF True fn[symmetric] refl go] True "1.prems"
        by (simp only: length_list_update Suc_eq_plus1[symmetric] Suc_leI rest pre post)
      with True go show ?thesis
        by (simp add: rb_range.simps[of fn i] fn front split: prod.splits)
    qed
  qed
qed

lemma rb_range_down_list:
  assumes "lo \<le> hi" and "hi \<le> length els"
  shows "rb_range_down fn lo hi els s =
     (case list_each fn (rev (drop lo (take hi els))) s of
        (go, mid, s') \<Rightarrow> (go, take lo els @ rev mid @ drop hi els, s'))"
  using assms
proof (induction fn lo hi els s rule: rb_range_down.induct)
  case (1 fn lo hi els s)
  show ?case
  proof (cases "lo < hi")
    case False
    with "1.prems" show ?thesis by (simp add: rb_range_down.simps)
  next
    case True
    then obtain k where k: "hi = Suc k" "lo \<le> k" by (cases hi) auto
    with "1.prems" have klt: "k < length els" by simp
    obtain go x s' where fn: "fn (els ! k) s = (go, x, s')" by (metis prod_cases3)
    have top: "rev (drop lo (take (Suc k) els)) = els ! k # rev (drop lo (take k els))"
      using k klt by (simp add: take_Suc_conv_app_nth)
    have rest: "drop lo (take k (els[k := x])) = drop lo (take k els)"
      by simp
    have post: "drop k (els[k := x]) = x # drop (Suc k) els"
      using k klt by (simp add: Cons_nth_drop_Suc[symmetric])
    have pre: "take lo (els[k := x]) = take lo els"
      using k by simp
    have split: "els[k := x] = take lo els @ drop lo (take k els) @ x # drop (Suc k) els"
    proof -
      have "take k els = take lo els @ drop lo (take k els)"
        using k(2) by (metis append_take_drop_id min.absorb1 take_take)
      then show ?thesis using k klt by (simp add: upd_conv_take_nth_drop)
    qed
    show ?thesis
    proof (cases go)
      case False
      with True split k show ?thesis
        by (simp add: rb_range_down.simps[of fn lo] fn top)
    next
      case go: True
      have fn': "(go, x, s') = fn (els ! (hi - 1)) s" using fn k by simp
      have "rb_range_down fn lo k (els[k := x]) s' =
          (case list_each fn (rev (drop lo (take k els))) s' of
             (g, mid, t) \<Rightarrow> (g, take lo els @ rev mid @ x # drop (Suc k) els, t))"
        using "1.IH"[OF True fn' refl go] klt k
        by (simp only: length_list_update diff_Suc_1 rest pre post less_imp_le)
      with True go k show ?thesis
        by (simp add: rb_range_down.simps[of fn lo] fn top split: prod.splits)
    qed
  qed
qed

text \<open>\<open>ForEach\<close> is the visit of the list of elements, in order; \<open>ForEachReverse\<close> the visit
  of the reversed list.\<close>

lemma rb_ForEach_correct:
  assumes "rb_inv r"
  shows "rb_inv (fst (rb_ForEach fn r s))"
    and "rb_list (fst (rb_ForEach fn r s)) = fst (snd (list_each fn (rb_list r) s))"
    and "snd (rb_ForEach fn r s) = snd (snd (list_each fn (rb_list r) s))"
proof -
  let ?h = "rb_head r" and ?t = "rb_tail r" and ?els = "rb_elements r"
  have bounds: "?h < length ?els" "?t < length ?els" "8 \<le> length ?els"
    using assms by (auto simp: rb_inv_def rb_consts)
  have "rb_inv (fst (rb_ForEach fn r s))
      \<and> rb_list (fst (rb_ForEach fn r s)) = fst (snd (list_each fn (rb_list r) s))
      \<and> snd (rb_ForEach fn r s) = snd (snd (list_each fn (rb_list r) s))"
  proof (cases "?h \<le> ?t")
    case True
    obtain g a s1 where e: "list_each fn (drop ?h (take ?t ?els)) s = (g, a, s1)"
      by (metis prod_cases3)
    have la: "length a = ?t - ?h"
      using length_list_each[of fn "drop ?h (take ?t ?els)" s] e bounds by simp
    have "rb_range fn ?h ?t ?els s = (g, take ?h ?els @ a @ drop ?t ?els, s1)"
      using True bounds e by (simp add: rb_range_list)
    then show ?thesis
      using True bounds la assms e
      by (cases "?h = ?t") (simp_all add: rb_ForEach_def rb_Len_def rb_list_def rb_inv_def min_def)
  next
    case False
    then have wrap: "?t < ?h" by simp
    obtain g a s1 where e1: "list_each fn (drop ?h ?els) s = (g, a, s1)" by (metis prod_cases3)
    obtain g2 b s2 where e2: "list_each fn (take ?t ?els) s1 = (g2, b, s2)" by (metis prod_cases3)
    have la: "length a = length ?els - ?h" and lb: "length b = ?t"
      using length_list_each[of fn "drop ?h ?els" s] length_list_each[of fn "take ?t ?els" s1]
        e1 e2 bounds by auto
    have r1: "rb_range fn ?h (length ?els) ?els s = (g, take ?h ?els @ a, s1)"
      using bounds e1 by (simp add: rb_range_list)
    have "take ?t (take ?h ?els @ a) = take ?t ?els"
      using wrap bounds by (simp add: min_def)
    then have r2: "rb_range fn 0 ?t (take ?h ?els @ a) s1 = (g2, b @ drop ?t (take ?h ?els) @ a, s2)"
      using bounds wrap la e2 by (simp add: rb_range_list)
    show ?thesis
      using wrap bounds la lb assms
      by (simp add: rb_ForEach_def rb_Len_def rb_list_def r1 r2 list_each_append e1 e2
          rb_inv_def min_def rb_consts)
  qed
  then show "rb_inv (fst (rb_ForEach fn r s))"
    and "rb_list (fst (rb_ForEach fn r s)) = fst (snd (list_each fn (rb_list r) s))"
    and "snd (rb_ForEach fn r s) = snd (snd (list_each fn (rb_list r) s))"
    by blast+
qed

lemmas rb_inv_ForEach [simp] = rb_ForEach_correct(1)
lemmas rb_ForEach_list [queue_simps] = rb_ForEach_correct(2,3)

lemma rb_ForEachReverse_correct:
  assumes "rb_inv r"
  shows "rb_inv (fst (rb_ForEachReverse fn r s))"
    and "rb_list (fst (rb_ForEachReverse fn r s)) = rev (fst (snd (list_each fn (rev (rb_list r)) s)))"
    and "snd (rb_ForEachReverse fn r s) = snd (snd (list_each fn (rev (rb_list r)) s))"
proof -
  let ?h = "rb_head r" and ?t = "rb_tail r" and ?els = "rb_elements r"
  have bounds: "?h < length ?els" "?t < length ?els" "8 \<le> length ?els"
    using assms by (auto simp: rb_inv_def rb_consts)
  have "rb_inv (fst (rb_ForEachReverse fn r s))
      \<and> rb_list (fst (rb_ForEachReverse fn r s)) = rev (fst (snd (list_each fn (rev (rb_list r)) s)))
      \<and> snd (rb_ForEachReverse fn r s) = snd (snd (list_each fn (rev (rb_list r)) s))"
  proof (cases "?h \<le> ?t")
    case True
    obtain g a s1 where e: "list_each fn (rev (drop ?h (take ?t ?els))) s = (g, a, s1)"
      by (metis prod_cases3)
    have la: "length a = ?t - ?h"
      using length_list_each[of fn "rev (drop ?h (take ?t ?els))" s] e bounds by simp
    have "rb_range_down fn ?h ?t ?els s = (g, take ?h ?els @ rev a @ drop ?t ?els, s1)"
      using True bounds e by (simp add: rb_range_down_list)
    then show ?thesis
      using True bounds la assms e
      by (cases "?h = ?t")
         (simp_all add: rb_ForEachReverse_def rb_Len_def rb_list_def rb_inv_def min_def)
  next
    case False
    then have wrap: "?t < ?h" by simp
    obtain g a s1 where e1: "list_each fn (rev (take ?t ?els)) s = (g, a, s1)" by (metis prod_cases3)
    obtain g2 b s2 where e2: "list_each fn (rev (drop ?h ?els)) s1 = (g2, b, s2)"
      by (metis prod_cases3)
    have la: "length a = ?t" and lb: "length b = length ?els - ?h"
      using length_list_each[of fn "rev (take ?t ?els)" s]
        length_list_each[of fn "rev (drop ?h ?els)" s1] e1 e2 bounds by auto
    have r1: "rb_range_down fn 0 ?t ?els s = (g, rev a @ drop ?t ?els, s1)"
      using bounds e1 by (simp add: rb_range_down_list)
    have "drop ?h (rev a @ drop ?t ?els) = drop ?h ?els"
      using wrap la by simp
    then have r2: "rb_range_down fn ?h (length ?els) (rev a @ drop ?t ?els) s1 =
        (g2, take ?h (rev a @ drop ?t ?els) @ rev b, s2)"
      using bounds wrap la e2 by (simp add: rb_range_down_list)
    have "\<not> length ?els - ?t \<le> ?h - ?t"
      using bounds wrap by linarith
    with wrap bounds la lb assms show ?thesis
      by (simp add: rb_ForEachReverse_def rb_Len_def rb_list_def r1 r2 list_each_append e1 e2
          rb_inv_def min_def rb_consts)
  qed
  then show "rb_inv (fst (rb_ForEachReverse fn r s))"
    and "rb_list (fst (rb_ForEachReverse fn r s)) = rev (fst (snd (list_each fn (rev (rb_list r)) s)))"
    and "snd (rb_ForEachReverse fn r s) = snd (snd (list_each fn (rev (rb_list r)) s))"
    by blast+
qed

lemmas rb_inv_ForEachReverse [simp] = rb_ForEachReverse_correct(1)
lemmas rb_ForEachReverse_list [queue_simps] = rb_ForEachReverse_correct(2,3)

section \<open>The queue interface\<close>

text \<open>
  What the connection relies on when it uses a ring buffer as a queue: elements leave in the
  order in which they entered, and none is lost or duplicated.
\<close>

locale fifo_queue =
  fixes content :: "'q \<Rightarrow> 'a list"
    and ok :: "'q \<Rightarrow> bool"
    and enq :: "'a \<Rightarrow> 'q \<Rightarrow> 'q"
    and deq :: "'q \<Rightarrow> 'a option \<times> 'q"
    and len :: "'q \<Rightarrow> nat"
  assumes ok_enq: "ok q \<Longrightarrow> ok (enq x q)"
    and content_enq: "ok q \<Longrightarrow> content (enq x q) = content q @ [x]"
    and ok_deq: "ok q \<Longrightarrow> ok (snd (deq q))"
    and deq_front: "ok q \<Longrightarrow> fst (deq q) = (case content q of [] \<Rightarrow> None | x # _ \<Rightarrow> Some x)"
    and content_deq: "ok q \<Longrightarrow> content (snd (deq q)) = tl (content q)"
    and len_content: "ok q \<Longrightarrow> len q = length (content q)"
begin

lemma enq_all: "ok q \<Longrightarrow> ok (fold enq xs q) \<and> content (fold enq xs q) = content q @ xs"
  by (induction xs arbitrary: q) (auto simp: ok_enq content_enq)

lemma deq_n:
  "ok q \<Longrightarrow> ok (((\<lambda>q. snd (deq q)) ^^ n) q) \<and> content (((\<lambda>q. snd (deq q)) ^^ n) q) = drop n (content q)"
  by (induction n) (auto simp: ok_deq content_deq drop_Suc tl_drop)

lemma deq_after_enq:
  assumes "ok q" and "n < length (content q) + length xs"
  shows "fst (deq (((\<lambda>q. snd (deq q)) ^^ n) (fold enq xs q))) = Some ((content q @ xs) ! n)"
proof -
  let ?q = "((\<lambda>q. snd (deq q)) ^^ n) (fold enq xs q)"
  have "ok ?q" "content ?q = drop n (content q @ xs)"
    using deq_n[of "fold enq xs q" n] enq_all[OF assms(1), of xs] by auto
  moreover have "drop n (content q @ xs) = (content q @ xs) ! n # drop (Suc n) (content q @ xs)"
    using assms(2) Cons_nth_drop_Suc[of n "content q @ xs"] by (simp del: drop_append)
  ultimately show ?thesis
    by (simp add: deq_front)
qed

lemma len_after:
  assumes "ok q" and "n \<le> length (content q) + length xs"
  shows "len (((\<lambda>q. snd (deq q)) ^^ n) (fold enq xs q)) = length (content q) + length xs - n"
  using assms deq_n[of "fold enq xs q" n] enq_all[OF assms(1), of xs] by (auto simp: len_content)

end

interpretation rbq: fifo_queue rb_list rb_inv "rb_Push z" "rb_Pop z" rb_Len for z
  by unfold_locales (auto simp: queue_simps)

end
