(* ===== verification/Serial_Arith.thy ===== *)
theory Serial_Arith
  imports Kcp_Prelude
begin

text \<open>
  The arithmetic helpers of \<open>kcp.go\<close> (\<open>_imin_\<close>, \<open>_imax_\<close>, \<open>_ibound_\<close>,
  \<open>_itimediff\<close>) and the protocol constants. Timestamps and sequence numbers are
  \<open>uint32\<close> values that wrap around and are compared by the sign of their 32-bit
  difference. That comparison is an order only inside a window of less than \<open>2 ^ 31\<close>
  values: \<open>sn_off b x\<close> is the distance from a base \<open>b\<close> up to \<open>x\<close>, and for two
  values within a half-range of the base \<open>itimediff\<close> is the difference of the distances.
\<close>

section \<open>The code\<close>

abbreviation (input) IKCP_RTO_NDL :: "'a::numeral" where "IKCP_RTO_NDL \<equiv> 30"
abbreviation (input) IKCP_RTO_MIN :: "'a::numeral" where "IKCP_RTO_MIN \<equiv> 100"
abbreviation (input) IKCP_RTO_DEF :: "'a::numeral" where "IKCP_RTO_DEF \<equiv> 200"
abbreviation (input) IKCP_RTO_MAX :: "'a::numeral" where "IKCP_RTO_MAX \<equiv> 60000"
abbreviation (input) IKCP_CMD_PUSH :: "'a::numeral" where "IKCP_CMD_PUSH \<equiv> 81"
abbreviation (input) IKCP_CMD_ACK :: "'a::numeral" where "IKCP_CMD_ACK \<equiv> 82"
abbreviation (input) IKCP_CMD_WASK :: "'a::numeral" where "IKCP_CMD_WASK \<equiv> 83"
abbreviation (input) IKCP_CMD_WINS :: "'a::numeral" where "IKCP_CMD_WINS \<equiv> 84"
abbreviation (input) IKCP_ASK_SEND :: "'a::numeral" where "IKCP_ASK_SEND \<equiv> 1"
abbreviation (input) IKCP_ASK_TELL :: "'a::numeral" where "IKCP_ASK_TELL \<equiv> 2"
abbreviation (input) IKCP_WND_SND :: "'a::numeral" where "IKCP_WND_SND \<equiv> 32"
abbreviation (input) IKCP_WND_RCV :: "'a::numeral" where "IKCP_WND_RCV \<equiv> 32"
abbreviation (input) IKCP_MTU_DEF :: "'a::numeral" where "IKCP_MTU_DEF \<equiv> 1400"
abbreviation (input) IKCP_INTERVAL :: "'a::numeral" where "IKCP_INTERVAL \<equiv> 100"
abbreviation (input) IKCP_OVERHEAD :: "'a::numeral" where "IKCP_OVERHEAD \<equiv> 24"
abbreviation (input) IKCP_DEADLINK :: "'a::numeral" where "IKCP_DEADLINK \<equiv> 20"
abbreviation (input) IKCP_THRESH_INIT :: "'a::numeral" where "IKCP_THRESH_INIT \<equiv> 2"
abbreviation (input) IKCP_THRESH_MIN :: "'a::numeral" where "IKCP_THRESH_MIN \<equiv> 2"
abbreviation (input) IKCP_PROBE_INIT :: "'a::numeral" where "IKCP_PROBE_INIT \<equiv> 7000"
abbreviation (input) IKCP_PROBE_LIMIT :: "'a::numeral" where "IKCP_PROBE_LIMIT \<equiv> 120000"

definition imin :: "u32 \<Rightarrow> u32 \<Rightarrow> u32" where
  "imin a b = (if a \<le> b then a else b)"

definition imax :: "u32 \<Rightarrow> u32 \<Rightarrow> u32" where
  "imax a b = (if a \<ge> b then a else b)"

definition ibound :: "u32 \<Rightarrow> u32 \<Rightarrow> u32 \<Rightarrow> u32" where
  "ibound lower middle upper = imin (imax lower middle) upper"

text \<open>\<open>(int32)(later - earlier)\<close>, read as the signed value it is.\<close>

definition itimediff :: "u32 \<Rightarrow> u32 \<Rightarrow> int" where
  "itimediff later earlier = sint (later - earlier)"

section \<open>Distances from a base\<close>

definition sn_off :: "u32 \<Rightarrow> u32 \<Rightarrow> nat" where
  "sn_off b x = unat (x - b)"

lemma sn_off_self [simp]: "sn_off b b = 0"
  by (simp add: sn_off_def)

lemma sn_off_less: "sn_off b x < 2 ^ 32"
  using unsigned_less[of "x - b"] by (simp add: sn_off_def)

lemma add_sn_off: "b + of_nat (sn_off b x) = x"
  by (simp add: sn_off_def)

lemma sn_off_add: "n < 2 ^ 32 \<Longrightarrow> sn_off b (b + of_nat n) = n"
  by (simp add: sn_off_def unat_of_nat)

lemma sn_off_forward: "sn_off b x + n < 2 ^ 32 \<Longrightarrow> sn_off b (x + of_nat n) = sn_off b x + n"
  using sn_off_add[of "sn_off b x + n" b] add_sn_off[of b x] by (simp add: add.assoc[symmetric])

lemma sn_off_inj: "sn_off b x = sn_off b y \<Longrightarrow> x = y"
  by (metis add_sn_off)

lemma sn_off_0_iff [simp]: "sn_off b x = 0 \<longleftrightarrow> x = b"
  by (metis sn_off_inj sn_off_self)

text \<open>Moving the base up past a value lowers the distances of all other values.\<close>

lemma sn_off_base_Suc: "x \<noteq> b \<Longrightarrow> sn_off (b + 1) x = sn_off b x - 1"
proof -
  assume "x \<noteq> b"
  then have pos: "1 \<le> sn_off b x"
    by (metis One_nat_def Suc_leI gr_zeroI sn_off_0_iff)
  then have "x = (b + 1) + of_nat (sn_off b x - 1)"
    using add_sn_off[of b x] by (simp add: of_nat_diff)
  then show ?thesis
    using sn_off_add[of "sn_off b x - 1" "b + 1"] sn_off_less[of b x] by simp
qed

lemma sint_of_int32: "- (2 ^ 31) \<le> k \<Longrightarrow> k < 2 ^ 31 \<Longrightarrow> sint (word_of_int k :: 32 word) = k"
  by (simp add: sint_sbintrunc' signed_take_bit_int_eq_self)

lemma itimediff_range: "- (2 ^ 31) \<le> itimediff a b" "itimediff a b < 2 ^ 31"
  unfolding itimediff_def using sint_greater_eq[of "a - b"] sint_less[of "a - b"] by simp_all

lemma itimediff_self [simp]: "itimediff a a = 0"
  by (simp add: itimediff_def)

lemma word_of_itimediff: "word_of_int (itimediff a b) = a - b"
  by (simp add: itimediff_def)

lemma itimediff_0_iff [simp]: "itimediff a b = 0 \<longleftrightarrow> a = b"
  using word_of_itimediff[of a b] by auto

lemma itimediff_of_int:
  "- (2 ^ 31) \<le> k \<Longrightarrow> k < 2 ^ 31 \<Longrightarrow> itimediff (a + word_of_int k) a = k"
  by (simp add: itimediff_def sint_of_int32)

text \<open>Inside a half-range of the base, the comparison is that of the distances.\<close>

lemma itimediff_off:
  assumes "sn_off b x < 2 ^ 31" and "sn_off b y < 2 ^ 31"
  shows "itimediff x y = int (sn_off b x) - int (sn_off b y)"
proof -
  have "x - y = (b + of_nat (sn_off b x)) - (b + of_nat (sn_off b y))"
    by (simp only: add_sn_off)
  also have "\<dots> = word_of_int (int (sn_off b x) - int (sn_off b y))"
    by simp
  finally show ?thesis
    using assms by (simp add: itimediff_def sint_of_int32 del: of_int_diff)
qed

lemma itimediff_base:
  "sn_off b x < 2 ^ 31 \<Longrightarrow> itimediff x b = int (sn_off b x)"
  using itimediff_off[of b x b] by simp

lemma itimediff_base_nonneg: "0 \<le> itimediff x b \<longleftrightarrow> sn_off b x < 2 ^ 31"
proof
  assume nonneg: "0 \<le> itimediff x b"
  have "word_of_int (itimediff x b) = x - b" by (simp add: itimediff_def)
  then have "x = b + of_nat (nat (itimediff x b))"
    using nonneg by (simp add: of_nat_nat)
  then have "sn_off b x = nat (itimediff x b)"
    using sn_off_add[of "nat (itimediff x b)" b] itimediff_range(2)[of x b] nonneg by simp
  then show "sn_off b x < 2 ^ 31"
    using itimediff_range(2)[of x b] nonneg by simp
next
  assume "sn_off b x < 2 ^ 31"
  then show "0 \<le> itimediff x b" by (simp add: itimediff_base)
qed

lemma itimediff_window:
  assumes "w < 2 ^ 31" and "0 \<le> itimediff x b" and "itimediff x (b + of_nat w) < 0"
  shows "sn_off b x < w"
proof -
  have "sn_off b x < 2 ^ 31" using assms(2) by (simp add: itimediff_base_nonneg)
  moreover have "sn_off b (b + of_nat w) = w" using assms(1) by (simp add: sn_off_add)
  ultimately show ?thesis
    using assms(1,3) itimediff_off[of b x "b + of_nat w"] by simp
qed

section \<open>Bounds\<close>

lemma imin_le: "imin a b \<le> a" "imin a b \<le> b"
  by (auto simp: imin_def)

lemma imax_ge: "a \<le> imax a b" "b \<le> imax a b"
  by (auto simp: imax_def)

lemma ibound_range: "lower \<le> upper \<Longrightarrow> lower \<le> ibound lower middle upper"
  "ibound lower middle upper \<le> upper"
  by (auto simp: ibound_def imin_def imax_def)

lemma ibound_inside: "lower \<le> middle \<Longrightarrow> middle \<le> upper \<Longrightarrow> ibound lower middle upper = middle"
  by (auto simp: ibound_def imin_def imax_def)

end
