(* ===== verification/Wire.thy ===== *)
theory Wire
  imports Serial_Arith
begin

text \<open>
  The wire format: the little-endian codec of \<open>kcp.go\<close> and \<open>utils.go\<close>, the segment and
  its 24-byte header, and the high-level message headers of \<open>header.go\<close>, \<open>channel.go\<close> and
  \<open>error_code.go\<close>. An encoder writes at a position of the send buffer: the slice \<open>ptr\<close> is
  modelled by the bytes of the buffer before it and by its own length (the room left). Writing
  past the room, or reading past the end, is the run-time panic \<open>None\<close>.
\<close>

unbundle bit_operations_syntax

section \<open>Little-endian words\<close>

definition le16 :: "u16 \<Rightarrow> bytes" where
  "le16 v = [ucast v, ucast (drop_bit 8 v)]"

definition le32 :: "u32 \<Rightarrow> bytes" where
  "le32 v = [ucast v, ucast (drop_bit 8 v), ucast (drop_bit 16 v), ucast (drop_bit 24 v)]"

definition un_le16 :: "bytes \<Rightarrow> u16" where
  "un_le16 b = ucast (b ! 0) OR push_bit 8 (ucast (b ! 1))"

definition un_le32 :: "bytes \<Rightarrow> u32" where
  "un_le32 b = ucast (b ! 0) OR push_bit 8 (ucast (b ! 1)) OR push_bit 16 (ucast (b ! 2))
     OR push_bit 24 (ucast (b ! 3))"

section \<open>Encoders and decoders\<close>

type_synonym wptr = "bytes \<times> nat"

fun ikcp_encode8u :: "wptr \<Rightarrow> byte \<Rightarrow> wptr option" where
  "ikcp_encode8u (w, room) c = (if room < 1 then None else Some (w @ [c], room - 1))"

fun ikcp_encode16u :: "wptr \<Rightarrow> u16 \<Rightarrow> wptr option" where
  "ikcp_encode16u (w, room) v = (if room < 2 then None else Some (w @ le16 v, room - 2))"

fun ikcp_encode32u :: "wptr \<Rightarrow> u32 \<Rightarrow> wptr option" where
  "ikcp_encode32u (w, room) l = (if room < 4 then None else Some (w @ le32 l, room - 4))"

definition ikcp_decode8u :: "bytes \<Rightarrow> (byte \<times> bytes) option" where
  "ikcp_decode8u p = (if length p < 1 then None else Some (p ! 0, drop 1 p))"

definition ikcp_decode16u :: "bytes \<Rightarrow> (u16 \<times> bytes) option" where
  "ikcp_decode16u p = (if length p < 2 then None else Some (un_le16 p, drop 2 p))"

definition ikcp_decode32u :: "bytes \<Rightarrow> (u32 \<times> bytes) option" where
  "ikcp_decode32u p = (if length p < 4 then None else Some (un_le32 p, drop 4 p))"

text \<open>\<open>utils.go\<close>: the bounds are checked, so an encoding that does not fit is dropped.\<close>

definition Encode32U :: "bytes \<Rightarrow> nat \<Rightarrow> u32 \<Rightarrow> bytes" where
  "Encode32U data off v =
     (if off + 4 \<le> length data then take off data @ le32 v @ drop (off + 4) data else data)"

definition Decode32U :: "bytes \<Rightarrow> nat \<Rightarrow> u32 \<times> bool" where
  "Decode32U data off =
     (if off + 4 \<le> length data then (un_le32 (drop off data), True) else (0, False))"

section \<open>Segments\<close>

record segment =
  sg_conv :: u32
  sg_cmd :: byte
  sg_frg :: byte
  sg_wnd :: u16
  sg_ts :: u32
  sg_sn :: u32
  sg_una :: u32
  sg_rto :: u32
  sg_xmit :: u32
  sg_resendts :: u32
  sg_fastack :: u32
  sg_acked :: u32
  sg_data :: bytes

text \<open>The zero value \<open>segment{}\<close>.\<close>

definition zero_seg :: segment where
  "zero_seg = \<lparr>sg_conv = 0, sg_cmd = 0, sg_frg = 0, sg_wnd = 0, sg_ts = 0, sg_sn = 0, sg_una = 0,
     sg_rto = 0, sg_xmit = 0, sg_resendts = 0, sg_fastack = 0, sg_acked = 0, sg_data = []\<rparr>"

definition seg_encode :: "segment \<Rightarrow> wptr \<Rightarrow> wptr option" where
  "seg_encode seg ptr = do {
     ptr \<leftarrow> ikcp_encode32u ptr (sg_conv seg);
     ptr \<leftarrow> ikcp_encode8u ptr (sg_cmd seg);
     ptr \<leftarrow> ikcp_encode8u ptr (sg_frg seg);
     ptr \<leftarrow> ikcp_encode16u ptr (sg_wnd seg);
     ptr \<leftarrow> ikcp_encode32u ptr (sg_ts seg);
     ptr \<leftarrow> ikcp_encode32u ptr (sg_sn seg);
     ptr \<leftarrow> ikcp_encode32u ptr (sg_una seg);
     ikcp_encode32u ptr (of_nat (length (sg_data seg)))
   }"

section \<open>Message headers, channels and error codes\<close>

datatype KcpChannel = KcpReliable | KcpUnreliable

fun channel_byte :: "KcpChannel \<Rightarrow> byte" where
  "channel_byte KcpReliable = 1"
| "channel_byte KcpUnreliable = 2"

datatype KcpHeaderReliable = KcpHeaderHello | KcpHeaderPing | KcpHeaderData | KcpHeaderPong

fun reliable_byte :: "KcpHeaderReliable \<Rightarrow> byte" where
  "reliable_byte KcpHeaderHello = 1"
| "reliable_byte KcpHeaderPing = 2"
| "reliable_byte KcpHeaderData = 3"
| "reliable_byte KcpHeaderPong = 4"

datatype KcpHeaderUnreliable = KcpHeaderUnrelData | KcpHeaderUnrelDisconnect

fun unreliable_byte :: "KcpHeaderUnreliable \<Rightarrow> byte" where
  "unreliable_byte KcpHeaderUnrelData = 4"
| "unreliable_byte KcpHeaderUnrelDisconnect = 5"

definition ParseReliable :: "byte \<Rightarrow> KcpHeaderReliable \<times> bool" where
  "ParseReliable value =
     (if value = 1 then (KcpHeaderHello, True)
      else if value = 2 then (KcpHeaderPing, True)
      else if value = 3 then (KcpHeaderData, True)
      else if value = 4 then (KcpHeaderPong, True)
      else (KcpHeaderPing, False))"

definition ParseUnreliable :: "byte \<Rightarrow> KcpHeaderUnreliable \<times> bool" where
  "ParseUnreliable value =
     (if value = 4 then (KcpHeaderUnrelData, True)
      else if value = 5 then (KcpHeaderUnrelDisconnect, True)
      else (KcpHeaderUnrelDisconnect, False))"

datatype ErrorCode =
  ErrorCodeDnsResolve | ErrorCodeTimeout | ErrorCodeCongestion | ErrorCodeInvalidReceive
| ErrorCodeInvalidSend | ErrorCodeConnectionClosed | ErrorCodeUnexpected

fun ErrorCode_String :: "ErrorCode \<Rightarrow> string" where
  "ErrorCode_String ErrorCodeDnsResolve = ''DnsResolve''"
| "ErrorCode_String ErrorCodeTimeout = ''Timeout''"
| "ErrorCode_String ErrorCodeCongestion = ''Congestion''"
| "ErrorCode_String ErrorCodeInvalidReceive = ''InvalidReceive''"
| "ErrorCode_String ErrorCodeInvalidSend = ''InvalidSend''"
| "ErrorCode_String ErrorCodeConnectionClosed = ''ConnectionClosed''"
| "ErrorCode_String ErrorCodeUnexpected = ''Unexpected''"

lemma ErrorCode_String_inject: "ErrorCode_String a = ErrorCode_String b \<Longrightarrow> a = b"
  by (cases a; cases b) simp_all

section \<open>Round trips of the words\<close>

lemma length_le [simp]: "length (le16 w) = 2" "length (le32 v) = 4"
  by (simp_all add: le16_def le32_def)

lemma un_le16_le16 [simp]: "un_le16 (le16 v @ xs) = v"
  by (rule bit_word_eqI)
     (auto simp: un_le16_def le16_def bit_simps)

lemma un_le32_le32 [simp]: "un_le32 (le32 v @ xs) = v"
proof (rule bit_word_eqI)
  fix n
  assume "n < LENGTH(32)"
  then consider "n < 8" | "8 \<le> n" "n < 16" | "16 \<le> n" "n < 24" | "24 \<le> n" "n < 32"
    by (simp, linarith)
  then show "bit (un_le32 (le32 v @ xs)) n = bit v n"
    by cases (auto simp: un_le32_def le32_def bit_simps)
qed

lemma le32_un_le32: "le32 (un_le32 [a, b, c, d]) = [a, b, c, d]"
  by (auto simp: un_le32_def le32_def bit_eq_iff bit_simps dest: bit_imp_le_length)

lemma le16_un_le16: "le16 (un_le16 [a, b]) = [a, b]"
  by (auto simp: un_le16_def le16_def bit_eq_iff bit_simps dest: bit_imp_le_length)

lemma ikcp_decode_simps [simp]:
  "ikcp_decode8u (c # xs) = Some (c, xs)"
  "ikcp_decode16u (le16 w @ xs) = Some (w, xs)"
  "ikcp_decode32u (le32 v @ xs) = Some (v, xs)"
  by (simp_all add: ikcp_decode8u_def ikcp_decode16u_def ikcp_decode32u_def)

lemma ikcp_decode_Some:
  "ikcp_decode8u p = Some (c, p') \<Longrightarrow> length p = length p' + 1"
  "ikcp_decode16u p = Some (w, p') \<Longrightarrow> length p = length p' + 2"
  "ikcp_decode32u p = Some (v, p') \<Longrightarrow> length p = length p' + 4"
  by (auto simp: ikcp_decode8u_def ikcp_decode16u_def ikcp_decode32u_def split: if_splits)

lemma ikcp_decode_None_iff [simp]:
  "ikcp_decode8u p = None \<longleftrightarrow> length p < 1"
  "ikcp_decode16u p = None \<longleftrightarrow> length p < 2"
  "ikcp_decode32u p = None \<longleftrightarrow> length p < 4"
  by (auto simp: ikcp_decode8u_def ikcp_decode16u_def ikcp_decode32u_def)

section \<open>The segment header\<close>

definition seg_header :: "segment \<Rightarrow> bytes" where
  "seg_header seg =
     le32 (sg_conv seg) @ sg_cmd seg # sg_frg seg # le16 (sg_wnd seg) @ le32 (sg_ts seg)
     @ le32 (sg_sn seg) @ le32 (sg_una seg) @ le32 (of_nat (length (sg_data seg)))"

lemma length_seg_header [simp]: "length (seg_header seg) = IKCP_OVERHEAD"
  by (simp add: seg_header_def)

lemma seg_encode_eq:
  "seg_encode seg (w, room) =
     (if room < IKCP_OVERHEAD then None else Some (w @ seg_header seg, room - IKCP_OVERHEAD))"
  by (auto simp: seg_encode_def seg_header_def bind_eq_None_conv bind_eq_Some_conv)

section \<open>Encode32U and the message headers\<close>

lemma length_Encode32U [simp]: "length (Encode32U data i v) = length data"
  by (simp add: Encode32U_def)

lemma Decode_Encode32U:
  "i + 4 \<le> length data \<Longrightarrow> Decode32U (Encode32U data i v) i = (v, True)"
  by (simp add: Encode32U_def Decode32U_def)

lemma ParseReliable_byte [simp]: "ParseReliable (reliable_byte h) = (h, True)"
  by (cases h) (simp_all add: ParseReliable_def)

lemma ParseUnreliable_byte [simp]: "ParseUnreliable (unreliable_byte h) = (h, True)"
  by (cases h) (simp_all add: ParseUnreliable_def)

lemma ParseReliable_valid: "snd (ParseReliable b) \<Longrightarrow> reliable_byte (fst (ParseReliable b)) = b"
  by (auto simp: ParseReliable_def split: if_splits)

lemma ParseUnreliable_valid:
  "snd (ParseUnreliable b) \<Longrightarrow> unreliable_byte (fst (ParseUnreliable b)) = b"
  by (auto simp: ParseUnreliable_def split: if_splits)

end
