(* ===== verification/Segment_Heap.thy ===== *)
theory Segment_Heap
  imports Wire
begin

text \<open>
  The out-of-order receive buffer of \<open>kcp.go\<close>: \<open>segmentHeap\<close>, a binary min-heap of segments
  with a set of the sequence numbers it holds, driven through \<open>container/heap\<close> of the Go
  standard library (\<open>heap.Push\<close>, \<open>heap.Pop\<close> and their \<open>up\<close> and \<open>down\<close> loops, modelled
  here on a slice). \<open>Less\<close> compares sequence numbers by their signed difference, which orders
  the segments only while they all lie in a half-range window above a base; the development
  proves the heap correct under exactly that condition, and the connection keeps it
  (base \<open>rcv_nxt\<close>, window \<open>rcv_wnd\<close>).
\<close>

section \<open>The code\<close>

record segmentHeap =
  h_segments :: "segment list"
  h_marks :: "u32 set"

definition newSegmentHeap :: segmentHeap where
  "newSegmentHeap = \<lparr>h_segments = [], h_marks = {}\<rparr>"

definition heap_Len :: "segmentHeap \<Rightarrow> nat" where
  "heap_Len h = length (h_segments h)"

text \<open>\<open>Less(i, j)\<close> on the two segments at \<open>i\<close> and \<open>j\<close>.\<close>

definition seg_less :: "segment \<Rightarrow> segment \<Rightarrow> bool" where
  "seg_less a b \<longleftrightarrow> itimediff (sg_sn b) (sg_sn a) > 0"

definition heap_Swap :: "nat \<Rightarrow> nat \<Rightarrow> 'a list \<Rightarrow> 'a list" where
  "heap_Swap i j xs = xs[i := xs ! j, j := xs ! i]"

text \<open>The methods \<open>Push\<close> and \<open>Pop\<close> of \<open>segmentHeap\<close>: at the end of the slice.\<close>

definition h_Push :: "segmentHeap \<Rightarrow> segment \<Rightarrow> segmentHeap" where
  "h_Push h x = \<lparr>h_segments = h_segments h @ [x], h_marks = insert (sg_sn x) (h_marks h)\<rparr>"

definition h_Pop :: "segmentHeap \<Rightarrow> segment \<times> segmentHeap" where
  "h_Pop h =
     (let n = length (h_segments h);
          x = h_segments h ! (n - 1)
      in (x, \<lparr>h_segments = take (n - 1) (h_segments h), h_marks = h_marks h - {sg_sn x}\<rparr>))"

definition heap_Has :: "segmentHeap \<Rightarrow> u32 \<Rightarrow> bool" where
  "heap_Has h sn \<longleftrightarrow> sn \<in> h_marks h"

text \<open>\<open>container/heap\<close>: \<open>up\<close> and \<open>down\<close>, over the comparison of the elements.\<close>

function heap_up :: "('a \<Rightarrow> 'a \<Rightarrow> bool) \<Rightarrow> nat \<Rightarrow> 'a list \<Rightarrow> 'a list" where
  "heap_up lt j xs =
     (let i = (j - 1) div 2
      in if i = j \<or> \<not> lt (xs ! j) (xs ! i) then xs
         else heap_up lt i (heap_Swap i j xs))"
  by pat_completeness auto
termination
  by (relation "measure (\<lambda>(lt, j, xs). j)") auto

function heap_down :: "('a \<Rightarrow> 'a \<Rightarrow> bool) \<Rightarrow> nat \<Rightarrow> nat \<Rightarrow> 'a list \<Rightarrow> 'a list" where
  "heap_down lt i n xs =
     (let j1 = 2 * i + 1
      in if n \<le> j1 then xs
         else let j2 = j1 + 1;
                  j = (if j2 < n \<and> lt (xs ! j2) (xs ! j1) then j2 else j1)
              in if \<not> lt (xs ! j) (xs ! i) then xs
                 else heap_down lt j n (heap_Swap i j xs))"
  by pat_completeness auto
termination
  by (relation "measure (\<lambda>(lt, i, n, xs). n - i)") (auto simp: Let_def split: if_splits)

declare heap_up.simps [simp del] heap_down.simps [simp del]

definition heap_Push :: "segmentHeap \<Rightarrow> segment \<Rightarrow> segmentHeap" where
  "heap_Push h x =
     (let h = h_Push h x
      in h\<lparr>h_segments := heap_up seg_less (heap_Len h - 1) (h_segments h)\<rparr>)"

text \<open>\<open>heap.Pop\<close>; on an empty heap the first index is out of range.\<close>

definition heap_Pop :: "segmentHeap \<Rightarrow> (segment \<times> segmentHeap) option" where
  "heap_Pop h =
     (if heap_Len h = 0 then None
      else let n = heap_Len h - 1;
               h = h\<lparr>h_segments := heap_Swap 0 n (h_segments h)\<rparr>;
               h = h\<lparr>h_segments := heap_down seg_less 0 n (h_segments h)\<rparr>
           in Some (h_Pop h))"

section \<open>Heap order on a slice\<close>

definition min_heap :: "('a \<Rightarrow> nat) \<Rightarrow> nat \<Rightarrow> 'a list \<Rightarrow> bool" where
  "min_heap key n xs \<longleftrightarrow> (\<forall>i<n. 0 < i \<longrightarrow> key (xs ! ((i - 1) div 2)) \<le> key (xs ! i))"

text \<open>Heap order but for the edge above \<open>j\<close>, with the grandparent edges around it kept.\<close>

definition min_heap_up :: "('a \<Rightarrow> nat) \<Rightarrow> nat \<Rightarrow> nat \<Rightarrow> 'a list \<Rightarrow> bool" where
  "min_heap_up key j n xs \<longleftrightarrow>
     (\<forall>i<n. 0 < i \<longrightarrow>
        (i \<noteq> j \<longrightarrow> key (xs ! ((i - 1) div 2)) \<le> key (xs ! i)) \<and>
        ((i - 1) div 2 = j \<longrightarrow> 0 < j \<longrightarrow> key (xs ! ((j - 1) div 2)) \<le> key (xs ! i)))"

text \<open>Heap order but for the edges below \<open>j\<close>.\<close>

definition min_heap_down :: "('a \<Rightarrow> nat) \<Rightarrow> nat \<Rightarrow> nat \<Rightarrow> 'a list \<Rightarrow> bool" where
  "min_heap_down key j n xs \<longleftrightarrow>
     (\<forall>i<n. 0 < i \<longrightarrow>
        ((i - 1) div 2 \<noteq> j \<longrightarrow> key (xs ! ((i - 1) div 2)) \<le> key (xs ! i)) \<and>
        ((i - 1) div 2 = j \<longrightarrow> 0 < j \<longrightarrow> key (xs ! ((j - 1) div 2)) \<le> key (xs ! i)))"

lemma heap_Swap_simps:
  "length (heap_Swap i j xs) = length xs"
  "i < length xs \<Longrightarrow> j < length xs \<Longrightarrow> k < length xs \<Longrightarrow>
     heap_Swap i j xs ! k = (if k = j then xs ! i else if k = i then xs ! j else xs ! k)"
  by (auto simp: heap_Swap_def nth_list_update)

lemma mset_heap_Swap: "i < length xs \<Longrightarrow> j < length xs \<Longrightarrow> mset (heap_Swap i j xs) = mset xs"
  by (simp add: heap_Swap_def mset_swap)

lemma min_heap_root:
  assumes "min_heap key n xs" and "i < n"
  shows "key (xs ! 0) \<le> key (xs ! i)"
  using assms(2)
proof (induction i rule: less_induct)
  case (less i)
  show ?case
  proof (cases "i = 0")
    case False
    then have "(i - 1) div 2 < i" by (cases i) auto
    then have "key (xs ! 0) \<le> key (xs ! ((i - 1) div 2))"
      using less by simp
    also have "\<dots> \<le> key (xs ! i)"
      using assms(1) less.prems False by (simp add: min_heap_def)
    finally show ?thesis .
  qed simp
qed

lemma min_heap_take: "min_heap key n xs \<Longrightarrow> n \<le> m \<Longrightarrow> min_heap key n (take m xs)"
  by (auto simp: min_heap_def)

lemma min_heap_key_mono:
  assumes "min_heap key n xs" and "n \<le> length xs"
    and "\<And>x y. x \<in> set xs \<Longrightarrow> y \<in> set xs \<Longrightarrow> key x \<le> key y \<Longrightarrow> key' x \<le> key' y"
  shows "min_heap key' n xs"
  unfolding min_heap_def
proof (intro allI impI)
  fix i
  assume "i < n" "0 < i"
  moreover have "(i - 1) div 2 < n" using \<open>i < n\<close> by linarith
  ultimately show "key' (xs ! ((i - 1) div 2)) \<le> key' (xs ! i)"
    using assms by (simp add: min_heap_def)
qed

section \<open>The heap loops\<close>

text \<open>The child that \<open>down\<close> compares with.\<close>

definition down_child :: "('a \<Rightarrow> 'a \<Rightarrow> bool) \<Rightarrow> nat \<Rightarrow> nat \<Rightarrow> 'a list \<Rightarrow> nat" where
  "down_child lt i n xs =
     (if 2 * i + 2 < n \<and> lt (xs ! (2 * i + 2)) (xs ! (2 * i + 1)) then 2 * i + 2 else 2 * i + 1)"

lemma heap_down_unfold:
  "heap_down lt i n xs =
     (if n \<le> 2 * i + 1 \<or> \<not> lt (xs ! down_child lt i n xs) (xs ! i) then xs
      else heap_down lt (down_child lt i n xs) n (heap_Swap i (down_child lt i n xs) xs))"
  by (subst heap_down.simps) (simp add: Let_def down_child_def)

lemma div_2_parent: "(k - 1) div 2 = i \<Longrightarrow> 0 < k \<Longrightarrow> k = 2 * i + 1 \<or> k = 2 * i + (2::nat)"
  by presburger

lemma mset_heap_up: "j < length xs \<Longrightarrow> mset (heap_up lt j xs) = mset xs"
proof (induction lt j xs rule: heap_up.induct)
  case (1 lt j xs)
  then show ?case
    by (subst heap_up.simps) (auto simp: Let_def mset_heap_Swap heap_Swap_simps)
qed

lemma heap_down_frame:
  "n \<le> length xs \<Longrightarrow>
     mset (heap_down lt i n xs) = mset xs \<and> drop n (heap_down lt i n xs) = drop n xs"
proof (induction "n - i" arbitrary: i xs rule: less_induct)
  case less
  let ?c = "down_child lt i n xs"
  show ?case
  proof (cases "n \<le> 2 * i + 1 \<or> \<not> lt (xs ! ?c) (xs ! i)")
    case True
    then show ?thesis by (subst (1 2) heap_down_unfold) auto
  next
    case False
    then have c: "?c < n" "i < ?c" by (auto simp: down_child_def)
    have "mset (heap_down lt ?c n (heap_Swap i ?c xs)) = mset (heap_Swap i ?c xs) \<and>
        drop n (heap_down lt ?c n (heap_Swap i ?c xs)) = drop n (heap_Swap i ?c xs)"
      using c less.prems by (intro less.hyps) (auto simp: heap_Swap_simps)
    moreover have "drop n (heap_Swap i ?c xs) = drop n xs"
      using c by (simp add: heap_Swap_def)
    moreover have "heap_down lt i n xs = heap_down lt ?c n (heap_Swap i ?c xs)"
      using False by (subst heap_down_unfold) simp
    ultimately show ?thesis
      using mset_heap_Swap[of i xs ?c] c less.prems by simp
  qed
qed

text \<open>
  The contract of the comparison: on the elements in the domain \<open>dm\<close> it is the order of the keys.
\<close>

locale heap_order =
  fixes lt :: "'a \<Rightarrow> 'a \<Rightarrow> bool"
    and key :: "'a \<Rightarrow> nat"
    and dm :: "'a \<Rightarrow> bool"
  assumes lt_key: "dm x \<Longrightarrow> dm y \<Longrightarrow> lt x y \<longleftrightarrow> key x < key y"
begin

lemma heap_up_correct:
  assumes "j < length xs" and "\<forall>x \<in> set xs. dm x" and "min_heap_up key j (length xs) xs"
  shows "min_heap key (length xs) (heap_up lt j xs)"
  using assms
proof (induction j arbitrary: xs rule: less_induct)
  case (less j)
  let ?i = "(j - 1) div 2"
  show ?case
  proof (cases "?i = j \<or> \<not> lt (xs ! j) (xs ! ?i)")
    case True
    have edge: "0 < j \<Longrightarrow> key (xs ! ?i) \<le> key (xs ! j)"
    proof -
      assume "0 < j"
      then have "?i < j" by (cases j) auto
      with True less.prems lt_key[of "xs ! j" "xs ! ?i"] show ?thesis
        by auto
    qed
    have "min_heap key (length xs) xs"
      using less.prems(3) edge unfolding min_heap_def min_heap_up_def by metis
    with True show ?thesis
      by (subst heap_up.simps) (simp add: Let_def)
  next
    case False
    then have j: "0 < j" "?i < j" "?i < length xs"
      using less.prems(1) by (cases j; auto)+
    let ?ys = "heap_Swap ?i j xs"
    have len: "length ?ys = length xs" and dm: "\<forall>x \<in> set ?ys. dm x"
      using less.prems(1,2) j(3) mset_heap_Swap[of ?i xs j] by (auto simp: heap_Swap_simps dest: mset_eq_setD)
    have nth: "\<And>k. k < length xs \<Longrightarrow> ?ys ! k = (if k = j then xs ! ?i else if k = ?i then xs ! j else xs ! k)"
      using less.prems(1) j(3) by (simp add: heap_Swap_simps)
    have lt: "key (xs ! j) < key (xs ! ?i)"
      using False less.prems(1,2) j(3) lt_key[of "xs ! j" "xs ! ?i"] by simp
    have up: "min_heap_up key ?i (length ?ys) ?ys"
      unfolding min_heap_up_def len
    proof (intro allI impI conjI)
      fix k :: nat
      let ?p = "(k - 1) div 2"
      assume k: "k < length xs" "0 < k"
      have p: "?p < k" "?p < length xs" using k by auto
      note inv = less.prems(3)[unfolded min_heap_up_def, rule_format, OF k]
      have first: "k \<noteq> j \<Longrightarrow> key (xs ! ?p) \<le> key (xs ! k)"
        and second: "?p = j \<Longrightarrow> key (xs ! ?i) \<le> key (xs ! k)"
        using inv j by auto
      { assume ki: "k \<noteq> ?i"
        consider "k = j" | "k \<noteq> j" "?p = j" | "k \<noteq> j" "?p = ?i" "?p \<noteq> j"
          | "k \<noteq> j" "?p \<noteq> j" "?p \<noteq> ?i" by blast
        then show "key (?ys ! ?p) \<le> key (?ys ! k)"
        proof cases
          case 1 then show ?thesis using lt j nth[OF k(1)] nth[OF j(3)] by simp
        next
          case 2 then show ?thesis using second nth[OF k(1)] nth[OF p(2)] ki by simp
        next
          case 3 then show ?thesis using first lt nth[OF k(1)] nth[OF p(2)] ki by simp
        next
          case 4 then show ?thesis using first nth[OF k(1)] nth[OF p(2)] ki by simp
        qed }
      { assume pi: "?p = ?i" and i0: "0 < ?i"
        let ?g = "(?i - 1) div 2"
        have g: "?g < ?i" using i0 by linarith
        then have gx: "?ys ! ?g = xs ! ?g" using j nth[of ?g] by simp
        have gi: "key (xs ! ?g) \<le> key (xs ! ?i)"
          using less.prems(3)[unfolded min_heap_up_def, rule_format, OF j(3) i0] j by simp
        show "key (?ys ! ?g) \<le> key (?ys ! k)"
        proof (cases "k = j")
          case True
          then show ?thesis using gx gi nth[OF k(1)] by simp
        next
          case False
          have "k \<noteq> ?i" using pi p(1) by simp
          with False show ?thesis using gx gi first pi nth[OF k(1)] by simp
        qed }
    qed
    have "min_heap key (length ?ys) (heap_up lt ?i ?ys)"
      by (rule less.IH) (use j len dm up in auto)
    with False len show ?thesis
      by (subst heap_up.simps) (simp add: Let_def)
  qed
qed

lemma heap_down_correct:
  assumes "n \<le> length xs" and "\<forall>x \<in> set xs. dm x" and "min_heap_down key i n xs"
  shows "min_heap key n (heap_down lt i n xs)"
  using assms
proof (induction "n - i" arbitrary: i xs rule: less_induct)
  case less
  let ?c = "down_child lt i n xs"
  show ?case
  proof (cases "n \<le> 2 * i + 1")
    case True
    then have "\<And>k. k < n \<Longrightarrow> 0 < k \<Longrightarrow> (k - 1) div 2 \<noteq> i" by auto
    then have "min_heap key n xs"
      using less.prems(3) by (simp add: min_heap_def min_heap_down_def)
    with True show ?thesis by (subst heap_down_unfold) simp
  next
    case False
    have c: "?c < n" "i < ?c" "(?c - 1) div 2 = i" "0 < ?c"
      using False by (auto simp: down_child_def)
    have in_dm: "\<And>k. k < n \<Longrightarrow> dm (xs ! k)"
      using less.prems(1,2) by (meson less_le_trans nth_mem)
    have cmin: "key (xs ! ?c) \<le> key (xs ! k)" if "k < n" "0 < k" "(k - 1) div 2 = i" for k
    proof -
      have "k = 2 * i + 1 \<or> k = 2 * i + 2" using div_2_parent[OF that(3,2)] .
      moreover have "2 * i + 2 < n \<Longrightarrow>
          lt (xs ! (2 * i + 2)) (xs ! (2 * i + 1)) \<longleftrightarrow> key (xs ! (2 * i + 2)) < key (xs ! (2 * i + 1))"
        using in_dm lt_key by simp
      ultimately show ?thesis using that(1) by (auto simp: down_child_def)
    qed
    show ?thesis
    proof (cases "lt (xs ! ?c) (xs ! i)")
      case False
      with c in_dm have "key (xs ! i) \<le> key (xs ! ?c)"
        using lt_key[of "xs ! ?c" "xs ! i"] by simp
      then have "min_heap key n xs"
        using less.prems(3) cmin unfolding min_heap_def min_heap_down_def
        by (metis (no_types) order_trans)
      with False show ?thesis by (subst heap_down_unfold) simp
    next
      case True
      let ?ys = "heap_Swap i ?c xs"
      have small: "key (xs ! ?c) < key (xs ! i)"
        using True c in_dm lt_key[of "xs ! ?c" "xs ! i"] by simp
      have nth: "\<And>k. k < n \<Longrightarrow> ?ys ! k = (if k = ?c then xs ! i else if k = i then xs ! ?c else xs ! k)"
        using c less.prems(1) by (simp add: heap_Swap_simps)
      have dm: "\<forall>x \<in> set ?ys. dm x"
        using mset_heap_Swap[of i xs ?c] c less.prems(1,2) by (auto dest: mset_eq_setD)
      have down: "min_heap_down key ?c n ?ys"
        unfolding min_heap_down_def
      proof (intro allI impI conjI)
        fix k :: nat
        let ?p = "(k - 1) div 2"
        assume k: "k < n" "0 < k"
        have p: "?p < k" "?p < n" using k by auto
        note inv = less.prems(3)[unfolded min_heap_down_def, rule_format]
        { assume pc: "?p \<noteq> ?c"
          consider "?p = i" "k = ?c" | "?p = i" "k \<noteq> ?c" | "?p \<noteq> i" "k = i" | "?p \<noteq> i" "k \<noteq> i" "k \<noteq> ?c"
            using c(3) by blast
          then show "key (?ys ! ?p) \<le> key (?ys ! k)"
          proof cases
            case 1 then show ?thesis using small pc nth[OF k(1)] nth[OF p(2)] by simp
          next
            case 2 then show ?thesis using cmin[OF k] p(1) pc nth[OF k(1)] nth[OF p(2)] by simp
          next
            case 3
            then have "key (xs ! ?p) \<le> key (xs ! ?c)"
              using inv[OF c(1,4)] c(3) k(2) by simp
            then show ?thesis using 3 c(2) pc nth[OF k(1)] nth[OF p(2)] by simp
          next
            case 4 then show ?thesis using inv[OF k] pc nth[OF k(1)] nth[OF p(2)] by simp
          qed }
        { assume pc: "?p = ?c"
          have "key (xs ! ?c) \<le> key (xs ! k)" using inv[OF k] pc c(2) by simp
          then show "key (?ys ! ((?c - 1) div 2)) \<le> key (?ys ! k)"
            using c p(1) pc nth[OF k(1)] nth[of i] by simp }
      qed
      have "min_heap key n (heap_down lt ?c n ?ys)"
        by (rule less.hyps) (use c less.prems(1) dm down in \<open>auto simp: heap_Swap_simps\<close>)
      with True False show ?thesis by (subst heap_down_unfold) simp
    qed
  qed
qed

end

section \<open>The segment heap as a priority queue\<close>

text \<open>
  The interface of the receive buffer: \<open>items\<close> is what the buffer holds, \<open>ok\<close> its invariant,
  \<open>within\<close> the elements that may be pushed, \<open>key\<close> their rank. \<open>Pop\<close> yields an element of
  least rank, and pushing it back restores the buffer's contents.
\<close>

locale priority_queue =
  fixes items :: "'q \<Rightarrow> 'a multiset"
    and ok :: "'q \<Rightarrow> bool"
    and within :: "'a \<Rightarrow> bool"
    and key :: "'a \<Rightarrow> nat"
    and push :: "'q \<Rightarrow> 'a \<Rightarrow> 'q"
    and pop :: "'q \<Rightarrow> ('a \<times> 'q) option"
  assumes pop_None: "ok q \<Longrightarrow> pop q = None \<longleftrightarrow> items q = {#}"
    and pop_Some: "ok q \<Longrightarrow> pop q = Some (x, q') \<Longrightarrow>
           ok q' \<and> items q = add_mset x (items q') \<and> (\<forall>y \<in># items q. key x \<le> key y)"
    and push_ok: "ok q \<Longrightarrow> within x \<Longrightarrow> key x \<notin> key ` set_mset (items q) \<Longrightarrow>
           ok (push q x) \<and> items (push q x) = add_mset x (items q)"
    and items_within: "ok q \<Longrightarrow> x \<in># items q \<Longrightarrow> within x"
    and items_distinct: "ok q \<Longrightarrow> items q = add_mset x m \<Longrightarrow> key x \<notin> key ` set_mset m"
begin

lemma pop_nonempty: "ok q \<Longrightarrow> items q \<noteq> {#} \<Longrightarrow> \<exists>x q'. pop q = Some (x, q')"
  using pop_None by (metis not_None_eq surj_pair)

lemma pop_push_back:
  assumes "ok q" and "pop q = Some (x, q')"
  shows "ok (push q' x)" and "items (push q' x) = items q"
proof -
  have q': "ok q'" "items q = add_mset x (items q')"
    using pop_Some[OF assms] by auto
  have "within x"
    using items_within[OF assms(1), of x] q'(2) by simp
  moreover have "key x \<notin> key ` set_mset (items q')"
    using items_distinct[OF assms(1) q'(2)] .
  ultimately show "ok (push q' x)" and "items (push q' x) = items q"
    using push_ok[OF q'(1)] q'(2) by auto
qed

lemma pop_is_least:
  assumes "ok q" and "pop q = Some (x, q')" and "y \<in># items q'"
  shows "key x < key y"
proof -
  have "items q = add_mset x (items q')" "\<forall>y \<in># items q. key x \<le> key y"
    using pop_Some[OF assms(1,2)] by auto
  then show ?thesis
    using items_distinct[OF assms(1)] assms(3)
    by (metis image_eqI insert_iff nat_less_le set_mset_add_mset_insert)
qed

end

definition heap_items :: "segmentHeap \<Rightarrow> segment multiset" where
  "heap_items h = mset (h_segments h)"

text \<open>The invariant of the heap above the base \<open>b\<close>.\<close>

definition heap_inv :: "u32 \<Rightarrow> segmentHeap \<Rightarrow> bool" where
  "heap_inv b h \<longleftrightarrow>
     (\<forall>s \<in> set (h_segments h). sn_off b (sg_sn s) < 2 ^ 31)
     \<and> distinct (map sg_sn (h_segments h))
     \<and> h_marks h = sg_sn ` set (h_segments h)
     \<and> min_heap (\<lambda>s. sn_off b (sg_sn s)) (length (h_segments h)) (h_segments h)"

lemma heap_inv_New [simp]: "heap_inv b newSegmentHeap"
  by (simp add: heap_inv_def newSegmentHeap_def min_heap_def)

lemma heap_items_New [queue_simps]: "heap_items newSegmentHeap = {#}"
  by (simp add: heap_items_def newSegmentHeap_def)

lemma heap_Len_items [queue_simps]: "heap_Len h = size (heap_items h)"
  by (simp add: heap_Len_def heap_items_def)

lemma heap_Has_iff: "heap_inv b h \<Longrightarrow> heap_Has h sn \<longleftrightarrow> sn \<in> sg_sn ` set_mset (heap_items h)"
  by (simp add: heap_inv_def heap_Has_def heap_items_def)

text \<open>Inside the window, \<open>Less\<close> is the order of the distances from the base.\<close>

interpretation seg_order: heap_order seg_less "\<lambda>s. sn_off b (sg_sn s)"
    "\<lambda>s. sn_off b (sg_sn s) < 2 ^ 31" for b
proof unfold_locales
  fix x y :: segment
  assume "sn_off b (sg_sn x) < 2 ^ 31" and "sn_off b (sg_sn y) < 2 ^ 31"
  then show "seg_less x y \<longleftrightarrow> sn_off b (sg_sn x) < sn_off b (sg_sn y)"
    using itimediff_off[of b "sg_sn y" "sg_sn x"] by (simp add: seg_less_def)
qed

text \<open>The parts of the invariant that depend only on what the heap holds.\<close>

lemma heap_inv_items:
  "heap_inv b h \<longleftrightarrow>
     (\<forall>s \<in># heap_items h. sn_off b (sg_sn s) < 2 ^ 31)
     \<and> distinct (map sg_sn (h_segments h))
     \<and> h_marks h = sg_sn ` set_mset (heap_items h)
     \<and> min_heap (\<lambda>s. sn_off b (sg_sn s)) (length (h_segments h)) (h_segments h)"
  by (simp add: heap_inv_def heap_items_def)

lemma distinct_map_mset: "mset xs = mset ys \<Longrightarrow> distinct (map f xs) \<longleftrightarrow> distinct (map f ys)"
  by (rule mset_eq_imp_distinct_iff) (metis mset_map)

lemma heap_Push_correct:
  assumes "heap_inv b h" and "sn_off b (sg_sn x) < 2 ^ 31"
    and "sg_sn x \<notin> sg_sn ` set_mset (heap_items h)"
  shows "heap_inv b (heap_Push h x)" and "heap_items (heap_Push h x) = add_mset x (heap_items h)"
proof -
  let ?key = "\<lambda>s. sn_off b (sg_sn s)" and ?xs = "h_segments h @ [x]"
  let ?n = "length (h_segments h)"
  let ?ys = "heap_up seg_less ?n ?xs"
  have push: "heap_Push h x = \<lparr>h_segments = ?ys, h_marks = insert (sg_sn x) (h_marks h)\<rparr>"
    by (simp add: heap_Push_def h_Push_def heap_Len_def)
  have ms: "mset ?ys = mset ?xs" by (rule mset_heap_up) simp
  then have len: "length ?ys = Suc ?n" by (metis length_append_singleton mset_eq_length)
  have dm: "\<forall>s \<in> set ?xs. ?key s < 2 ^ 31"
    using assms(1,2) by (auto simp: heap_inv_def)
  have "(?n - 1) div 2 \<noteq> ?n \<or> ?n = 0" by linarith
  then have "min_heap_up ?key ?n (length ?xs) ?xs"
    using assms(1) unfolding heap_inv_def min_heap_up_def min_heap_def
    by (auto simp: nth_append less_Suc_eq)
  then have "min_heap ?key (length ?xs) ?ys"
    by (intro seg_order.heap_up_correct dm) simp_all
  then have mh: "min_heap ?key (length ?ys) ?ys" using len by simp
  show items: "heap_items (heap_Push h x) = add_mset x (heap_items h)"
    using ms by (simp add: push heap_items_def)
  have "distinct (map sg_sn ?ys)"
    using distinct_map_mset[OF ms, of sg_sn] assms(1,3) by (auto simp: heap_inv_def heap_items_def)
  then show "heap_inv b (heap_Push h x)"
    unfolding heap_inv_items items using assms mh by (auto simp: push heap_inv_items)
qed

lemma heap_Pop_correct:
  assumes "heap_inv b h" and "heap_Pop h = Some (x, h')"
  shows "heap_inv b h'" and "heap_items h = add_mset x (heap_items h')"
    and "\<forall>y \<in># heap_items h. sn_off b (sg_sn x) \<le> sn_off b (sg_sn y)"
proof -
  let ?key = "\<lambda>s. sn_off b (sg_sn s)" and ?xs = "h_segments h"
  let ?n = "length ?xs - 1"
  let ?ys = "heap_Swap 0 ?n ?xs"
  let ?zs = "heap_down seg_less 0 ?n ?ys"
  have ne: "?xs \<noteq> []" using assms(2) by (auto simp: heap_Pop_def heap_Len_def split: if_splits)
  then have n: "?n < length ?xs" "0 < length ?xs" by auto
  have ylen: "length ?ys = length ?xs" by (simp add: heap_Swap_simps)
  have yms: "mset ?ys = mset ?xs" using n by (simp add: mset_heap_Swap)
  have zms: "mset ?zs = mset ?xs" and zdrop: "drop ?n ?zs = drop ?n ?ys"
    using heap_down_frame[of ?n ?ys seg_less 0] ylen yms by auto
  have zlen: "length ?zs = length ?xs" using zms by (metis size_mset)
  have x: "x = ?zs ! ?n" and h': "h' = \<lparr>h_segments = take ?n ?zs, h_marks = h_marks h - {sg_sn x}\<rparr>"
    using assms(2) zlen by (auto simp: heap_Pop_def h_Pop_def heap_Len_def Let_def split: if_splits)
  have zsplit: "?zs = take ?n ?zs @ [x]"
    using zlen n x by (metis Suc_diff_1 less_or_eq_imp_le take_Suc_conv_app_nth take_all_iff)
  have xeq: "x = ?xs ! 0"
  proof -
    have "?zs ! ?n = ?ys ! ?n"
      using zdrop zlen ylen n by (metis Cons_nth_drop_Suc list.inject)
    then show ?thesis using x n by (simp add: heap_Swap_simps)
  qed
  show items: "heap_items h = add_mset x (heap_items h')"
  proof -
    have "mset ?xs = mset (take ?n ?zs @ [x])" using zms zsplit by metis
    then show ?thesis by (simp add: heap_items_def h')
  qed
  show "\<forall>y \<in># heap_items h. ?key x \<le> ?key y"
    using min_heap_root[of ?key "length ?xs" ?xs] assms(1) xeq
    by (auto simp: heap_items_def heap_inv_def in_set_conv_nth)
  have "min_heap_down ?key 0 ?n ?ys"
    using assms(1) n unfolding heap_inv_def min_heap_down_def min_heap_def
    by (auto simp: heap_Swap_simps)
  moreover have "\<forall>s \<in> set ?ys. ?key s < 2 ^ 31"
    using assms(1) yms by (auto simp: heap_inv_def dest: mset_eq_setD)
  ultimately have "min_heap ?key ?n ?zs"
    by (intro seg_order.heap_down_correct) (simp_all add: heap_Swap_simps)
  then have mh: "min_heap ?key (length (h_segments h')) (h_segments h')"
    using zlen by (simp add: h' min_heap_take)
  have "distinct (map sg_sn (take ?n ?zs @ [x]))"
    using distinct_map_mset[OF zms, of sg_sn] assms(1) zsplit by (simp add: heap_inv_def)
  then have dist: "distinct (map sg_sn (h_segments h'))" "sg_sn x \<notin> sg_sn ` set (h_segments h')"
    by (auto simp: h')
  moreover have "h_marks h' = sg_sn ` set_mset (heap_items h')"
  proof -
    have "h_marks h = insert (sg_sn x) (sg_sn ` set_mset (heap_items h'))"
      using assms(1) items by (simp add: heap_inv_items)
    then show ?thesis using dist(2) by (auto simp: h' heap_items_def)
  qed
  ultimately show "heap_inv b h'"
    using assms(1) items mh by (simp add: heap_inv_items)
qed

interpretation seg_pq: priority_queue heap_items "heap_inv b" "\<lambda>s. sn_off b (sg_sn s) < 2 ^ 31"
    "\<lambda>s. sn_off b (sg_sn s)" heap_Push heap_Pop for b
proof unfold_locales
  fix q q' and x :: segment
  assume q: "heap_inv b q"
  show "heap_Pop q = None \<longleftrightarrow> heap_items q = {#}"
    by (auto simp: heap_Pop_def heap_Len_items Let_def)
  { assume "heap_Pop q = Some (x, q')"
    then show "heap_inv b q' \<and> heap_items q = add_mset x (heap_items q')
        \<and> (\<forall>y \<in># heap_items q. sn_off b (sg_sn x) \<le> sn_off b (sg_sn y))"
      using heap_Pop_correct[OF q] by blast }
  { assume w: "sn_off b (sg_sn x) < 2 ^ 31"
      and k: "sn_off b (sg_sn x) \<notin> (\<lambda>s. sn_off b (sg_sn s)) ` set_mset (heap_items q)"
    from k have "sg_sn x \<notin> sg_sn ` set_mset (heap_items q)" by force
    with q w show "heap_inv b (heap_Push q x) \<and> heap_items (heap_Push q x) = add_mset x (heap_items q)"
      using heap_Push_correct by blast }
  { assume "x \<in># heap_items q"
    with q show "sn_off b (sg_sn x) < 2 ^ 31" by (simp add: heap_inv_items) }
  fix m
  assume m: "heap_items q = add_mset x m"
  obtain ys where ys: "mset ys = m" by (metis ex_mset)
  have "distinct (map sg_sn (x # ys))"
    using q m ys distinct_map_mset[of "x # ys" "h_segments q" sg_sn]
    by (simp add: heap_inv_def heap_items_def)
  then have "sg_sn x \<notin> sg_sn ` set_mset m" using ys by auto
  then show "sn_off b (sg_sn x) \<notin> (\<lambda>s. sn_off b (sg_sn s)) ` set_mset m"
    by (auto dest: sn_off_inj)
qed

end
