(* ===== verification/Buffer_Properties.thy ===== *)
theory Buffer_Properties
  imports Ring_Buffer Segment_Heap
begin

text \<open>
  The properties of the containers and the codec: the ring buffer is a FIFO queue that survives
  growth and wrap-around, its loops visit exactly its contents, the out-of-order buffer is a
  priority queue, and the words and headers on the wire are read back as written.
\<close>

section \<open>Ring buffer\<close>

text \<open>
  C20: the ring buffer is a FIFO queue. After any pushes, through growth and wrap-around, the
  element popped after \<open>n\<close> pops is the \<open>n\<close>-th of what was in the queue followed by what was
  pushed.
\<close>

theorem ring_fifo:
  assumes "rb_inv r" and "n < length (rb_list r) + length xs"
  shows "fst (rb_Pop z (((\<lambda>q. snd (rb_Pop z q)) ^^ n) (fold (rb_Push z) xs r))) = Some ((rb_list r @ xs) ! n)"
  by (rule rbq.deq_after_enq[OF assms])

theorem ring_fifo_witness:
  "fst (rb_Pop 0 (((\<lambda>q. snd (rb_Pop 0 q)) ^^ 9) (fold (rb_Push 0) [1..12] (NewRingBuffer (0::int) 3)))) = Some 10"
proof -
  have xs: "[1..12] = [1::int, 2, 3, 4, 5, 6, 7, 8, 9, 10, 11, 12]" by code_simp
  have "fst (rb_Pop 0 (((\<lambda>q. snd (rb_Pop 0 q)) ^^ 9) (fold (rb_Push 0) [1..12] (NewRingBuffer (0::int) 3))))
      = Some ((rb_list (NewRingBuffer (0::int) 3) @ [1..12]) ! 9)"
    by (rule ring_fifo) (simp_all add: xs rb_list_New)
  then show ?thesis by (simp add: xs rb_list_New)
qed

text \<open>
  Growing a full ring buffer keeps its elements and their order and makes room.
\<close>

theorem ring_grow:
  assumes "rb_inv r" and "rb_IsFull r"
  shows "rb_list (rb_grow z r) = rb_list r \<and> \<not> rb_IsFull (rb_grow z r) \<and> rb_inv (rb_grow z r)
    \<and> rb_MaxLen r < rb_MaxLen (rb_grow z r)"
proof -
  have full: "length (rb_list r) = rb_MaxLen r" using rb_IsFull_iff assms by blast
  have g: "rb_inv (rb_grow z r)" "rb_list (rb_grow z r) = rb_list r" "\<not> rb_IsFull (rb_grow z r)"
    using rb_grow_correct[OF assms] by simp_all
  then have "length (rb_list r) < rb_MaxLen (rb_grow z r)"
    using rb_IsFull_iff[OF g(1)] rb_length_le_MaxLen[OF g(1)] by simp
  with g full show ?thesis by simp
qed

theorem ring_grow_witness:
  "rb_list (rb_grow 0 \<lparr>rb_head = 5, rb_tail = 4, rb_elements = [10, 11, 12, 13, 0, 15, 16, 17::int]\<rparr>)
     = [15, 16, 17, 10, 11, 12, 13]"
proof -
  let ?r = "\<lparr>rb_head = 5, rb_tail = 4, rb_elements = [10, 11, 12, 13, 0, 15, 16, 17::int]\<rparr>"
  have r: "rb_inv ?r" "rb_IsFull ?r" by (simp_all add: rb_inv_def rb_consts rb_IsFull_def)
  have "rb_list (rb_grow 0 ?r) = rb_list ?r" using ring_grow[OF r, of 0] by blast
  then show ?thesis by (simp add: rb_list_def)
qed

text \<open>
  \<open>ForEach\<close> visits the contents in order, passes the closed-over variables along, stores
  the updates in place and stops when the body says so, whether or not the contents wrap around.
\<close>

theorem ring_for_each:
  assumes "rb_inv r"
  shows "rb_list (fst (rb_ForEach fn r s)) = fst (snd (list_each fn (rb_list r) s))
    \<and> snd (rb_ForEach fn r s) = snd (snd (list_each fn (rb_list r) s)) \<and> rb_inv (fst (rb_ForEach fn r s))"
  by (intro conjI rb_ForEach_correct[OF assms])

theorem ring_for_each_witness:
  "snd (rb_ForEach (\<lambda>x s. (x < 3, x, s + x)) \<lparr>rb_head = 6, rb_tail = 2, rb_elements = [3, 4, 0, 0, 0, 0, 1, 2]\<rparr> (0::nat)) = 6"
  using ring_for_each[of "\<lparr>rb_head = 6, rb_tail = 2, rb_elements = [3, 4, 0, 0, 0, 0, 1, 2::nat]\<rparr>"
      "\<lambda>x s. (x < 3, x, s + x)" 0]
  by (simp add: rb_inv_def rb_consts rb_list_def)

text \<open>
  \<open>ForEachReverse\<close> visits the contents from the last to the first.
\<close>

theorem ring_for_each_reverse:
  assumes "rb_inv r"
  shows "rb_list (fst (rb_ForEachReverse fn r s)) = rev (fst (snd (list_each fn (rev (rb_list r)) s)))
    \<and> snd (rb_ForEachReverse fn r s) = snd (snd (list_each fn (rev (rb_list r)) s))
    \<and> rb_inv (fst (rb_ForEachReverse fn r s))"
  by (intro conjI rb_ForEachReverse_correct[OF assms])

theorem ring_for_each_reverse_witness:
  "snd (rb_ForEachReverse (\<lambda>x s. (True, x, s @ [x])) \<lparr>rb_head = 6, rb_tail = 2, rb_elements = [3, 4, 0, 0, 0, 0, 1, 2]\<rparr> [])
    = [4, 3, 2, 1::nat]"
  using ring_for_each_reverse[of "\<lparr>rb_head = 6, rb_tail = 2, rb_elements = [3, 4, 0, 0, 0, 0, 1, 2::nat]\<rparr>"
      "\<lambda>x s. (True, x, s @ [x])" "[]"]
  by (simp add: rb_inv_def rb_consts rb_list_def)

text \<open>
  \<open>Discard n\<close> drops the first \<open>n\<close> elements, or all of them if there are fewer, and
  returns how many it dropped.
\<close>

theorem ring_discard:
  assumes "rb_inv r" and "0 \<le> n"
  shows "rb_list (snd (rb_Discard z n r)) = drop (nat n) (rb_list r)
    \<and> fst (rb_Discard z n r) = int (length (take (nat n) (rb_list r))) \<and> rb_inv (snd (rb_Discard z n r))"
  using rb_Discard_correct[OF assms(1), of z n] assms(2) by (auto simp: min_def)

theorem ring_discard_witness:
  "fst (rb_Discard (0::nat) 3 \<lparr>rb_head = 6, rb_tail = 2, rb_elements = [3, 4, 0, 0, 0, 0, 1, 2]\<rparr>) = 3"
  using ring_discard[of "\<lparr>rb_head = 6, rb_tail = 2, rb_elements = [3, 4, 0, 0, 0, 0, 1, 2::nat]\<rparr>" 3 0]
  by (simp add: rb_inv_def rb_consts rb_list_def)

section \<open>Out-of-order buffer\<close>

text \<open>
  Popping the out-of-order buffer yields the segment nearest above the base, by distance
  around the 32-bit circle, and leaves exactly the others.
\<close>

theorem heap_pop_nearest:
  assumes "heap_inv b h" and "heap_items h \<noteq> {#}"
  shows "\<exists>x h'. heap_Pop h = Some (x, h') \<and> heap_inv b h' \<and> heap_items h = add_mset x (heap_items h')
    \<and> (\<forall>y \<in># heap_items h'. sn_off b (sg_sn x) < sn_off b (sg_sn y))"
proof -
  obtain x h' where x: "heap_Pop h = Some (x, h')" using seg_pq.pop_nonempty[OF assms] by blast
  then show ?thesis
    using heap_Pop_correct(1,2)[OF assms(1) x] seg_pq.pop_is_least[OF assms(1) x] by blast
qed

theorem heap_pop_nearest_witness:
  "\<exists>x h'. heap_Pop (heap_Push (heap_Push newSegmentHeap (zero_seg\<lparr>sg_sn := 3\<rparr>)) (zero_seg\<lparr>sg_sn := - 2\<rparr>)) = Some (x, h')
     \<and> sg_sn x = - 2"
proof -
  let ?a = "zero_seg\<lparr>sg_sn := 3\<rparr>" and ?b = "zero_seg\<lparr>sg_sn := - 2\<rparr>"
  let ?h1 = "heap_Push newSegmentHeap ?a" and ?h = "heap_Push (heap_Push newSegmentHeap ?a) ?b"
  have off: "sn_off (- 5) 3 = 8" "sn_off (- 5) (- 2) = 3" by (simp_all add: sn_off_def)
  have h1: "heap_inv (- 5) ?h1" "heap_items ?h1 = {#?a#}"
    using heap_Push_correct[of "- 5" newSegmentHeap ?a] off by (simp_all add: heap_items_New)
  have h: "heap_inv (- 5) ?h" "heap_items ?h = {#?b, ?a#}"
    using heap_Push_correct[OF h1(1), of ?b] off h1(2) by simp_all
  obtain x h' where x: "heap_Pop ?h = Some (x, h')" "heap_items ?h = add_mset x (heap_items h')"
      "\<forall>y \<in># heap_items h'. sn_off (- 5) (sg_sn x) < sn_off (- 5) (sg_sn y)"
    using heap_pop_nearest[OF h(1)] h(2) by auto
  have "x = ?b \<and> heap_items h' = {#?a#} \<or> x = ?a \<and> heap_items h' = {#?b#}"
    using x(2) h(2) by (auto simp: add_eq_conv_ex)
  then have "sg_sn x = - 2" using x(3) off by auto
  then show ?thesis using x(1) by blast
qed

text \<open>
  Pushing a segment of the window whose number is not there adds exactly that segment, and
  membership by sequence number follows the contents.
\<close>

theorem heap_push_adds:
  assumes "heap_inv b h" and "sn_off b (sg_sn x) < 2 ^ 31" and "\<not> heap_Has h (sg_sn x)"
  shows "heap_inv b (heap_Push h x) \<and> heap_items (heap_Push h x) = add_mset x (heap_items h)
    \<and> (\<forall>sn. heap_Has (heap_Push h x) sn = (sn = sg_sn x \<or> heap_Has h sn))"
proof -
  have new: "sg_sn x \<notin> sg_sn ` set_mset (heap_items h)" using heap_Has_iff[OF assms(1)] assms(3) by blast
  note push = heap_Push_correct[OF assms(1,2) new]
  then show ?thesis using heap_Has_iff[OF push(1)] heap_Has_iff[OF assms(1)] by auto
qed

theorem heap_push_adds_witness:
  "heap_Has (heap_Push newSegmentHeap (zero_seg\<lparr>sg_sn := 7\<rparr>)) 7
    \<and> \<not> heap_Has (heap_Push newSegmentHeap (zero_seg\<lparr>sg_sn := 7\<rparr>)) 8"
proof -
  have "\<not> heap_Has newSegmentHeap sn" for sn by (simp add: heap_Has_def newSegmentHeap_def)
  then show ?thesis
    using heap_push_adds[of 5 newSegmentHeap "zero_seg\<lparr>sg_sn := 7\<rparr>"] by (simp add: sn_off_def)
qed

section \<open>Wire\<close>

text \<open>
  \<open>Decode32U\<close> reads back what \<open>Encode32U\<close> wrote at an offset that fits, and writing
  touches no other byte; where it does not fit, nothing is written and the read reports failure.
\<close>

theorem encode32_decode32:
  "if i + 4 \<le> length data
   then Decode32U (Encode32U data i v) i = (v, True) \<and> length (Encode32U data i v) = length data
      \<and> take i (Encode32U data i v) = take i data \<and> drop (i + 4) (Encode32U data i v) = drop (i + 4) data
   else Encode32U data i v = data \<and> snd (Decode32U data i) = False"
  by (simp add: Decode_Encode32U) (simp add: Encode32U_def Decode32U_def)

text \<open>
  The header parsers accept exactly the bytes of the declared headers and give back the
  header whose byte it is.
\<close>

theorem headers_parse:
  "(snd (ParseReliable b) \<longleftrightarrow> (\<exists>h. b = reliable_byte h))
   \<and> (snd (ParseUnreliable b) \<longleftrightarrow> (\<exists>h. b = unreliable_byte h))
   \<and> ParseReliable (reliable_byte h) = (h, True) \<and> ParseUnreliable (unreliable_byte u) = (u, True)"
  using ParseReliable_valid[of b] ParseUnreliable_valid[of b] by (metis ParseReliable_byte ParseUnreliable_byte snd_conv)

end
