(* ===== verification/Kcp_State.thy ===== *)
theory Kcp_State
  imports Ring_Buffer Segment_Heap
begin

text \<open>
  The state of one KCP connection (\<open>type KCP struct\<close> of \<open>kcp.go\<close>), its constructor and its
  configuration calls. Three things of the struct are effects and are made explicit:

  \<^item> the output callback is the list \<open>k_output\<close> of the datagrams handed to it, in order;
  \<^item> the scratch buffer of \<open>flush\<close> is its length \<open>k_buffer\<close>: every byte of it that is sent
    was written in the same flush;
  \<^item> a reading of the clock, \<open>currentMs()\<close>, is the next value of a clock \<open>clk\<close>, a
    parameter of every operation that reads it; \<open>k_reads\<close> counts the readings, so that two
    readings within one call may differ, as they may in the program.

  The \<open>sync.Pool\<close> of byte slices only recycles memory: a slice got from it is sliced to the
  size needed (a panic if that exceeds its capacity \<open>mtu\<close>) and overwritten in full. The
  signed 32-bit fields are words, read by \<open>sint\<close>.
\<close>

section \<open>The code\<close>

record ackItem =
  ack_sn :: u32
  ack_ts :: u32

record KCP =
  k_conv :: u32
  k_mtu :: u32
  k_mss :: u32
  k_state :: u32
  k_snd_una :: u32
  k_snd_nxt :: u32
  k_rcv_nxt :: u32
  k_ssthresh :: u32
  k_rx_rttvar :: i32
  k_rx_srtt :: i32
  k_rx_rto :: u32
  k_rx_minrto :: u32
  k_snd_wnd :: u32
  k_rcv_wnd :: u32
  k_rmt_wnd :: u32
  k_cwnd :: u32
  k_probe :: u32
  k_interval :: u32
  k_ts_flush :: u32
  k_nodelay :: u32
  k_updated :: u32
  k_ts_probe :: u32
  k_probe_wait :: u32
  k_dead_link :: u32
  k_incr :: u32
  k_fastresend :: i32
  k_nocwnd :: i32
  k_stream :: i32
  k_snd_queue :: "segment RingBuffer"
  k_rcv_queue :: "segment RingBuffer"
  k_snd_buf :: "segment RingBuffer"
  k_rcv_buf :: segmentHeap
  k_acklist :: "ackItem list"
  k_buffer :: nat
  k_output :: "bytes list"
  k_reads :: nat

type_synonym clock = "nat \<Rightarrow> u32"

definition currentMs :: "clock \<Rightarrow> KCP \<Rightarrow> u32 \<times> KCP" where
  "currentMs clk k = (clk (k_reads k), k\<lparr>k_reads := k_reads k + 1\<rparr>)"

definition NewKCP :: "u32 \<Rightarrow> KCP" where
  "NewKCP conv =
     \<lparr>k_conv = conv, k_mtu = IKCP_MTU_DEF, k_mss = IKCP_MTU_DEF - IKCP_OVERHEAD, k_state = 0,
      k_snd_una = 0, k_snd_nxt = 0, k_rcv_nxt = 0, k_ssthresh = IKCP_THRESH_INIT,
      k_rx_rttvar = 0, k_rx_srtt = 0, k_rx_rto = IKCP_RTO_DEF, k_rx_minrto = IKCP_RTO_MIN,
      k_snd_wnd = IKCP_WND_SND, k_rcv_wnd = IKCP_WND_RCV, k_rmt_wnd = IKCP_WND_RCV,
      k_cwnd = 0, k_probe = 0, k_interval = IKCP_INTERVAL, k_ts_flush = IKCP_INTERVAL,
      k_nodelay = 0, k_updated = 0, k_ts_probe = 0, k_probe_wait = 0,
      k_dead_link = IKCP_DEADLINK, k_incr = 0, k_fastresend = 0, k_nocwnd = 0, k_stream = 0,
      k_snd_queue = NewRingBuffer zero_seg (IKCP_WND_SND * 2),
      k_rcv_queue = NewRingBuffer zero_seg (IKCP_WND_RCV * 2),
      k_snd_buf = NewRingBuffer zero_seg (IKCP_WND_SND * 2),
      k_rcv_buf = newSegmentHeap, k_acklist = [], k_buffer = IKCP_MTU_DEF,
      k_output = [], k_reads = 0\<rparr>"

definition kcp_SetMtu :: "int \<Rightarrow> KCP \<Rightarrow> int \<times> KCP" where
  "kcp_SetMtu mtu k =
     (if mtu < 50 \<or> mtu < IKCP_OVERHEAD then (-1, k)
      else (0, k\<lparr>k_mtu := word_of_int mtu, k_mss := word_of_int mtu - IKCP_OVERHEAD,
                 k_buffer := nat mtu\<rparr>))"

definition kcp_NoDelay :: "int \<Rightarrow> int \<Rightarrow> int \<Rightarrow> int \<Rightarrow> KCP \<Rightarrow> int \<times> KCP" where
  "kcp_NoDelay nodelay interval resend nc k =
     (let k = (if nodelay \<ge> 0
               then k\<lparr>k_nodelay := word_of_int nodelay,
                      k_rx_minrto := (if nodelay \<noteq> 0 then IKCP_RTO_NDL else IKCP_RTO_MIN)\<rparr>
               else k);
          k = (if interval \<ge> 0
               then k\<lparr>k_interval := word_of_int (if interval > 5000 then 5000
                                                 else if interval < 10 then 10 else interval)\<rparr>
               else k);
          k = (if resend \<ge> 0 then k\<lparr>k_fastresend := word_of_int resend\<rparr> else k);
          k = (if nc \<ge> 0 then k\<lparr>k_nocwnd := word_of_int nc\<rparr> else k)
      in (0, k))"

definition kcp_WndSize :: "int \<Rightarrow> int \<Rightarrow> KCP \<Rightarrow> int \<times> KCP" where
  "kcp_WndSize sndwnd rcvwnd k =
     (let k = (if sndwnd > 0 then k\<lparr>k_snd_wnd := word_of_int sndwnd\<rparr> else k);
          k = (if rcvwnd > 0 then k\<lparr>k_rcv_wnd := word_of_int rcvwnd\<rparr> else k)
      in (0, k))"

definition kcp_WaitSnd :: "KCP \<Rightarrow> nat" where
  "kcp_WaitSnd k = rb_Len (k_snd_buf k) + rb_Len (k_snd_queue k)"

definition kcp_wnd_unused :: "KCP \<Rightarrow> u16" where
  "kcp_wnd_unused k =
     (if rb_Len (k_rcv_queue k) < unat (k_rcv_wnd k)
      then of_nat (unat (k_rcv_wnd k) - rb_Len (k_rcv_queue k)) else 0)"

section \<open>The invariant of a connection\<close>

abbreviation snd_queue_list :: "KCP \<Rightarrow> segment list" where
  "snd_queue_list k \<equiv> rb_list (k_snd_queue k)"
abbreviation snd_buf_list :: "KCP \<Rightarrow> segment list" where
  "snd_buf_list k \<equiv> rb_list (k_snd_buf k)"
abbreviation rcv_queue_list :: "KCP \<Rightarrow> segment list" where
  "rcv_queue_list k \<equiv> rb_list (k_rcv_queue k)"
abbreviation rcv_buf_items :: "KCP \<Rightarrow> segment multiset" where
  "rcv_buf_items k \<equiv> heap_items (k_rcv_buf k)"

text \<open>Sizes: the segment size fits the MTU, the flush buffer is one MTU, windows are half-ranges.\<close>

definition cfg_inv :: "KCP \<Rightarrow> bool" where
  "cfg_inv k \<longleftrightarrow> 50 \<le> unat (k_mtu k) \<and> k_mss k = k_mtu k - IKCP_OVERHEAD
     \<and> k_buffer k = unat (k_mtu k)
     \<and> unat (k_snd_wnd k) < 2 ^ 31 \<and> unat (k_rcv_wnd k) < 2 ^ 31"

text \<open>
  The sender: the segments in flight are pushes of this conversation and carry the consecutive
  sequence numbers just below \<open>snd_nxt\<close>; they and everything since \<open>snd_una\<close> fit the send
  window; no segment is longer than \<open>mss\<close>.
\<close>

definition flight_seg :: "u32 \<Rightarrow> u32 \<Rightarrow> segment \<Rightarrow> bool" where
  "flight_seg conv mss s \<longleftrightarrow>
     length (sg_data s) \<le> unat mss \<and> sg_conv s = conv \<and> sg_cmd s = IKCP_CMD_PUSH"

definition snd_inv :: "KCP \<Rightarrow> bool" where
  "snd_inv k \<longleftrightarrow> rb_inv (k_snd_queue k) \<and> rb_inv (k_snd_buf k)
     \<and> (\<forall>s \<in> set (snd_queue_list k). length (sg_data s) \<le> unat (k_mss k))
     \<and> (\<forall>s \<in> set (snd_buf_list k). flight_seg (k_conv k) (k_mss k) s)
     \<and> map sg_sn (snd_buf_list k)
         = sn_run (k_snd_nxt k - of_nat (length (snd_buf_list k))) (length (snd_buf_list k))
     \<and> length (snd_buf_list k) \<le> sn_off (k_snd_una k) (k_snd_nxt k)
     \<and> sn_off (k_snd_una k) (k_snd_nxt k) \<le> unat (k_snd_wnd k)"

text \<open>
  The receiver: the queue of deliverable segments carries the consecutive sequence numbers just
  below \<open>rcv_nxt\<close> and never exceeds the receive window; the heap holds only segments of the
  window that starts at \<open>rcv_nxt\<close>, each once.
\<close>

definition rcv_inv :: "KCP \<Rightarrow> bool" where
  "rcv_inv k \<longleftrightarrow> rb_inv (k_rcv_queue k)
     \<and> length (rcv_queue_list k) \<le> unat (k_rcv_wnd k)
     \<and> map sg_sn (rcv_queue_list k)
         = sn_run (k_rcv_nxt k - of_nat (length (rcv_queue_list k))) (length (rcv_queue_list k))
     \<and> heap_inv (k_rcv_nxt k) (k_rcv_buf k)
     \<and> (\<forall>s \<in># rcv_buf_items k. sn_off (k_rcv_nxt k) (sg_sn s) < unat (k_rcv_wnd k))"

definition kcp_inv :: "KCP \<Rightarrow> bool" where
  "kcp_inv k \<longleftrightarrow> cfg_inv k \<and> snd_inv k \<and> rcv_inv k"

lemma kcp_invD [dest]: "kcp_inv k \<Longrightarrow> cfg_inv k" "kcp_inv k \<Longrightarrow> snd_inv k" "kcp_inv k \<Longrightarrow> rcv_inv k"
  by (simp_all add: kcp_inv_def)

section \<open>What the invariants do not depend on\<close>

lemma cfg_inv_frame [simp, frame_simps]:
  "cfg_inv (k\<lparr>k_conv := x_conv\<rparr>) = cfg_inv k"
  "cfg_inv (k\<lparr>k_state := x_state\<rparr>) = cfg_inv k"
  "cfg_inv (k\<lparr>k_snd_una := x_snd_una\<rparr>) = cfg_inv k"
  "cfg_inv (k\<lparr>k_snd_nxt := x_snd_nxt\<rparr>) = cfg_inv k"
  "cfg_inv (k\<lparr>k_rcv_nxt := x_rcv_nxt\<rparr>) = cfg_inv k"
  "cfg_inv (k\<lparr>k_ssthresh := x_ssthresh\<rparr>) = cfg_inv k"
  "cfg_inv (k\<lparr>k_rx_rttvar := x_rx_rttvar\<rparr>) = cfg_inv k"
  "cfg_inv (k\<lparr>k_rx_srtt := x_rx_srtt\<rparr>) = cfg_inv k"
  "cfg_inv (k\<lparr>k_rx_rto := x_rx_rto\<rparr>) = cfg_inv k"
  "cfg_inv (k\<lparr>k_rx_minrto := x_rx_minrto\<rparr>) = cfg_inv k"
  "cfg_inv (k\<lparr>k_rmt_wnd := x_rmt_wnd\<rparr>) = cfg_inv k"
  "cfg_inv (k\<lparr>k_cwnd := x_cwnd\<rparr>) = cfg_inv k"
  "cfg_inv (k\<lparr>k_probe := x_probe\<rparr>) = cfg_inv k"
  "cfg_inv (k\<lparr>k_interval := x_interval\<rparr>) = cfg_inv k"
  "cfg_inv (k\<lparr>k_ts_flush := x_ts_flush\<rparr>) = cfg_inv k"
  "cfg_inv (k\<lparr>k_nodelay := x_nodelay\<rparr>) = cfg_inv k"
  "cfg_inv (k\<lparr>k_updated := x_updated\<rparr>) = cfg_inv k"
  "cfg_inv (k\<lparr>k_ts_probe := x_ts_probe\<rparr>) = cfg_inv k"
  "cfg_inv (k\<lparr>k_probe_wait := x_probe_wait\<rparr>) = cfg_inv k"
  "cfg_inv (k\<lparr>k_dead_link := x_dead_link\<rparr>) = cfg_inv k"
  "cfg_inv (k\<lparr>k_incr := x_incr\<rparr>) = cfg_inv k"
  "cfg_inv (k\<lparr>k_fastresend := x_fastresend\<rparr>) = cfg_inv k"
  "cfg_inv (k\<lparr>k_nocwnd := x_nocwnd\<rparr>) = cfg_inv k"
  "cfg_inv (k\<lparr>k_stream := x_stream\<rparr>) = cfg_inv k"
  "cfg_inv (k\<lparr>k_snd_queue := x_snd_queue\<rparr>) = cfg_inv k"
  "cfg_inv (k\<lparr>k_rcv_queue := x_rcv_queue\<rparr>) = cfg_inv k"
  "cfg_inv (k\<lparr>k_snd_buf := x_snd_buf\<rparr>) = cfg_inv k"
  "cfg_inv (k\<lparr>k_rcv_buf := x_rcv_buf\<rparr>) = cfg_inv k"
  "cfg_inv (k\<lparr>k_acklist := x_acklist\<rparr>) = cfg_inv k"
  "cfg_inv (k\<lparr>k_output := x_output\<rparr>) = cfg_inv k"
  "cfg_inv (k\<lparr>k_reads := x_reads\<rparr>) = cfg_inv k"
  by (simp_all add: cfg_inv_def)

lemma snd_inv_frame [simp, frame_simps]:
  "snd_inv (k\<lparr>k_mtu := x_mtu\<rparr>) = snd_inv k"
  "snd_inv (k\<lparr>k_state := x_state\<rparr>) = snd_inv k"
  "snd_inv (k\<lparr>k_rcv_nxt := x_rcv_nxt\<rparr>) = snd_inv k"
  "snd_inv (k\<lparr>k_ssthresh := x_ssthresh\<rparr>) = snd_inv k"
  "snd_inv (k\<lparr>k_rx_rttvar := x_rx_rttvar\<rparr>) = snd_inv k"
  "snd_inv (k\<lparr>k_rx_srtt := x_rx_srtt\<rparr>) = snd_inv k"
  "snd_inv (k\<lparr>k_rx_rto := x_rx_rto\<rparr>) = snd_inv k"
  "snd_inv (k\<lparr>k_rx_minrto := x_rx_minrto\<rparr>) = snd_inv k"
  "snd_inv (k\<lparr>k_rcv_wnd := x_rcv_wnd\<rparr>) = snd_inv k"
  "snd_inv (k\<lparr>k_rmt_wnd := x_rmt_wnd\<rparr>) = snd_inv k"
  "snd_inv (k\<lparr>k_cwnd := x_cwnd\<rparr>) = snd_inv k"
  "snd_inv (k\<lparr>k_probe := x_probe\<rparr>) = snd_inv k"
  "snd_inv (k\<lparr>k_interval := x_interval\<rparr>) = snd_inv k"
  "snd_inv (k\<lparr>k_ts_flush := x_ts_flush\<rparr>) = snd_inv k"
  "snd_inv (k\<lparr>k_nodelay := x_nodelay\<rparr>) = snd_inv k"
  "snd_inv (k\<lparr>k_updated := x_updated\<rparr>) = snd_inv k"
  "snd_inv (k\<lparr>k_ts_probe := x_ts_probe\<rparr>) = snd_inv k"
  "snd_inv (k\<lparr>k_probe_wait := x_probe_wait\<rparr>) = snd_inv k"
  "snd_inv (k\<lparr>k_dead_link := x_dead_link\<rparr>) = snd_inv k"
  "snd_inv (k\<lparr>k_incr := x_incr\<rparr>) = snd_inv k"
  "snd_inv (k\<lparr>k_fastresend := x_fastresend\<rparr>) = snd_inv k"
  "snd_inv (k\<lparr>k_nocwnd := x_nocwnd\<rparr>) = snd_inv k"
  "snd_inv (k\<lparr>k_stream := x_stream\<rparr>) = snd_inv k"
  "snd_inv (k\<lparr>k_rcv_queue := x_rcv_queue\<rparr>) = snd_inv k"
  "snd_inv (k\<lparr>k_rcv_buf := x_rcv_buf\<rparr>) = snd_inv k"
  "snd_inv (k\<lparr>k_acklist := x_acklist\<rparr>) = snd_inv k"
  "snd_inv (k\<lparr>k_buffer := x_buffer\<rparr>) = snd_inv k"
  "snd_inv (k\<lparr>k_output := x_output\<rparr>) = snd_inv k"
  "snd_inv (k\<lparr>k_reads := x_reads\<rparr>) = snd_inv k"
  by (simp_all add: snd_inv_def)

lemma rcv_inv_frame [simp, frame_simps]:
  "rcv_inv (k\<lparr>k_conv := x_conv\<rparr>) = rcv_inv k"
  "rcv_inv (k\<lparr>k_mtu := x_mtu\<rparr>) = rcv_inv k"
  "rcv_inv (k\<lparr>k_mss := x_mss\<rparr>) = rcv_inv k"
  "rcv_inv (k\<lparr>k_state := x_state\<rparr>) = rcv_inv k"
  "rcv_inv (k\<lparr>k_snd_una := x_snd_una\<rparr>) = rcv_inv k"
  "rcv_inv (k\<lparr>k_snd_nxt := x_snd_nxt\<rparr>) = rcv_inv k"
  "rcv_inv (k\<lparr>k_ssthresh := x_ssthresh\<rparr>) = rcv_inv k"
  "rcv_inv (k\<lparr>k_rx_rttvar := x_rx_rttvar\<rparr>) = rcv_inv k"
  "rcv_inv (k\<lparr>k_rx_srtt := x_rx_srtt\<rparr>) = rcv_inv k"
  "rcv_inv (k\<lparr>k_rx_rto := x_rx_rto\<rparr>) = rcv_inv k"
  "rcv_inv (k\<lparr>k_rx_minrto := x_rx_minrto\<rparr>) = rcv_inv k"
  "rcv_inv (k\<lparr>k_snd_wnd := x_snd_wnd\<rparr>) = rcv_inv k"
  "rcv_inv (k\<lparr>k_rmt_wnd := x_rmt_wnd\<rparr>) = rcv_inv k"
  "rcv_inv (k\<lparr>k_cwnd := x_cwnd\<rparr>) = rcv_inv k"
  "rcv_inv (k\<lparr>k_probe := x_probe\<rparr>) = rcv_inv k"
  "rcv_inv (k\<lparr>k_interval := x_interval\<rparr>) = rcv_inv k"
  "rcv_inv (k\<lparr>k_ts_flush := x_ts_flush\<rparr>) = rcv_inv k"
  "rcv_inv (k\<lparr>k_nodelay := x_nodelay\<rparr>) = rcv_inv k"
  "rcv_inv (k\<lparr>k_updated := x_updated\<rparr>) = rcv_inv k"
  "rcv_inv (k\<lparr>k_ts_probe := x_ts_probe\<rparr>) = rcv_inv k"
  "rcv_inv (k\<lparr>k_probe_wait := x_probe_wait\<rparr>) = rcv_inv k"
  "rcv_inv (k\<lparr>k_dead_link := x_dead_link\<rparr>) = rcv_inv k"
  "rcv_inv (k\<lparr>k_incr := x_incr\<rparr>) = rcv_inv k"
  "rcv_inv (k\<lparr>k_fastresend := x_fastresend\<rparr>) = rcv_inv k"
  "rcv_inv (k\<lparr>k_nocwnd := x_nocwnd\<rparr>) = rcv_inv k"
  "rcv_inv (k\<lparr>k_stream := x_stream\<rparr>) = rcv_inv k"
  "rcv_inv (k\<lparr>k_snd_queue := x_snd_queue\<rparr>) = rcv_inv k"
  "rcv_inv (k\<lparr>k_snd_buf := x_snd_buf\<rparr>) = rcv_inv k"
  "rcv_inv (k\<lparr>k_acklist := x_acklist\<rparr>) = rcv_inv k"
  "rcv_inv (k\<lparr>k_buffer := x_buffer\<rparr>) = rcv_inv k"
  "rcv_inv (k\<lparr>k_output := x_output\<rparr>) = rcv_inv k"
  "rcv_inv (k\<lparr>k_reads := x_reads\<rparr>) = rcv_inv k"
  by (simp_all add: rcv_inv_def)

lemma cfg_inv_mss: "cfg_inv k \<Longrightarrow> unat (k_mss k) = unat (k_mtu k) - IKCP_OVERHEAD"
  by (simp add: cfg_inv_def unat_sub_if')

lemma cfg_inv_mss_pos: "cfg_inv k \<Longrightarrow> 26 \<le> unat (k_mss k) \<and> unat (k_mss k) + IKCP_OVERHEAD = unat (k_mtu k)"
  using cfg_inv_mss[of k] by (auto simp: cfg_inv_def)

lemma kcp_inv_New: "kcp_inv (NewKCP conv)"
  by (simp add: kcp_inv_def cfg_inv_def snd_inv_def rcv_inv_def NewKCP_def rb_list_New heap_items_New)

lemma unat_word_of_int32: "0 \<le> n \<Longrightarrow> n < 2 ^ 32 \<Longrightarrow> unat (word_of_int n :: u32) = nat n"
  by (simp add: unat_eq_nat_uint uint_word_of_int)

lemma kcp_SetMtu_error: "mtu < 50 \<Longrightarrow> kcp_SetMtu mtu k = (-1, k)"
  by (simp add: kcp_SetMtu_def)

lemma kcp_SetMtu_inv:
  assumes "kcp_inv k" and "snd_queue_list k = []" and "snd_buf_list k = []" and "mtu < 2 ^ 32"
  shows "kcp_inv (snd (kcp_SetMtu mtu k))"
proof (cases "mtu < 50")
  case False
  then have "unat (word_of_int mtu :: u32) = nat mtu"
    using assms(4) False by (simp add: unat_word_of_int32)
  with False assms show ?thesis
    by (simp add: kcp_SetMtu_def kcp_inv_def cfg_inv_def snd_inv_def rcv_inv_def le_nat_iff)
qed (use assms in \<open>simp add: kcp_SetMtu_def\<close>)

lemma kcp_NoDelay_fields:
  "\<exists>nd mr iv fr nc. snd (kcp_NoDelay nodelay interval resend noc k) =
     k\<lparr>k_nodelay := nd, k_rx_minrto := mr, k_interval := iv, k_fastresend := fr, k_nocwnd := nc\<rparr>"
proof -
  have "snd (kcp_NoDelay nodelay interval resend noc k) = (let k' = snd (kcp_NoDelay nodelay interval resend noc k) in
      k\<lparr>k_nodelay := k_nodelay k', k_rx_minrto := k_rx_minrto k', k_interval := k_interval k',
        k_fastresend := k_fastresend k', k_nocwnd := k_nocwnd k'\<rparr>)"
    by (simp add: kcp_NoDelay_def Let_def)
  then show ?thesis by metis
qed

lemma kcp_NoDelay_inv: "kcp_inv k \<Longrightarrow> kcp_inv (snd (kcp_NoDelay nodelay interval resend nc k))"
  using kcp_NoDelay_fields[of nodelay interval resend nc k]
  by (auto simp: kcp_inv_def cfg_inv_def snd_inv_def rcv_inv_def)

lemma kcp_WndSize_inv:
  assumes "kcp_inv k" and "sndwnd < 2 ^ 31" and "rcvwnd < 2 ^ 31"
    and "k_snd_una k = k_snd_nxt k" and "rcv_queue_list k = []" and "rcv_buf_items k = {#}"
  shows "kcp_inv (snd (kcp_WndSize sndwnd rcvwnd k))"
proof -
  have w: "\<And>w::int. 0 < w \<Longrightarrow> w < 2 ^ 31 \<Longrightarrow> unat (word_of_int w :: u32) < 2 ^ 31"
    by (simp add: unat_word_of_int32 nat_less_iff)
  show ?thesis
    using assms w[of sndwnd] w[of rcvwnd]
    by (auto simp: kcp_WndSize_def Let_def kcp_inv_def cfg_inv_def snd_inv_def rcv_inv_def)
qed

end
