(* ===== verification/Kcp_Recv.thy ===== *)
theory Kcp_Recv
  imports Kcp_State
begin

text \<open>
  The receive side of \<open>kcp.go\<close>: \<open>parse_data\<close> takes a data segment into the out-of-order
  buffer and moves what has become deliverable to the receive queue; \<open>PeekSize\<close> measures the
  next message and \<open>Recv\<close> reassembles it from its fragments. The loop that moves segments
  occurs twice in the code, with the same text; it is \<open>move_ready\<close> here.
\<close>

section \<open>The code\<close>

definition peek_visit :: "segment \<Rightarrow> nat \<Rightarrow> bool \<times> segment \<times> nat" where
  "peek_visit seg len = (sg_frg seg \<noteq> 0, seg, len + length (sg_data seg))"

text \<open>\<open>seg.frg+1\<close> is computed on a byte.\<close>

definition kcp_PeekSize :: "KCP \<Rightarrow> int" where
  "kcp_PeekSize k =
     (case rb_Peek (k_rcv_queue k) of
        None \<Rightarrow> -1
      | Some seg \<Rightarrow>
          if sg_frg seg = 0 then int (length (sg_data seg))
          else if int (rb_Len (k_rcv_queue k)) < uint (sg_frg seg + 1) then -1
          else int (snd (rb_ForEach peek_visit (k_rcv_queue k) 0)))"

text \<open>
  The loop \<open>for kcp.rcv_buf.Len() > 0 { seg := heap.Pop(...); ... }\<close>. Every iteration takes one
  segment off the heap, so the loop ends.
\<close>

lemma heap_Pop_Len: "heap_Pop h = Some (x, h') \<Longrightarrow> heap_Len h = Suc (heap_Len h')"
  using heap_down_frame[of "heap_Len h - 1" "heap_Swap 0 (heap_Len h - 1) (h_segments h)" seg_less 0]
  by (auto simp: heap_Pop_def h_Pop_def heap_Len_def heap_Swap_simps Let_def split: if_splits
      dest!: mset_eq_length)

function move_ready :: "KCP \<Rightarrow> KCP" where
  "move_ready k =
     (case heap_Pop (k_rcv_buf k) of
        None \<Rightarrow> k
      | Some (seg, h) \<Rightarrow>
          if sg_sn seg = k_rcv_nxt k \<and> rb_Len (k_rcv_queue k) < unat (k_rcv_wnd k)
          then move_ready (k\<lparr>k_rcv_buf := h, k_rcv_queue := rb_Push zero_seg seg (k_rcv_queue k),
                             k_rcv_nxt := k_rcv_nxt k + 1\<rparr>)
          else k\<lparr>k_rcv_buf := heap_Push h seg\<rparr>)"
  by pat_completeness auto
termination
  by (relation "measure (\<lambda>k. heap_Len (k_rcv_buf k))") (auto dest: heap_Pop_Len)

declare move_ready.simps [simp del]

definition kcp_parse_data :: "segment \<Rightarrow> KCP \<Rightarrow> (bool \<times> KCP) option" where
  "kcp_parse_data newseg k =
     (let sn = sg_sn newseg
      in if itimediff sn (k_rcv_nxt k + k_rcv_wnd k) \<ge> 0 \<or> itimediff sn (k_rcv_nxt k) < 0
         then Some (True, k)
         else do {
           k \<leftarrow> (if \<not> heap_Has (k_rcv_buf k) sn
                 then if length (sg_data newseg) > unat (k_mtu k) then None
                      else Some (k\<lparr>k_rcv_buf := heap_Push (k_rcv_buf k) newseg\<rparr>)
                 else Some k);
           Some (False, move_ready k)
         })"

text \<open>
  The merge loop of \<open>Recv\<close>: \<open>dn\<close> is the part of the caller's buffer already filled, \<open>buf\<close> the
  slice that remains, \<open>n\<close> the count. Slicing past the end of \<open>buf\<close> panics. The fuel is one more
  than the number of queued segments, of which every iteration takes one.
\<close>

fun recv_merge :: "nat \<Rightarrow> bytes \<Rightarrow> bytes \<Rightarrow> int \<Rightarrow> KCP \<Rightarrow> (bytes \<times> int \<times> KCP) option" where
  "recv_merge 0 dn buf n k = None"
| "recv_merge (Suc fuel) dn buf n k =
     (case rb_Pop zero_seg (k_rcv_queue k) of
        (None, q) \<Rightarrow> Some (dn @ buf, n, k\<lparr>k_rcv_queue := q\<rparr>)
      | (Some seg, q) \<Rightarrow>
          let k = k\<lparr>k_rcv_queue := q\<rparr>;
              buf = go_copy buf (sg_data seg);
              len = length (sg_data seg)
          in if len > length buf then None
             else let n = n + int len;
                      dn = dn @ take len buf;
                      buf = drop len buf
                  in if sg_frg seg = 0 then Some (dn @ buf, n, k)
                     else recv_merge fuel dn buf n k)"

text \<open>\<open>Recv\<close> returns the count (or an error) and the caller's buffer.\<close>

definition kcp_Recv :: "bytes \<Rightarrow> KCP \<Rightarrow> (int \<times> bytes \<times> KCP) option" where
  "kcp_Recv buffer k =
     (let peeksize = kcp_PeekSize k
      in if peeksize < 0 then Some (-1, buffer, k)
         else if peeksize > int (length buffer) then Some (-2, buffer, k)
         else let fast_recover = rb_Len (k_rcv_queue k) \<ge> unat (k_rcv_wnd k)
         in do {
           (buffer, n, k) \<leftarrow> recv_merge (Suc (rb_Len (k_rcv_queue k))) [] buffer 0 k;
           let k = move_ready k;
           let k = (if rb_Len (k_rcv_queue k) < unat (k_rcv_wnd k) \<and> fast_recover
                    then k\<lparr>k_probe := k_probe k OR IKCP_ASK_TELL\<rparr> else k);
           Some (n, buffer, k)
         })"

section \<open>Moving deliverable segments\<close>

text \<open>Segments above the base stay in order when the base moves past one that is gone.\<close>

lemma heap_inv_base_Suc:
  assumes "heap_inv b h" and "\<forall>s \<in># heap_items h. sg_sn s \<noteq> b"
  shows "heap_inv (b + 1) h"
proof -
  let ?xs = "h_segments h"
  have off: "sn_off (b + 1) (sg_sn s) = sn_off b (sg_sn s) - 1" if "s \<in> set ?xs" for s
    using assms(2) that by (intro sn_off_base_Suc) (simp add: heap_items_def)
  have "min_heap (\<lambda>s. sn_off (b + 1) (sg_sn s)) (length ?xs) ?xs"
    by (rule min_heap_key_mono[where key = "\<lambda>s. sn_off b (sg_sn s)"])
       (use assms(1) off in \<open>auto simp: heap_inv_def diff_le_mono\<close>)
  then show ?thesis
    using assms(1) off by (auto simp: heap_inv_def less_imp_diff_less)
qed

text \<open>The three fields the loop writes.\<close>

lemma move_ready_frame:
  "\<exists>q h n. move_ready k = k\<lparr>k_rcv_queue := q, k_rcv_buf := h, k_rcv_nxt := n\<rparr>"
proof (induction k rule: move_ready.induct)
  case (1 k)
  show ?case
  proof (cases "heap_Pop (k_rcv_buf k)")
    case None
    then show ?thesis by (subst move_ready.simps) (auto intro!: exI[of _ "k_rcv_queue k"]
          exI[of _ "k_rcv_buf k"] exI[of _ "k_rcv_nxt k"])
  next
    case (Some p)
    obtain seg h where p: "p = (seg, h)" by fastforce
    show ?thesis
    proof (cases "sg_sn seg = k_rcv_nxt k \<and> rb_Len (k_rcv_queue k) < unat (k_rcv_wnd k)")
      case True
      then obtain q h' n where "move_ready (k\<lparr>k_rcv_buf := h,
            k_rcv_queue := rb_Push zero_seg seg (k_rcv_queue k), k_rcv_nxt := k_rcv_nxt k + 1\<rparr>)
          = k\<lparr>k_rcv_queue := q, k_rcv_buf := h', k_rcv_nxt := n\<rparr>"
        using "1.IH"[OF Some p[symmetric]] by auto
      with True Some p show ?thesis by (subst move_ready.simps) auto
    next
      case False
      with Some p show ?thesis
        by (subst move_ready.simps) (auto intro!: exI[of _ "k_rcv_queue k"] exI[of _ "k_rcv_nxt k"])
    qed
  qed
qed

lemma rcv_inv_deliver:
  assumes inv: "rcv_inv k" and pop: "heap_Pop (k_rcv_buf k) = Some (seg, h)"
    and here: "sg_sn seg = k_rcv_nxt k" and room: "rb_Len (k_rcv_queue k) < unat (k_rcv_wnd k)"
  shows "rcv_inv (k\<lparr>k_rcv_buf := h, k_rcv_queue := rb_Push zero_seg seg (k_rcv_queue k),
                   k_rcv_nxt := k_rcv_nxt k + 1\<rparr>)"
proof -
  let ?b = "k_rcv_nxt k" and ?q = "rcv_queue_list k"
  have heap: "heap_inv ?b (k_rcv_buf k)" and rb: "rb_inv (k_rcv_queue k)"
    and run: "map sg_sn ?q = sn_run (?b - of_nat (length ?q)) (length ?q)"
    and win: "\<forall>s \<in># rcv_buf_items k. sn_off ?b (sg_sn s) < unat (k_rcv_wnd k)"
    using inv by (auto simp: rcv_inv_def)
  have items: "heap_inv ?b h" "rcv_buf_items k = add_mset seg (heap_items h)"
    using seg_pq.pop_Some[OF heap pop] by auto
  have other: "\<forall>s \<in># heap_items h. sg_sn s \<noteq> ?b"
    using seg_pq.pop_is_least[OF heap pop] here by fastforce
  have "map sg_sn (?q @ [seg]) = sn_run (?b - of_nat (length ?q)) (Suc (length ?q))"
    by (simp add: sn_run_snoc run here del: sn_run.simps)
  then have run': "map sg_sn (?q @ [seg]) = sn_run (?b + 1 - of_nat (Suc (length ?q))) (Suc (length ?q))"
    by (simp del: sn_run.simps)
  have win': "\<forall>s \<in># heap_items h. sn_off (?b + 1) (sg_sn s) < unat (k_rcv_wnd k)"
    using win items(2) other by (auto simp: sn_off_base_Suc less_imp_diff_less)
  show ?thesis
    using rb room run' heap_inv_base_Suc[OF items(1) other] win'
    by (simp add: rcv_inv_def queue_simps del: sn_run.simps of_nat_Suc)
qed

lemma move_ready_correct:
  assumes "rcv_inv k"
  shows "rcv_inv (move_ready k) \<and>
    (\<exists>ms. rcv_queue_list (move_ready k) = rcv_queue_list k @ ms
       \<and> rcv_buf_items k = rcv_buf_items (move_ready k) + mset ms
       \<and> k_rcv_nxt (move_ready k) = k_rcv_nxt k + of_nat (length ms)) \<and>
    (length (rcv_queue_list (move_ready k)) < unat (k_rcv_wnd k) \<longrightarrow>
       k_rcv_nxt (move_ready k) \<notin> sg_sn ` set_mset (rcv_buf_items (move_ready k)))"
  using assms
proof (induction k rule: move_ready.induct)
  case (1 k)
  have rb: "rb_inv (k_rcv_queue k)" and heap: "heap_inv (k_rcv_nxt k) (k_rcv_buf k)"
    using "1.prems" by (auto simp: rcv_inv_def)
  show ?case
  proof (cases "heap_Pop (k_rcv_buf k)")
    case None
    then have "rcv_buf_items k = {#}" using seg_pq.pop_None[OF heap] by simp
    moreover have "move_ready k = k" by (subst move_ready.simps) (simp add: None)
    ultimately show ?thesis using "1.prems" by simp
  next
    case (Some p)
    obtain seg h where p: "p = (seg, h)" by fastforce
    note pop = Some[unfolded p]
    let ?k1 = "k\<lparr>k_rcv_buf := h, k_rcv_queue := rb_Push zero_seg seg (k_rcv_queue k),
                 k_rcv_nxt := k_rcv_nxt k + 1\<rparr>"
    show ?thesis
    proof (cases "sg_sn seg = k_rcv_nxt k \<and> rb_Len (k_rcv_queue k) < unat (k_rcv_wnd k)")
      case True
      have step: "move_ready k = move_ready ?k1"
        by (subst move_ready.simps) (simp add: pop True)
      have "rcv_inv ?k1" using rcv_inv_deliver[OF "1.prems" pop] True by blast
      from "1.IH"[OF Some p[symmetric] True this]
      obtain ms where ms: "rcv_inv (move_ready ?k1)"
        "rcv_queue_list (move_ready ?k1) = rcv_queue_list ?k1 @ ms"
        "rcv_buf_items ?k1 = rcv_buf_items (move_ready ?k1) + mset ms"
        "k_rcv_nxt (move_ready ?k1) = k_rcv_nxt ?k1 + of_nat (length ms)"
        "length (rcv_queue_list (move_ready ?k1)) < unat (k_rcv_wnd k) \<longrightarrow>
           k_rcv_nxt (move_ready ?k1) \<notin> sg_sn ` set_mset (rcv_buf_items (move_ready ?k1))"
        by auto
      have "rcv_buf_items k = add_mset seg (heap_items h)"
        using seg_pq.pop_Some[OF heap pop] by blast
      then have "rcv_queue_list (move_ready ?k1) = rcv_queue_list k @ (seg # ms)"
        "rcv_buf_items k = rcv_buf_items (move_ready ?k1) + mset (seg # ms)"
        "k_rcv_nxt (move_ready ?k1) = k_rcv_nxt k + of_nat (length (seg # ms))"
        using ms(2-4) rb by (simp_all add: queue_simps algebra_simps)
      then show ?thesis unfolding step using ms(1,5) by blast
    next
      case False
      have stop: "move_ready k = k\<lparr>k_rcv_buf := heap_Push h seg\<rparr>"
        by (subst move_ready.simps) (simp add: pop False)
      have again: "heap_inv (k_rcv_nxt k) (heap_Push h seg)" "heap_items (heap_Push h seg) = rcv_buf_items k"
        using seg_pq.pop_push_back[OF heap pop] by auto
      have least: "\<forall>y \<in># rcv_buf_items k. sn_off (k_rcv_nxt k) (sg_sn seg) \<le> sn_off (k_rcv_nxt k) (sg_sn y)"
        using seg_pq.pop_Some[OF heap pop] by blast
      have "length (rcv_queue_list k) < unat (k_rcv_wnd k) \<Longrightarrow>
          k_rcv_nxt k \<notin> sg_sn ` set_mset (rcv_buf_items k)"
        using False least rb by (fastforce simp: queue_simps)
      then show ?thesis
        using "1.prems" again by (auto simp: stop rcv_inv_def)
    qed
  qed
qed

lemma move_ready_inv:
  assumes "kcp_inv k"
  shows "kcp_inv (move_ready k)"
proof -
  have "rcv_inv (move_ready k)"
    using move_ready_correct[of k] assms by (simp add: kcp_inv_def)
  with assms show ?thesis
    using move_ready_frame[of k] by (auto simp: kcp_inv_def)
qed

section \<open>Taking in a data segment\<close>

lemma rcv_window:
  assumes "unat (k_rcv_wnd k) < 2 ^ 31"
    and "\<not> (itimediff sn (k_rcv_nxt k + k_rcv_wnd k) \<ge> 0 \<or> itimediff sn (k_rcv_nxt k) < 0)"
  shows "sn_off (k_rcv_nxt k) sn < unat (k_rcv_wnd k)"
  using assms itimediff_window[of "unat (k_rcv_wnd k)" sn "k_rcv_nxt k"] by simp

text \<open>The heap with the new segment in it, before anything is delivered.\<close>

lemma parse_data_insert:
  assumes inv: "kcp_inv k" and win: "sn_off (k_rcv_nxt k) (sg_sn seg) < unat (k_rcv_wnd k)"
    and new: "\<not> heap_Has (k_rcv_buf k) (sg_sn seg)"
  shows "kcp_inv (k\<lparr>k_rcv_buf := heap_Push (k_rcv_buf k) seg\<rparr>)"
    and "heap_items (heap_Push (k_rcv_buf k) seg) = add_mset seg (rcv_buf_items k)"
proof -
  have heap: "heap_inv (k_rcv_nxt k) (k_rcv_buf k)" and wnd: "unat (k_rcv_wnd k) < 2 ^ 31"
    using inv by (auto simp: kcp_inv_def rcv_inv_def cfg_inv_def)
  have "sg_sn seg \<notin> sg_sn ` set_mset (rcv_buf_items k)"
    using new heap_Has_iff[OF heap] by simp
  moreover have "sn_off (k_rcv_nxt k) (sg_sn seg) < 2 ^ 31" using win wnd by simp
  ultimately have "heap_inv (k_rcv_nxt k) (heap_Push (k_rcv_buf k) seg)"
    and items: "heap_items (heap_Push (k_rcv_buf k) seg) = add_mset seg (rcv_buf_items k)"
    using heap_Push_correct[OF heap] by auto
  then show "kcp_inv (k\<lparr>k_rcv_buf := heap_Push (k_rcv_buf k) seg\<rparr>)"
    using inv win by (auto simp: kcp_inv_def cfg_inv_def snd_inv_def rcv_inv_def)
  show "heap_items (heap_Push (k_rcv_buf k) seg) = add_mset seg (rcv_buf_items k)"
    by (rule items)
qed

lemma kcp_parse_data_outside:
  "itimediff (sg_sn seg) (k_rcv_nxt k + k_rcv_wnd k) \<ge> 0 \<or> itimediff (sg_sn seg) (k_rcv_nxt k) < 0 \<Longrightarrow>
     kcp_parse_data seg k = Some (True, k)"
  by (simp add: kcp_parse_data_def)

lemma kcp_parse_data_inside:
  assumes inv: "kcp_inv k" and len: "length (sg_data seg) \<le> unat (k_mtu k)"
    and win: "\<not> (itimediff (sg_sn seg) (k_rcv_nxt k + k_rcv_wnd k) \<ge> 0
                 \<or> itimediff (sg_sn seg) (k_rcv_nxt k) < 0)"
  shows "\<exists>k' ms. kcp_parse_data seg k = Some (False, k') \<and> kcp_inv k'
     \<and> rcv_queue_list k' = rcv_queue_list k @ ms
     \<and> (if heap_Has (k_rcv_buf k) (sg_sn seg) then rcv_buf_items k else add_mset seg (rcv_buf_items k))
         = rcv_buf_items k' + mset ms
     \<and> k_rcv_nxt k' = k_rcv_nxt k + of_nat (length ms)
     \<and> (length (rcv_queue_list k') < unat (k_rcv_wnd k) \<longrightarrow>
          k_rcv_nxt k' \<notin> sg_sn ` set_mset (rcv_buf_items k'))
     \<and> (\<exists>q h n. k' = k\<lparr>k_rcv_queue := q, k_rcv_buf := h, k_rcv_nxt := n\<rparr>)"
proof -
  let ?k1 = "if heap_Has (k_rcv_buf k) (sg_sn seg) then k
             else k\<lparr>k_rcv_buf := heap_Push (k_rcv_buf k) seg\<rparr>"
  have "unat (k_rcv_wnd k) < 2 ^ 31" using inv by (auto simp: cfg_inv_def)
  then have w: "sn_off (k_rcv_nxt k) (sg_sn seg) < unat (k_rcv_wnd k)"
    using win by (rule rcv_window)
  have inv1: "kcp_inv ?k1" using inv parse_data_insert(1)[OF inv w] by simp
  have items1: "rcv_buf_items ?k1 = (if heap_Has (k_rcv_buf k) (sg_sn seg) then rcv_buf_items k
      else add_mset seg (rcv_buf_items k))"
    using parse_data_insert(2)[OF inv w] by simp
  have same: "rcv_queue_list ?k1 = rcv_queue_list k" "k_rcv_nxt ?k1 = k_rcv_nxt k"
    "k_rcv_wnd ?k1 = k_rcv_wnd k" by simp_all
  have res: "kcp_parse_data seg k = Some (False, move_ready ?k1)"
    using win len by (simp add: kcp_parse_data_def Let_def)
  have frame: "\<exists>q h n. move_ready ?k1 = k\<lparr>k_rcv_queue := q, k_rcv_buf := h, k_rcv_nxt := n\<rparr>"
    using move_ready_frame[of ?k1] by (auto split: if_splits)
  have "rcv_inv ?k1" using inv1 by (simp add: kcp_inv_def)
  from move_ready_correct[OF this]
  obtain ms where "rcv_queue_list (move_ready ?k1) = rcv_queue_list k @ ms"
    "rcv_buf_items ?k1 = rcv_buf_items (move_ready ?k1) + mset ms"
    "k_rcv_nxt (move_ready ?k1) = k_rcv_nxt k + of_nat (length ms)"
    "length (rcv_queue_list (move_ready ?k1)) < unat (k_rcv_wnd k) \<longrightarrow>
       k_rcv_nxt (move_ready ?k1) \<notin> sg_sn ` set_mset (rcv_buf_items (move_ready ?k1))"
    unfolding same by auto
  then show ?thesis
    using res frame move_ready_inv[OF inv1] items1 by (intro exI[of _ "move_ready ?k1"] exI[of _ ms]) simp
qed

section \<open>The next message\<close>

text \<open>The segments of the next message: up to the first whose fragment counter is 0.\<close>

fun next_msg :: "segment list \<Rightarrow> segment list" where
  "next_msg [] = []"
| "next_msg (s # ss) = s # (if sg_frg s = 0 then [] else next_msg ss)"

definition msg_bytes :: "segment list \<Rightarrow> bytes" where
  "msg_bytes ss = concat (map sg_data ss)"

lemma msg_bytes_simps [simp]:
  "msg_bytes [] = []" "msg_bytes (s # ss) = sg_data s @ msg_bytes ss"
  "msg_bytes (xs @ ys) = msg_bytes xs @ msg_bytes ys"
  by (simp_all add: msg_bytes_def)

lemma length_next_msg: "length (next_msg ss) \<le> length ss"
  by (induction ss) auto

lemma next_msg_append: "\<exists>rest. ss = next_msg ss @ rest"
  by (induction ss) auto

lemma list_each_peek: "snd (snd (list_each peek_visit ss n)) = n + length (msg_bytes (next_msg ss))"
  by (induction ss arbitrary: n) (auto simp: list_each_Cons peek_visit_def simp del: list_each.simps(2))

lemma kcp_PeekSize_correct:
  assumes "rb_inv (k_rcv_queue k)"
  shows "kcp_PeekSize k =
    (case rcv_queue_list k of
       [] \<Rightarrow> -1
     | s # _ \<Rightarrow> if sg_frg s \<noteq> 0 \<and> int (length (rcv_queue_list k)) < uint (sg_frg s + 1) then -1
                else int (length (msg_bytes (next_msg (rcv_queue_list k)))))"
  using assms
  by (auto simp: kcp_PeekSize_def queue_simps list_each_peek simp del: list_each.simps(2)
      split: list.splits)

section \<open>Recv\<close>

lemma recv_merge_correct:
  assumes "rb_inv (k_rcv_queue k)" and "length (rcv_queue_list k) < fuel"
    and "length (msg_bytes (next_msg (rcv_queue_list k))) \<le> length buf"
  shows "\<exists>q. recv_merge fuel dn buf n k =
       Some (dn @ msg_bytes (next_msg (rcv_queue_list k))
               @ drop (length (msg_bytes (next_msg (rcv_queue_list k)))) buf,
             n + int (length (msg_bytes (next_msg (rcv_queue_list k)))),
             k\<lparr>k_rcv_queue := q\<rparr>)
     \<and> rb_inv q \<and> rb_list q = drop (length (next_msg (rcv_queue_list k))) (rcv_queue_list k)"
  using assms
proof (induction fuel dn buf n k rule: recv_merge.induct)
  case (1 dn buf n k)
  then show ?case by simp
next
  case (2 fuel dn buf n k)
  obtain o' q where pop: "rb_Pop zero_seg (k_rcv_queue k) = (o', q)" by fastforce
  have q: "rb_inv q" "rb_list q = tl (rcv_queue_list k)"
      "o' = (case rcv_queue_list k of [] \<Rightarrow> None | x # _ \<Rightarrow> Some x)"
    using rb_Pop_correct[OF "2.prems"(1), of zero_seg] pop by simp_all
  show ?case
  proof (cases "rcv_queue_list k")
    case Nil
    then show ?thesis using q pop by auto
  next
    case (Cons seg rest)
    let ?len = "length (sg_data seg)" and ?buf = "go_copy buf (sg_data seg)"
    have o': "o' = Some seg" using q(3) Cons by simp
    have fits: "?len \<le> length buf" using "2.prems"(3) Cons by simp
    then have parts: "take ?len ?buf = sg_data seg" "drop ?len ?buf = drop ?len buf"
      by (simp_all add: go_copy_def)
    show ?thesis
    proof (cases "sg_frg seg = 0")
      case True
      have "recv_merge (Suc fuel) dn buf n k =
          Some (dn @ sg_data seg @ drop ?len buf, n + int ?len, k\<lparr>k_rcv_queue := q\<rparr>)"
        using True fits by (simp add: pop o' parts Let_def)
      then show ?thesis
        using True q(1,2) by (intro exI[of _ q]) (simp add: Cons)
    next
      case False
      let ?k = "k\<lparr>k_rcv_queue := q\<rparr>" and ?buf' = "drop ?len ?buf"
      have "\<exists>q'. recv_merge fuel (dn @ take ?len ?buf) ?buf' (n + int ?len) ?k =
           Some ((dn @ take ?len ?buf) @ msg_bytes (next_msg (rcv_queue_list ?k))
                   @ drop (length (msg_bytes (next_msg (rcv_queue_list ?k)))) ?buf',
                 n + int ?len + int (length (msg_bytes (next_msg (rcv_queue_list ?k)))),
                 ?k\<lparr>k_rcv_queue := q'\<rparr>)
         \<and> rb_inv q' \<and> rb_list q' = drop (length (next_msg (rcv_queue_list ?k))) (rcv_queue_list ?k)"
        using "2.IH"[OF pop[symmetric] o' refl refl refl _ refl refl refl False]
          q(1,2) Cons "2.prems" False fits parts by simp
      moreover have "recv_merge (Suc fuel) dn buf n k =
          recv_merge fuel (dn @ take ?len ?buf) ?buf' (n + int ?len) ?k"
        using False fits by (simp add: pop o' Let_def)
      ultimately show ?thesis
        using False q(2) by (auto simp: Cons parts add.commute)
    qed
  qed
qed

lemma rcv_inv_consume:
  assumes "rcv_inv k" and "rb_inv q" and "rb_list q = drop m (rcv_queue_list k)"
  shows "rcv_inv (k\<lparr>k_rcv_queue := q\<rparr>)"
proof -
  let ?l = "rcv_queue_list k"
  have "map sg_sn (drop m ?l) = drop m (sn_run (k_rcv_nxt k - of_nat (length ?l)) (length ?l))"
    using assms(1) by (simp add: rcv_inv_def drop_map[symmetric])
  also have "\<dots> = sn_run (k_rcv_nxt k - of_nat (length ?l) + of_nat m) (length ?l - m)"
    by (rule sn_run_drop)
  also have "\<dots> = sn_run (k_rcv_nxt k - of_nat (length ?l - m)) (length ?l - m)"
    by (cases "m \<le> length ?l") (simp_all add: of_nat_diff algebra_simps)
  finally show ?thesis
    using assms by (auto simp: rcv_inv_def)
qed

text \<open>
  \<open>Recv\<close> on a connection with a readable message and a buffer that holds it: the count and the
  bytes are those of the next message, the queue loses exactly its segments, and whatever has
  become deliverable is appended.
\<close>

lemma kcp_Recv_correct:
  assumes inv: "kcp_inv k" and readable: "0 \<le> kcp_PeekSize k"
    and fits: "kcp_PeekSize k \<le> int (length buffer)"
  shows "\<exists>k' ms. kcp_Recv buffer k =
       Some (kcp_PeekSize k,
             msg_bytes (next_msg (rcv_queue_list k)) @ drop (nat (kcp_PeekSize k)) buffer, k')
     \<and> kcp_inv k'
     \<and> rcv_queue_list k' = drop (length (next_msg (rcv_queue_list k))) (rcv_queue_list k) @ ms
     \<and> rcv_buf_items k = rcv_buf_items k' + mset ms
     \<and> k_rcv_nxt k' = k_rcv_nxt k + of_nat (length ms)
     \<and> (\<exists>q h n p. k' = k\<lparr>k_rcv_queue := q, k_rcv_buf := h, k_rcv_nxt := n, k_probe := p\<rparr>)
     \<and> (length (rcv_queue_list k') < unat (k_rcv_wnd k) \<longrightarrow> k_rcv_nxt k' \<notin> sg_sn ` set_mset (rcv_buf_items k'))"
proof -
  let ?msg = "next_msg (rcv_queue_list k)"
  have rb: "rb_inv (k_rcv_queue k)" and rinv: "rcv_inv k"
    using inv by (auto simp: kcp_inv_def rcv_inv_def)
  have size: "kcp_PeekSize k = int (length (msg_bytes ?msg))"
    using readable kcp_PeekSize_correct[OF rb] by (auto split: list.splits if_splits)
  obtain q where merge: "recv_merge (Suc (rb_Len (k_rcv_queue k))) [] buffer 0 k =
      Some (msg_bytes ?msg @ drop (length (msg_bytes ?msg)) buffer, int (length (msg_bytes ?msg)),
            k\<lparr>k_rcv_queue := q\<rparr>)"
    and q: "rb_inv q" "rb_list q = drop (length ?msg) (rcv_queue_list k)"
    using recv_merge_correct[OF rb, of "Suc (rb_Len (k_rcv_queue k))" buffer "[]" 0] fits size
    by (auto simp: rb_Len_list[OF rb])
  let ?k1 = "k\<lparr>k_rcv_queue := q\<rparr>"
  have rinv1: "rcv_inv ?k1" using rcv_inv_consume[OF rinv q] .
  then have inv1: "kcp_inv ?k1" using inv by (simp add: kcp_inv_def)
  let ?k2 = "move_ready ?k1"
  let ?k3 = "if rb_Len (k_rcv_queue ?k2) < unat (k_rcv_wnd ?k2)
               \<and> rb_Len (k_rcv_queue k) \<ge> unat (k_rcv_wnd k)
             then ?k2\<lparr>k_probe := k_probe ?k2 OR IKCP_ASK_TELL\<rparr> else ?k2"
  have res: "kcp_Recv buffer k =
      Some (kcp_PeekSize k, msg_bytes ?msg @ drop (nat (kcp_PeekSize k)) buffer, ?k3)"
    using readable fits size merge by (simp add: kcp_Recv_def Let_def)
  obtain ms where "rcv_queue_list ?k2 = rb_list q @ ms"
      "rcv_buf_items k = rcv_buf_items ?k2 + mset ms" "k_rcv_nxt ?k2 = k_rcv_nxt k + of_nat (length ms)"
      "length (rcv_queue_list ?k2) < unat (k_rcv_wnd k) \<longrightarrow> k_rcv_nxt ?k2 \<notin> sg_sn ` set_mset (rcv_buf_items ?k2)"
    using move_ready_correct[OF rinv1] by auto
  moreover have "kcp_inv ?k3"
    using move_ready_inv[OF inv1] by (simp add: kcp_inv_def)
  moreover have "\<exists>q h n p. ?k3 = k\<lparr>k_rcv_queue := q, k_rcv_buf := h, k_rcv_nxt := n, k_probe := p\<rparr>"
  proof -
    obtain q' h' n' where f: "?k2 = ?k1\<lparr>k_rcv_queue := q', k_rcv_buf := h', k_rcv_nxt := n'\<rparr>"
      using move_ready_frame[of ?k1] by blast
    have "?k3 = k\<lparr>k_rcv_queue := q', k_rcv_buf := h', k_rcv_nxt := n', k_probe := k_probe ?k3\<rparr>"
      by (simp add: f)
    then show ?thesis by blast
  qed
  ultimately show ?thesis
    using res q(2) by (intro exI[of _ ?k3] exI[of _ ms]) simp
qed

lemma kcp_Recv_errors:
  "kcp_PeekSize k < 0 \<Longrightarrow> kcp_Recv buffer k = Some (-1, buffer, k)"
  "0 \<le> kcp_PeekSize k \<Longrightarrow> int (length buffer) < kcp_PeekSize k \<Longrightarrow>
     kcp_Recv buffer k = Some (-2, buffer, k)"
  by (simp_all add: kcp_Recv_def)

end
