(* ===== verification/Kcp_Ack.thy ===== *)
theory Kcp_Ack
  imports Kcp_State
begin

text \<open>
  How acknowledgements change the sender (\<open>kcp.go\<close>): the round-trip estimator
  \<open>update_ack\<close>, the selective acknowledgement \<open>parse_ack\<close>, the fast-retransmit counter
  \<open>parse_fastack\<close>, the cumulative acknowledgement \<open>parse_una\<close> with \<open>shrink_buf\<close>, and the
  queueing of acknowledgements to send, \<open>ack_push\<close>. All of them visit the segments in flight
  in place.
\<close>

section \<open>The code\<close>

text \<open>The estimator, on signed 32-bit words: \<open>>>\<close> is the arithmetic shift.\<close>

definition kcp_update_ack :: "i32 \<Rightarrow> KCP \<Rightarrow> KCP" where
  "kcp_update_ack rtt k =
     (let k = (if k_rx_srtt k = 0
               then k\<lparr>k_rx_srtt := rtt, k_rx_rttvar := signed_drop_bit 1 rtt\<rparr>
               else let delta = rtt - k_rx_srtt k;
                        k = k\<lparr>k_rx_srtt := k_rx_srtt k + signed_drop_bit 3 delta\<rparr>;
                        delta = (if sint delta < 0 then - delta else delta)
                    in if sint rtt < sint (k_rx_srtt k - k_rx_rttvar k)
                       then k\<lparr>k_rx_rttvar := k_rx_rttvar k + signed_drop_bit 5 (delta - k_rx_rttvar k)\<rparr>
                       else k\<lparr>k_rx_rttvar := k_rx_rttvar k + signed_drop_bit 2 (delta - k_rx_rttvar k)\<rparr>);
          rto = k_rx_srtt k + imax (k_interval k) (push_bit 2 (k_rx_rttvar k))
      in k\<lparr>k_rx_rto := ibound (k_rx_minrto k) rto IKCP_RTO_MAX\<rparr>)"

definition kcp_shrink_buf :: "KCP \<Rightarrow> KCP" where
  "kcp_shrink_buf k =
     (case rb_Peek (k_snd_buf k) of
        Some seg \<Rightarrow> k\<lparr>k_snd_una := sg_sn seg\<rparr>
      | None \<Rightarrow> k\<lparr>k_snd_una := k_snd_nxt k\<rparr>)"

definition recycleSegment :: "segment \<Rightarrow> segment" where
  "recycleSegment seg = seg\<lparr>sg_data := []\<rparr>"

definition ack_visit :: "u32 \<Rightarrow> segment \<Rightarrow> unit \<Rightarrow> bool \<times> segment \<times> unit" where
  "ack_visit sn seg u =
     (if sn = sg_sn seg then (False, recycleSegment (seg\<lparr>sg_acked := 1\<rparr>), ())
      else if itimediff sn (sg_sn seg) < 0 then (False, seg, ())
      else (True, seg, ()))"

definition kcp_parse_ack :: "u32 \<Rightarrow> KCP \<Rightarrow> KCP" where
  "kcp_parse_ack sn k =
     (if itimediff sn (k_snd_una k) < 0 \<or> itimediff sn (k_snd_nxt k) \<ge> 0 then k
      else k\<lparr>k_snd_buf := fst (rb_ForEach (ack_visit sn) (k_snd_buf k) ())\<rparr>)"

definition fastack_visit :: "u32 \<Rightarrow> u32 \<Rightarrow> segment \<Rightarrow> unit \<Rightarrow> bool \<times> segment \<times> unit" where
  "fastack_visit sn ts seg u =
     (if itimediff sn (sg_sn seg) < 0 then (False, seg, ())
      else if sn \<noteq> sg_sn seg \<and> itimediff (sg_ts seg) ts \<le> 0
      then (True, seg\<lparr>sg_fastack := sg_fastack seg + 1\<rparr>, ())
      else (True, seg, ()))"

definition kcp_parse_fastack :: "u32 \<Rightarrow> u32 \<Rightarrow> KCP \<Rightarrow> KCP" where
  "kcp_parse_fastack sn ts k =
     (if itimediff sn (k_snd_una k) < 0 \<or> itimediff sn (k_snd_nxt k) \<ge> 0 then k
      else k\<lparr>k_snd_buf := fst (rb_ForEach (fastack_visit sn ts) (k_snd_buf k) ())\<rparr>)"

definition una_visit :: "u32 \<Rightarrow> segment \<Rightarrow> int \<Rightarrow> bool \<times> segment \<times> int" where
  "una_visit una seg cnt =
     (if itimediff una (sg_sn seg) > 0 then (True, recycleSegment seg, cnt + 1) else (False, seg, cnt))"

definition kcp_parse_una :: "u32 \<Rightarrow> KCP \<Rightarrow> int \<times> KCP" where
  "kcp_parse_una una k =
     (let (b, cnt) = rb_ForEach (una_visit una) (k_snd_buf k) 0
      in (cnt, k\<lparr>k_snd_buf := snd (rb_Discard zero_seg cnt b)\<rparr>))"

definition kcp_ack_push :: "u32 \<Rightarrow> u32 \<Rightarrow> KCP \<Rightarrow> KCP" where
  "kcp_ack_push sn ts k = k\<lparr>k_acklist := k_acklist k @ [\<lparr>ack_sn = sn, ack_ts = ts\<rparr>]\<rparr>"

section \<open>The round-trip estimator\<close>

lemma update_ack_rto:
  assumes "k_rx_minrto k \<le> IKCP_RTO_MAX"
  shows "k_rx_minrto k \<le> k_rx_rto (kcp_update_ack rtt k)" and "k_rx_rto (kcp_update_ack rtt k) \<le> IKCP_RTO_MAX"
  using ibound_range(1)[OF assms] ibound_range(2) by (simp_all add: kcp_update_ack_def Let_def)

lemma update_ack_frame:
  "\<exists>s v r. kcp_update_ack rtt k = k\<lparr>k_rx_srtt := s, k_rx_rttvar := v, k_rx_rto := r\<rparr>"
proof -
  have "kcp_update_ack rtt k = k\<lparr>k_rx_srtt := k_rx_srtt (kcp_update_ack rtt k),
      k_rx_rttvar := k_rx_rttvar (kcp_update_ack rtt k), k_rx_rto := k_rx_rto (kcp_update_ack rtt k)\<rparr>"
    by (simp add: kcp_update_ack_def Let_def)
  then show ?thesis by metis
qed

lemma update_ack_inv: "kcp_inv k \<Longrightarrow> kcp_inv (kcp_update_ack rtt k)"
  using update_ack_frame[of rtt k] by (auto simp: kcp_inv_def)

lemma sint_signed_drop_bit: "sint (signed_drop_bit n w) = sint w div 2 ^ n" for w :: "32 word"
  by (simp add: sint_signed_drop_bit_eq drop_bit_eq_div)

text \<open>The smoothed estimate moves an eighth of the way towards the sample, never past it.\<close>

lemma update_ack_srtt:
  assumes "0 \<le> sint rtt" and "0 < sint (k_rx_srtt k)"
  shows "sint (k_rx_srtt (kcp_update_ack rtt k)) = sint (k_rx_srtt k) + (sint rtt - sint (k_rx_srtt k)) div 8"
proof -
  let ?s = "sint (k_rx_srtt k)" and ?r = "sint rtt"
  have range: "?s < 2 ^ 31" "?r < 2 ^ 31"
    using sint_less[of "k_rx_srtt k"] sint_less[of rtt] by simp_all
  have "rtt - k_rx_srtt k = word_of_int (?r - ?s)" by simp
  then have "sint (rtt - k_rx_srtt k) = ?r - ?s"
    using range assms by (simp only:) (rule sint_of_int32; linarith)
  then have d: "sint (signed_drop_bit 3 (rtt - k_rx_srtt k)) = (?r - ?s) div 8"
    by (simp add: sint_signed_drop_bit)
  have new: "k_rx_srtt (kcp_update_ack rtt k) = k_rx_srtt k + signed_drop_bit 3 (rtt - k_rx_srtt k)"
    using assms(2) by (auto simp: kcp_update_ack_def Let_def)
  have "\<dots> = word_of_int (?s + (?r - ?s) div 8)"
    by (simp add: d[symmetric])
  moreover have "- (2 ^ 31) \<le> ?s + (?r - ?s) div 8" "?s + (?r - ?s) div 8 < 2 ^ 31"
    using range assms by linarith+
  ultimately show ?thesis using new by (simp only: sint_of_int32)
qed

lemma update_ack_srtt_between:
  assumes "0 \<le> sint rtt" and "0 < sint (k_rx_srtt k)"
  shows "min (sint rtt) (sint (k_rx_srtt k)) \<le> sint (k_rx_srtt (kcp_update_ack rtt k))"
    and "sint (k_rx_srtt (kcp_update_ack rtt k)) \<le> max (sint rtt) (sint (k_rx_srtt k))"
  using update_ack_srtt[OF assms] by linarith+

section \<open>Segments in flight\<close>

text \<open>The sequence numbers in flight, by position.\<close>

lemma snd_buf_sn:
  assumes "snd_inv k" and "i < length (snd_buf_list k)"
  shows "sg_sn (snd_buf_list k ! i) = k_snd_nxt k - of_nat (length (snd_buf_list k)) + of_nat i"
proof -
  have "sg_sn (snd_buf_list k ! i) = map sg_sn (snd_buf_list k) ! i" using assms(2) by simp
  also have "\<dots> = sn_run (k_snd_nxt k - of_nat (length (snd_buf_list k))) (length (snd_buf_list k)) ! i"
    using assms(1) by (simp add: snd_inv_def)
  finally show ?thesis using assms(2) by (simp add: nth_sn_run)
qed

text \<open>Any buffer with the sequence numbers of a suffix and no more data keeps the invariant.\<close>

lemma snd_inv_suffix:
  assumes inv: "snd_inv k" and rb: "rb_inv b"
    and sns: "map sg_sn (rb_list b) = map sg_sn (drop m (snd_buf_list k))"
    and data: "\<forall>s \<in> set (rb_list b). flight_seg (k_conv k) (k_mss k) s"
  shows "snd_inv (k\<lparr>k_snd_buf := b\<rparr>)"
proof -
  let ?l = "snd_buf_list k"
  have len: "length (rb_list b) = length ?l - m"
    using arg_cong[OF sns, of length] by simp
  have "map sg_sn (rb_list b) = drop m (sn_run (k_snd_nxt k - of_nat (length ?l)) (length ?l))"
    using sns inv by (simp add: snd_inv_def drop_map[symmetric])
  also have "\<dots> = sn_run (k_snd_nxt k - of_nat (length ?l - m)) (length ?l - m)"
    by (cases "m \<le> length ?l") (simp_all add: sn_run_drop of_nat_diff algebra_simps)
  finally show ?thesis
    using inv rb data len by (auto simp: snd_inv_def)
qed

text \<open>A visit that keeps sequence numbers and adds no data keeps the invariant.\<close>

lemma snd_inv_visit:
  assumes inv: "snd_inv k" and sn: "\<And>x s. sg_sn (fst (snd (fn x s))) = sg_sn x"
    and data: "\<And>x s. flight_seg (k_conv k) (k_mss k) x \<Longrightarrow> flight_seg (k_conv k) (k_mss k) (fst (snd (fn x s)))"
  shows "snd_inv (k\<lparr>k_snd_buf := fst (rb_ForEach fn (k_snd_buf k) s)\<rparr>)"
proof (rule snd_inv_suffix[OF inv, where m = 0])
  have rb: "rb_inv (k_snd_buf k)" using inv by (simp add: snd_inv_def)
  then show "rb_inv (fst (rb_ForEach fn (k_snd_buf k) s))" by simp
  show "map sg_sn (rb_list (fst (rb_ForEach fn (k_snd_buf k) s))) = map sg_sn (drop 0 (snd_buf_list k))"
    using list_each_map_inv[of sg_sn fn, OF sn] rb by (simp add: rb_ForEach_list)
  show "\<forall>x \<in> set (rb_list (fst (rb_ForEach fn (k_snd_buf k) s))). flight_seg (k_conv k) (k_mss k) x"
    using list_each_list_all[of "flight_seg (k_conv k) (k_mss k)" fn "snd_buf_list k" s] data inv
    by (simp add: rb_ForEach_list[OF rb] list_all_iff snd_inv_def)
qed

lemma parse_ack_inv: "kcp_inv k \<Longrightarrow> kcp_inv (kcp_parse_ack sn k)"
  using snd_inv_visit[of k "ack_visit sn" "()"]
  by (auto simp: kcp_parse_ack_def kcp_inv_def ack_visit_def recycleSegment_def flight_seg_def)

lemma parse_fastack_inv: "kcp_inv k \<Longrightarrow> kcp_inv (kcp_parse_fastack sn ts k)"
  using snd_inv_visit[of k "fastack_visit sn ts" "()"]
  by (auto simp: kcp_parse_fastack_def kcp_inv_def fastack_visit_def flight_seg_def)

lemma shrink_buf_inv:
  assumes "kcp_inv k"
  shows "kcp_inv (kcp_shrink_buf k)"
    and "k_snd_una (kcp_shrink_buf k) = k_snd_nxt k - of_nat (length (snd_buf_list k))"
proof -
  have snd: "snd_inv k" and rb: "rb_inv (k_snd_buf k)" using assms by (auto simp: snd_inv_def)
  have una: "kcp_shrink_buf k = k\<lparr>k_snd_una := k_snd_nxt k - of_nat (length (snd_buf_list k))\<rparr>"
    using snd_buf_sn[OF snd, of 0] rb
    by (auto simp: kcp_shrink_buf_def rb_Peek_list split: list.split)
  then show "k_snd_una (kcp_shrink_buf k) = k_snd_nxt k - of_nat (length (snd_buf_list k))" by simp
  have "length (snd_buf_list k) < 2 ^ 32"
    using snd sn_off_less[of "k_snd_una k" "k_snd_nxt k"] by (auto simp: snd_inv_def)
  from sn_off_add[OF this, of "k_snd_nxt k - of_nat (length (snd_buf_list k))"]
  show "kcp_inv (kcp_shrink_buf k)"
    using assms unfolding una by (auto simp: kcp_inv_def snd_inv_def)
qed

lemma ack_push_inv: "kcp_inv k \<Longrightarrow> kcp_inv (kcp_ack_push sn ts k)"
  by (simp add: kcp_ack_push_def kcp_inv_def)

section \<open>The cumulative acknowledgement\<close>

lemma list_each_una:
  "list_each (una_visit una) xs n =
     (let m = length (takeWhile (\<lambda>s. itimediff una (sg_sn s) > 0) xs)
      in (m = length xs, map recycleSegment (take m xs) @ drop m xs, n + int m))"
  by (induction xs arbitrary: n) (simp_all add: una_visit_def Let_def)

lemma parse_una_correct:
  assumes "snd_inv k"
  shows "fst (kcp_parse_una una k) = int (length (takeWhile (\<lambda>s. itimediff una (sg_sn s) > 0) (snd_buf_list k)))"
    and "\<exists>b. snd (kcp_parse_una una k) = k\<lparr>k_snd_buf := b\<rparr> \<and> rb_inv b
         \<and> rb_list b = dropWhile (\<lambda>s. itimediff una (sg_sn s) > 0) (snd_buf_list k)"
proof -
  let ?m = "length (takeWhile (\<lambda>s. itimediff una (sg_sn s) > 0) (snd_buf_list k))"
  have rb: "rb_inv (k_snd_buf k)" using assms by (simp add: snd_inv_def)
  obtain b cnt where each: "rb_ForEach (una_visit una) (k_snd_buf k) 0 = (b, cnt)" by fastforce
  have b: "rb_inv b" "rb_list b = map recycleSegment (take ?m (snd_buf_list k)) @ drop ?m (snd_buf_list k)"
      "cnt = int ?m"
    using rb_ForEach_correct[OF rb, of "una_visit una" 0] each by (simp_all add: list_each_una Let_def)
  have res: "kcp_parse_una una k = (cnt, k\<lparr>k_snd_buf := snd (rb_Discard zero_seg cnt b)\<rparr>)"
    by (simp add: kcp_parse_una_def each)
  show "fst (kcp_parse_una una k) = int ?m" using res b(3) by simp
  have le: "?m \<le> length (snd_buf_list k)" by (rule length_takeWhile_le)
  have "drop ?m (rb_list b) = dropWhile (\<lambda>s. itimediff una (sg_sn s) > 0) (snd_buf_list k)"
    unfolding b(2) using le by (simp add: dropWhile_eq_drop)
  then have "rb_list (snd (rb_Discard zero_seg cnt b))
      = dropWhile (\<lambda>s. itimediff una (sg_sn s) > 0) (snd_buf_list k)"
    using rb_Discard_correct(2)[OF b(1), of zero_seg cnt] b(3) by simp
  then show "\<exists>b. snd (kcp_parse_una una k) = k\<lparr>k_snd_buf := b\<rparr> \<and> rb_inv b
         \<and> rb_list b = dropWhile (\<lambda>s. itimediff una (sg_sn s) > 0) (snd_buf_list k)"
    using res b(1) by auto
qed

lemma parse_una_inv:
  assumes "kcp_inv k"
  shows "kcp_inv (snd (kcp_parse_una una k))"
proof -
  have snd: "snd_inv k" using assms by auto
  obtain b where b: "snd (kcp_parse_una una k) = k\<lparr>k_snd_buf := b\<rparr>" "rb_inv b"
    "rb_list b = dropWhile (\<lambda>s. itimediff una (sg_sn s) > 0) (snd_buf_list k)"
    using parse_una_correct(2)[OF snd] by blast
  have "\<forall>s \<in> set (rb_list b). flight_seg (k_conv k) (k_mss k) s"
    using snd unfolding b(3) by (auto simp: snd_inv_def dest: set_dropWhileD)
  then have "snd_inv (k\<lparr>k_snd_buf := b\<rparr>)"
    by (rule snd_inv_suffix[OF snd b(2), rotated]) (simp add: b(3) dropWhile_eq_drop)
  then show ?thesis using assms unfolding b(1) by (simp add: kcp_inv_def)
qed

text \<open>
  An \<open>una\<close> field that acknowledges the first \<open>m\<close> segments in flight removes exactly them, and
  \<open>snd_una\<close> then is that field.
\<close>

lemma takeWhile_run:
  assumes "map sg_sn xs = sn_run a (length xs)" and "length xs < 2 ^ 31" and "m \<le> length xs"
  shows "takeWhile (\<lambda>s. itimediff (a + of_nat m) (sg_sn s) > 0) xs = take m xs"
proof -
  have nth: "sg_sn (xs ! i) = a + of_nat i" if "i < length xs" for i
    using that assms(1) by (metis nth_map nth_sn_run)
  have diff: "itimediff (a + of_nat m) (sg_sn (xs ! i)) = int m - int i" if "i < length xs" for i
  proof -
    have "sn_off a (a + of_nat m) = m" "sn_off a (a + of_nat i) = i"
      using assms that by (simp_all add: sn_off_add)
    then show ?thesis
      using itimediff_off[of a "a + of_nat m" "a + of_nat i"] assms that nth by simp
  qed
  show ?thesis
    by (rule takeWhile_eq_take_P_nth) (use assms(3) diff in auto)
qed

lemma parse_una_shrink:
  assumes inv: "kcp_inv k" and m: "m \<le> length (snd_buf_list k)"
    and una: "una = k_snd_nxt k - of_nat (length (snd_buf_list k)) + of_nat m"
  shows "fst (kcp_parse_una una k) = int m"
    and "snd_buf_list (kcp_shrink_buf (snd (kcp_parse_una una k))) = drop m (snd_buf_list k)"
    and "k_snd_una (kcp_shrink_buf (snd (kcp_parse_una una k))) = una"
proof -
  let ?l = "snd_buf_list k" and ?a = "k_snd_nxt k - of_nat (length (snd_buf_list k))"
  have snd: "snd_inv k" and cfg: "cfg_inv k" using inv by auto
  have run: "map sg_sn ?l = sn_run ?a (length ?l)" and lt: "length ?l < 2 ^ 31"
    using snd cfg by (auto simp: snd_inv_def cfg_inv_def)
  note tw = takeWhile_run[OF run lt m]
  show "fst (kcp_parse_una una k) = int m"
    using parse_una_correct(1)[OF snd, of una] m unfolding una tw by simp
  obtain b where b: "snd (kcp_parse_una una k) = k\<lparr>k_snd_buf := b\<rparr>"
    "rb_list b = dropWhile (\<lambda>s. itimediff una (sg_sn s) > 0) ?l"
    using parse_una_correct(2)[OF snd] by blast
  have drop: "rb_list b = drop m ?l"
    using b(2) tw m unfolding una by (simp add: dropWhile_eq_drop)
  have same: "snd_buf_list (kcp_shrink_buf k') = snd_buf_list k'" for k'
    by (simp add: kcp_shrink_buf_def split: option.split)
  show "snd_buf_list (kcp_shrink_buf (snd (kcp_parse_una una k))) = drop m ?l"
    using b(1) drop same by simp
  have "k_snd_una (kcp_shrink_buf (snd (kcp_parse_una una k)))
      = k_snd_nxt k - of_nat (length ?l - m)"
    using shrink_buf_inv(2)[OF parse_una_inv[OF inv, of una]] b(1) drop by simp
  then show "k_snd_una (kcp_shrink_buf (snd (kcp_parse_una una k))) = una"
    using m by (simp add: una of_nat_diff)
qed

section \<open>The selective acknowledgement\<close>

text \<open>The position of a sequence number in flight, against the segments before and after it.\<close>

lemma in_flight:
  assumes inv: "kcp_inv k" and tight: "k_snd_una k = k_snd_nxt k - of_nat (length (snd_buf_list k))"
    and i: "i < length (snd_buf_list k)" and sn: "sn = k_snd_una k + of_nat i"
  shows "\<not> (itimediff sn (k_snd_una k) < 0 \<or> itimediff sn (k_snd_nxt k) \<ge> 0)"
    and "j < length (snd_buf_list k) \<Longrightarrow> itimediff sn (sg_sn (snd_buf_list k ! j)) = int i - int j"
    and "sg_sn (snd_buf_list k ! i) = sn"
proof -
  let ?n = "length (snd_buf_list k)"
  have snd: "snd_inv k" and cfg: "cfg_inv k" using inv by auto
  have lt: "?n < 2 ^ 31" using snd cfg by (auto simp: snd_inv_def cfg_inv_def)
  have off: "sn_off (k_snd_una k) sn = i" using i lt sn by (simp add: sn_off_add)
  have offn: "sn_off (k_snd_una k) (k_snd_nxt k) = ?n"
    using tight lt sn_off_add[of ?n "k_snd_una k"] by simp
  show "\<not> (itimediff sn (k_snd_una k) < 0 \<or> itimediff sn (k_snd_nxt k) \<ge> 0)"
    using itimediff_off[of "k_snd_una k" sn "k_snd_una k"]
      itimediff_off[of "k_snd_una k" sn "k_snd_nxt k"] off offn i lt by simp
  show "itimediff sn (sg_sn (snd_buf_list k ! j)) = int i - int j" if "j < ?n"
  proof -
    have "sg_sn (snd_buf_list k ! j) = k_snd_una k + of_nat j"
      using snd_buf_sn[OF snd that] tight by simp
    moreover have "sn_off (k_snd_una k) (k_snd_una k + of_nat j) = j"
      using that lt by (simp add: sn_off_add)
    ultimately show ?thesis
      using itimediff_off[of "k_snd_una k" sn "k_snd_una k + of_nat j"] off that i lt by simp
  qed
  show "sg_sn (snd_buf_list k ! i) = sn"
    using snd_buf_sn[OF snd i] tight sn by simp
qed

lemma list_each_ack:
  assumes "i < length xs" and "sg_sn (xs ! i) = sn"
    and "\<And>j. j < i \<Longrightarrow> itimediff sn (sg_sn (xs ! j)) > 0"
  shows "fst (snd (list_each (ack_visit sn) xs ())) = xs[i := recycleSegment ((xs ! i)\<lparr>sg_acked := 1\<rparr>)]"
  using assms
proof (induction xs arbitrary: i)
  case Nil
  then show ?case by simp
next
  case (Cons x xs)
  show ?case
  proof (cases i)
    case 0
    then show ?thesis using Cons.prems(2) by (simp add: list_each_Cons ack_visit_def del: list_each.simps(2))
  next
    case (Suc i')
    have "itimediff sn (sg_sn x) > 0" using Cons.prems(3)[of 0] Suc by simp
    moreover from this have "sn \<noteq> sg_sn x" by auto
    moreover have "\<And>j. j < i' \<Longrightarrow> itimediff sn (sg_sn (xs ! j)) > 0"
      using Cons.prems(3)[of "Suc j" for j] Suc by simp
    ultimately show ?thesis
      using Cons.IH[of i'] Cons.prems(1,2) Suc
      by (simp add: list_each_Cons ack_visit_def del: list_each.simps(2))
  qed
qed

lemma parse_ack_marks:
  assumes inv: "kcp_inv k" and tight: "k_snd_una k = k_snd_nxt k - of_nat (length (snd_buf_list k))"
    and i: "i < length (snd_buf_list k)"
  shows "snd_buf_list (kcp_parse_ack (k_snd_una k + of_nat i) k) =
    (snd_buf_list k)[i := recycleSegment ((snd_buf_list k ! i)\<lparr>sg_acked := 1\<rparr>)]"
proof -
  have rb: "rb_inv (k_snd_buf k)" using inv by (auto simp: snd_inv_def)
  note fl = in_flight[OF inv tight i refl]
  have "fst (snd (list_each (ack_visit (k_snd_una k + of_nat i)) (snd_buf_list k) ())) =
    (snd_buf_list k)[i := recycleSegment ((snd_buf_list k ! i)\<lparr>sg_acked := 1\<rparr>)]"
    using fl(2) i by (intro list_each_ack fl(3) i) simp
  then show ?thesis
    using fl(1) rb by (simp add: kcp_parse_ack_def rb_ForEach_list)
qed

lemma parse_ack_outside:
  "itimediff sn (k_snd_una k) < 0 \<or> itimediff sn (k_snd_nxt k) \<ge> 0 \<Longrightarrow> kcp_parse_ack sn k = k"
  by (simp add: kcp_parse_ack_def)

section \<open>Skipped segments\<close>

lemma list_each_fastack:
  assumes "i < length xs" and "\<And>j. j < length xs \<Longrightarrow> itimediff sn (sg_sn (xs ! j)) = int i - int j"
  shows "fst (snd (list_each (fastack_visit sn ts) xs ())) =
    map (\<lambda>s. if itimediff (sg_ts s) ts \<le> 0 then s\<lparr>sg_fastack := sg_fastack s + 1\<rparr> else s) (take i xs)
      @ drop i xs"
  using assms
proof (induction xs arbitrary: i)
  case Nil
  then show ?case by simp
next
  case (Cons x xs)
  have x: "itimediff sn (sg_sn x) = int i" using Cons.prems(2)[of 0] by simp
  have rest: "\<And>j. j < length xs \<Longrightarrow> itimediff sn (sg_sn (xs ! j)) = int i - 1 - int j"
    using Cons.prems(2)[of "Suc j" for j] by simp
  show ?case
  proof (cases i)
    case 0
    have "sg_sn x = sn" using x 0 by simp
    moreover have "fst (snd (list_each (fastack_visit sn ts) xs ())) = xs"
      using rest[of 0] 0 by (cases xs) (simp_all add: list_each_Cons fastack_visit_def del: list_each.simps(2))
    ultimately have "fastack_visit sn ts x () = (True, x, ())"
        "fst (snd (list_each (fastack_visit sn ts) xs ())) = xs"
      using x 0 by (simp_all add: fastack_visit_def)
    then show ?thesis
      using 0 by (simp add: list_each_Cons del: list_each.simps(2))
  next
    case (Suc i')
    then have "fastack_visit sn ts x () =
        (True, if itimediff (sg_ts x) ts \<le> 0 then x\<lparr>sg_fastack := sg_fastack x + 1\<rparr> else x, ())"
      using x by (auto simp: fastack_visit_def)
    then show ?thesis
      using Cons.IH[of i'] Cons.prems(1) rest Suc
      by (simp add: list_each_Cons del: list_each.simps(2))
  qed
qed

lemma parse_fastack_counts:
  assumes inv: "kcp_inv k" and tight: "k_snd_una k = k_snd_nxt k - of_nat (length (snd_buf_list k))"
    and i: "i < length (snd_buf_list k)"
  shows "snd_buf_list (kcp_parse_fastack (k_snd_una k + of_nat i) ts k) =
    map (\<lambda>s. if itimediff (sg_ts s) ts \<le> 0 then s\<lparr>sg_fastack := sg_fastack s + 1\<rparr> else s)
        (take i (snd_buf_list k)) @ drop i (snd_buf_list k)"
proof -
  have rb: "rb_inv (k_snd_buf k)" using inv by (auto simp: snd_inv_def)
  note fl = in_flight[OF inv tight i refl]
  show ?thesis
    using fl(1) rb list_each_fastack[OF i fl(2), of ts]
    by (simp add: kcp_parse_fastack_def rb_ForEach_list)
qed

end
