(* ===== verification/Kcp_Flush.thy ===== *)
theory Kcp_Flush
  imports Kcp_Ack
begin

text \<open>
  \<open>flush\<close> of \<open>kcp.go\<close>: everything a connection puts on the wire. It packs pending
  acknowledgements, window probes and data segments (new ones and retransmissions) into
  datagrams of at most one MTU, hands the full ones to the output callback on the way and the
  last one at the end, and updates the congestion window.

  The closures \<open>makeSpace\<close> and \<open>flushBuffer\<close> work on the position in the send buffer and the
  datagrams handed over so far (\<open>writer\<close>). The counters \<open>fastRetransSegs\<close> and
  \<open>earlyRetransSegs\<close> are never read and are left out.
\<close>

section \<open>The code\<close>

type_synonym writer = "wptr \<times> bytes list"

text \<open>\<open>size\<close> in the code, \<open>len(buffer) - len(ptr)\<close>, is the number of bytes before \<open>ptr\<close>.\<close>

fun makeSpace :: "nat \<Rightarrow> nat \<Rightarrow> nat \<Rightarrow> writer \<Rightarrow> writer" where
  "makeSpace mtu buflen space ((w, room), out) =
     (if length w + space > mtu then (([], buflen), out @ [w]) else ((w, room), out))"

fun flushBuffer :: "writer \<Rightarrow> bytes list" where
  "flushBuffer ((w, room), out) = (if length w > 0 then out @ [w] else out)"

fun put_header :: "segment \<Rightarrow> writer \<Rightarrow> writer option" where
  "put_header seg (ptr, out) = map_option (\<lambda>p. (p, out)) (seg_encode seg ptr)"

text \<open>\<open>copy(ptr, segment.data); ptr = ptr[len(segment.data):]\<close>\<close>

fun put_data :: "bytes \<Rightarrow> writer \<Rightarrow> writer option" where
  "put_data d ((w, room), out) =
     (if length d > room then None else Some ((w @ d, room - length d), out))"

fun flush_acks :: "KCP \<Rightarrow> ackItem list \<Rightarrow> segment \<Rightarrow> writer \<Rightarrow> (segment \<times> writer) option" where
  "flush_acks k [] seg wr = Some (seg, wr)"
| "flush_acks k (ack # rest) seg wr =
     (let wr = makeSpace (unat (k_mtu k)) (k_buffer k) IKCP_OVERHEAD wr
      in if itimediff (ack_sn ack) (k_rcv_nxt k) \<ge> 0 \<or> rest = []
         then let seg = seg\<lparr>sg_sn := ack_sn ack, sg_ts := ack_ts ack\<rparr>
              in (case put_header seg wr of None \<Rightarrow> None | Some wr \<Rightarrow> flush_acks k rest seg wr)
         else flush_acks k rest seg wr)"

definition flush_probe_wait :: "clock \<Rightarrow> KCP \<Rightarrow> KCP" where
  "flush_probe_wait clk k =
     (if k_rmt_wnd k = 0
      then let (current, k) = currentMs clk k
           in if k_probe_wait k = 0
              then k\<lparr>k_probe_wait := IKCP_PROBE_INIT, k_ts_probe := current + IKCP_PROBE_INIT\<rparr>
              else if itimediff current (k_ts_probe k) \<ge> 0
              then let pw = (if k_probe_wait k < IKCP_PROBE_INIT then IKCP_PROBE_INIT
                             else k_probe_wait k);
                       pw = pw + pw div 2;
                       pw = (if pw > IKCP_PROBE_LIMIT then IKCP_PROBE_LIMIT else pw)
                   in k\<lparr>k_probe_wait := pw, k_ts_probe := current + pw,
                        k_probe := k_probe k OR IKCP_ASK_SEND\<rparr>
              else k
      else k\<lparr>k_ts_probe := 0, k_probe_wait := 0\<rparr>)"

text \<open>One of the two probe commands: \<open>seg.cmd\<close> is set only when the probe flag is.\<close>

definition flush_probe_cmd :: "KCP \<Rightarrow> u32 \<Rightarrow> byte \<Rightarrow> segment \<times> writer \<Rightarrow> (segment \<times> writer) option" where
  "flush_probe_cmd k flag cmd sw =
     (case sw of (seg, wr) \<Rightarrow>
        if k_probe k AND flag \<noteq> 0
        then let seg = seg\<lparr>sg_cmd := cmd\<rparr>;
                 wr = makeSpace (unat (k_mtu k)) (k_buffer k) IKCP_OVERHEAD wr
             in map_option (\<lambda>wr. (seg, wr)) (put_header seg wr)
        else Some (seg, wr))"

text \<open>
  Moving segments from the queue into flight while the window has room. The fuel is one more
  than the number of queued segments, of which every iteration takes one.
\<close>

fun flush_move :: "nat \<Rightarrow> u32 \<Rightarrow> nat \<Rightarrow> KCP \<Rightarrow> (nat \<times> KCP) option" where
  "flush_move 0 cwnd newSegsCount k = None"
| "flush_move (Suc fuel) cwnd newSegsCount k =
     (if itimediff (k_snd_nxt k) (k_snd_una k + cwnd) \<ge> 0 then Some (newSegsCount, k)
      else case rb_Pop zero_seg (k_snd_queue k) of
             (None, q) \<Rightarrow> Some (newSegsCount, k\<lparr>k_snd_queue := q\<rparr>)
           | (Some seg, q) \<Rightarrow>
               let newseg = seg\<lparr>sg_conv := k_conv k, sg_cmd := IKCP_CMD_PUSH, sg_sn := k_snd_nxt k\<rparr>
               in flush_move fuel cwnd (newSegsCount + 1)
                    (k\<lparr>k_snd_queue := q, k_snd_buf := rb_Push zero_seg newseg (k_snd_buf k),
                       k_snd_nxt := k_snd_nxt k + 1\<rparr>))"

text \<open>The variables the retransmission loop updates; \<open>None\<close> after a panic.\<close>

record retrans =
  rt_current :: u32
  rt_change :: nat
  rt_lost :: nat
  rt_minrto :: int
  rt_wr :: writer
  rt_state :: u32
  rt_reads :: nat

text \<open>Whether a segment is (re)transmitted now, its new timers, and the loss counters.\<close>

definition need_send :: "KCP \<Rightarrow> u32 \<Rightarrow> nat \<Rightarrow> segment \<Rightarrow> retrans \<Rightarrow> bool \<times> segment \<times> retrans" where
  "need_send k resent newSegsCount segment rt =
     (let current = rt_current rt
      in if sg_xmit segment = 0
         then (True, segment\<lparr>sg_rto := k_rx_rto k, sg_resendts := current + k_rx_rto k\<rparr>, rt)
         else if sg_fastack segment \<ge> resent
         then (True, segment\<lparr>sg_fastack := 0, sg_rto := k_rx_rto k, sg_resendts := current + k_rx_rto k\<rparr>,
               rt\<lparr>rt_change := rt_change rt + 1\<rparr>)
         else if sg_fastack segment > 0 \<and> newSegsCount = 0
         then (True, segment\<lparr>sg_fastack := 0, sg_rto := k_rx_rto k, sg_resendts := current + k_rx_rto k\<rparr>,
               rt\<lparr>rt_change := rt_change rt + 1\<rparr>)
         else if itimediff current (sg_resendts segment) \<ge> 0
         then let rto = (if k_nodelay k = 0 then sg_rto segment + k_rx_rto k
                         else sg_rto segment + k_rx_rto k div 2)
              in (True, segment\<lparr>sg_rto := rto, sg_fastack := 0, sg_resendts := current + rto\<rparr>,
                  rt\<lparr>rt_lost := rt_lost rt + 1\<rparr>)
         else (False, segment, rt))"

text \<open>The transmission itself.\<close>

definition send_segment ::
    "clock \<Rightarrow> KCP \<Rightarrow> segment \<Rightarrow> segment \<Rightarrow> retrans \<Rightarrow> segment \<times> retrans option" where
  "send_segment clk k seg segment rt =
     (let current = clk (rt_reads rt);
          rt = rt\<lparr>rt_current := current, rt_reads := rt_reads rt + 1\<rparr>;
          segment = segment\<lparr>sg_xmit := sg_xmit segment + 1, sg_ts := current, sg_wnd := sg_wnd seg,
                            sg_una := sg_una seg\<rparr>;
          need = IKCP_OVERHEAD + length (sg_data segment);
          wr = makeSpace (unat (k_mtu k)) (k_buffer k) need (rt_wr rt)
      in (segment, do {
            wr \<leftarrow> put_header segment wr;
            wr \<leftarrow> put_data (sg_data segment) wr;
            let rt = rt\<lparr>rt_wr := wr\<rparr>;
            Some (if sg_xmit segment \<ge> k_dead_link k then rt\<lparr>rt_state := 0xFFFFFFFF\<rparr> else rt)
          }))"

text \<open>The body of the retransmission loop.\<close>

definition send_visit ::
    "clock \<Rightarrow> KCP \<Rightarrow> u32 \<Rightarrow> nat \<Rightarrow> segment \<Rightarrow> segment \<Rightarrow> retrans option
       \<Rightarrow> bool \<times> segment \<times> retrans option" where
  "send_visit clk k resent newSegsCount seg segment st =
     (case st of
        None \<Rightarrow> (False, segment, None)
      | Some rt \<Rightarrow>
          if sg_acked segment = 1 then (True, segment, Some rt)
          else (case need_send k resent newSegsCount segment rt of (needsend, segment, rt) \<Rightarrow>
                (case (if needsend then send_segment clk k seg segment rt else (segment, Some rt)) of
                   (segment, None) \<Rightarrow> (False, segment, None)
                 | (segment, Some rt) \<Rightarrow>
                     let rto = itimediff (sg_resendts segment) (rt_current rt)
                     in (True, segment,
                         Some (if rto > 0 \<and> rto < rt_minrto rt then rt\<lparr>rt_minrto := rto\<rparr> else rt)))))"

text \<open>The congestion window after the loop.\<close>

definition flush_congestion :: "u32 \<Rightarrow> u32 \<Rightarrow> nat \<Rightarrow> nat \<Rightarrow> KCP \<Rightarrow> KCP" where
  "flush_congestion cwnd resent change lostSegs k =
     (if k_nocwnd k = 0
      then let k = (if change > 0
                    then let inflight = k_snd_nxt k - k_snd_una k;
                             ss = (if inflight div 2 < IKCP_THRESH_MIN then IKCP_THRESH_MIN
                                   else inflight div 2)
                         in k\<lparr>k_ssthresh := ss, k_cwnd := ss + resent, k_incr := (ss + resent) * k_mss k\<rparr>
                    else k);
               k = (if lostSegs > 0
                    then k\<lparr>k_ssthresh := (if cwnd div 2 < IKCP_THRESH_MIN then IKCP_THRESH_MIN
                                          else cwnd div 2),
                           k_cwnd := 1, k_incr := k_mss k\<rparr>
                    else k)
           in if k_cwnd k < 1 then k\<lparr>k_cwnd := 1, k_incr := k_mss k\<rparr> else k
      else k)"

text \<open>From the computation of the send window on: what a flush does unless \<open>ackOnly\<close>.\<close>

definition flush_data :: "clock \<Rightarrow> segment \<Rightarrow> writer \<Rightarrow> KCP \<Rightarrow> (u32 \<times> KCP) option" where
  "flush_data clk seg wr k = do {
     let cwnd = imin (k_snd_wnd k) (k_rmt_wnd k);
     let cwnd = (if k_nocwnd k = 0 then imin (k_cwnd k) cwnd else cwnd);
     (newSegsCount, k) \<leftarrow> flush_move (Suc (rb_Len (k_snd_queue k))) cwnd 0 k;
     let resent = (if sint (k_fastresend k) \<le> 0 then 0xffffffff else k_fastresend k);
     let (current, k) = currentMs clk k;
     let (b, st) = rb_ForEach (send_visit clk k resent newSegsCount seg) (k_snd_buf k)
           (Some \<lparr>rt_current = current, rt_change = 0, rt_lost = 0, rt_minrto = sint (k_interval k),
                  rt_wr = wr, rt_state = k_state k, rt_reads = k_reads k\<rparr>);
     rt \<leftarrow> st;
     let k = k\<lparr>k_snd_buf := b, k_state := rt_state rt, k_reads := rt_reads rt,
               k_output := k_output k @ flushBuffer (rt_wr rt)\<rparr>;
     let k = flush_congestion cwnd resent (rt_change rt) (rt_lost rt) k;
     Some (word_of_int (rt_minrto rt), k)
   }"

definition kcp_flush :: "clock \<Rightarrow> bool \<Rightarrow> KCP \<Rightarrow> (u32 \<times> KCP) option" where
  "kcp_flush clk ackOnly k = do {
     let seg = zero_seg\<lparr>sg_conv := k_conv k, sg_cmd := IKCP_CMD_ACK, sg_wnd := kcp_wnd_unused k,
                        sg_una := k_rcv_nxt k\<rparr>;
     (seg, wr) \<leftarrow> flush_acks k (k_acklist k) seg (([], k_buffer k), []);
     let k = k\<lparr>k_acklist := []\<rparr>;
     if ackOnly then Some (k_interval k, k\<lparr>k_output := k_output k @ flushBuffer wr\<rparr>)
     else do {
       let k = flush_probe_wait clk k;
       (seg, wr) \<leftarrow> flush_probe_cmd k IKCP_ASK_SEND IKCP_CMD_WASK (seg, wr);
       (seg, wr) \<leftarrow> flush_probe_cmd k IKCP_ASK_TELL IKCP_CMD_WINS (seg, wr);
       flush_data clk seg wr (k\<lparr>k_probe := 0\<rparr>)
     }
   }"

section \<open>Packing datagrams\<close>

text \<open>What a datagram is made of: whole segments, one after the other.\<close>

definition seg_bytes :: "segment \<Rightarrow> bytes" where
  "seg_bytes s = seg_header s @ sg_data s"

definition packed :: "(segment \<Rightarrow> bool) \<Rightarrow> bytes \<Rightarrow> bool" where
  "packed P d \<longleftrightarrow> (\<exists>ss. d = concat (map seg_bytes ss) \<and> (\<forall>s \<in> set ss. P s))"

text \<open>A datagram ready for the output callback: not empty, at most one MTU, whole segments.\<close>

definition datagram_ok :: "nat \<Rightarrow> (segment \<Rightarrow> bool) \<Rightarrow> bytes \<Rightarrow> bool" where
  "datagram_ok mtu P d \<longleftrightarrow> d \<noteq> [] \<and> length d \<le> mtu \<and> packed P d"

fun wr_ok :: "nat \<Rightarrow> (segment \<Rightarrow> bool) \<Rightarrow> writer \<Rightarrow> bool" where
  "wr_ok mtu P ((w, room), out) \<longleftrightarrow>
     length w + room = mtu \<and> packed P w \<and> (\<forall>d \<in> set out. datagram_ok mtu P d)"

lemma length_seg_bytes: "length (seg_bytes s) = IKCP_OVERHEAD + length (sg_data s)"
  by (simp add: seg_bytes_def)

lemma packed_Nil [simp]: "packed P []"
  by (auto simp: packed_def intro!: exI[of _ "[]"])

lemma packed_snoc: "packed P d \<Longrightarrow> P s \<Longrightarrow> packed P (d @ seg_bytes s)"
  unfolding packed_def by (elim exE) (rule_tac x = "ss @ [s]" in exI, simp)

lemma packed_mono: "packed P d \<Longrightarrow> (\<And>s. P s \<Longrightarrow> Q s) \<Longrightarrow> packed Q d"
  unfolding packed_def by blast

lemma datagram_ok_mono: "datagram_ok mtu P d \<Longrightarrow> (\<And>s. P s \<Longrightarrow> Q s) \<Longrightarrow> datagram_ok mtu Q d"
  unfolding datagram_ok_def using packed_mono[of P d Q] by blast

lemma makeSpace_ok:
  assumes "wr_ok mtu P wr" and "sp \<le> mtu"
  shows "wr_ok mtu P (makeSpace mtu mtu sp wr)" and "sp \<le> snd (fst (makeSpace mtu mtu sp wr))"
proof -
  obtain w room out where wr: "wr = ((w, room), out)" by (metis prod.collapse)
  show "wr_ok mtu P (makeSpace mtu mtu sp wr)" and "sp \<le> snd (fst (makeSpace mtu mtu sp wr))"
    using assms by (auto simp: wr datagram_ok_def)
qed

text \<open>Writing a whole segment after making room for it never panics.\<close>

lemma put_segment_ok:
  assumes "wr_ok mtu P wr" and "IKCP_OVERHEAD + length (sg_data s) \<le> mtu" and "P s"
  shows "\<exists>wr'. (do { w \<leftarrow> put_header s (makeSpace mtu mtu (IKCP_OVERHEAD + length (sg_data s)) wr);
                    put_data (sg_data s) w }) = Some wr' \<and> wr_ok mtu P wr'"
proof -
  obtain w room out where ms: "makeSpace mtu mtu (IKCP_OVERHEAD + length (sg_data s)) wr = ((w, room), out)"
    by (metis prod.collapse)
  have ok: "wr_ok mtu P ((w, room), out)" "IKCP_OVERHEAD + length (sg_data s) \<le> room"
    using makeSpace_ok[OF assms(1,2)] unfolding ms by simp_all
  have pk: "packed P (w @ seg_header s @ sg_data s)"
    using packed_snoc[of P w s] ok(1) assms(3) by (simp add: seg_bytes_def)
  show ?thesis
    using ok pk by (simp add: ms seg_encode_eq)
qed

lemma put_header_ok:
  assumes "wr_ok mtu P wr" and "IKCP_OVERHEAD \<le> mtu" and "P s" and "sg_data s = []"
  shows "\<exists>wr'. put_header s (makeSpace mtu mtu IKCP_OVERHEAD wr) = Some wr' \<and> wr_ok mtu P wr'"
proof -
  have nop: "put_data [] w = Some w" for w by (cases w, cases "fst w") auto
  have eq: "(do { w \<leftarrow> x; put_data [] w }) = x" for x by (cases x) (simp_all add: nop)
  show ?thesis
    using put_segment_ok[OF assms(1) _ assms(3)] assms(2,4) by (simp add: eq)
qed

lemma flushBuffer_ok: "wr_ok mtu P wr \<Longrightarrow> \<forall>d \<in> set (flushBuffer wr). datagram_ok mtu P d"
  by (cases wr, cases "fst wr") (auto simp: datagram_ok_def)

section \<open>Acknowledgements and probes\<close>

text \<open>The acknowledgements for a list of received segments, and their two probe relatives.\<close>

lemma flush_acks_ok:
  assumes "wr_ok (unat (k_mtu k)) P wr" and "k_buffer k = unat (k_mtu k)" and "50 \<le> unat (k_mtu k)"
    and "sg_data seg = []"
    and "\<And>a. a \<in> set acks \<Longrightarrow> P (seg\<lparr>sg_sn := ack_sn a, sg_ts := ack_ts a\<rparr>)"
  shows "\<exists>sn ts wr'. flush_acks k acks seg wr = Some (seg\<lparr>sg_sn := sn, sg_ts := ts\<rparr>, wr')
           \<and> wr_ok (unat (k_mtu k)) P wr'"
  using assms(1,4,5)
proof (induction acks arbitrary: seg wr)
  case Nil
  have "seg = seg\<lparr>sg_sn := sg_sn seg, sg_ts := sg_ts seg\<rparr>" by simp
  then show ?case using Nil.prems(1) by (metis flush_acks.simps(1))
next
  case (Cons a acks)
  let ?wr = "makeSpace (unat (k_mtu k)) (k_buffer k) IKCP_OVERHEAD wr"
  let ?seg = "seg\<lparr>sg_sn := ack_sn a, sg_ts := ack_ts a\<rparr>"
  have ms: "wr_ok (unat (k_mtu k)) P ?wr"
    using makeSpace_ok(1)[OF Cons.prems(1), of IKCP_OVERHEAD] assms(2,3) by simp
  obtain wr' where put: "put_header ?seg ?wr = Some wr'" "wr_ok (unat (k_mtu k)) P wr'"
    using put_header_ok[OF Cons.prems(1), of ?seg] Cons.prems(2,3) assms(2,3) by auto
  show ?case
  proof (cases "itimediff (ack_sn a) (k_rcv_nxt k) \<ge> 0 \<or> acks = []")
    case True
    then show ?thesis
      using Cons.IH[of wr' ?seg] put Cons.prems(2,3) by (simp add: Let_def)
  next
    case False
    then show ?thesis
      using Cons.IH[OF ms Cons.prems(2)] Cons.prems(3) by (simp add: Let_def)
  qed
qed

lemma flush_probe_cmd_ok:
  assumes "wr_ok (unat (k_mtu k)) P wr" and "k_buffer k = unat (k_mtu k)" and "50 \<le> unat (k_mtu k)"
    and "sg_data seg = []" and "P (seg\<lparr>sg_cmd := cmd\<rparr>)"
  shows "\<exists>c wr'. flush_probe_cmd k flag cmd (seg, wr) = Some (seg\<lparr>sg_cmd := c\<rparr>, wr')
           \<and> wr_ok (unat (k_mtu k)) P wr'"
proof (cases "k_probe k AND flag = 0")
  case True
  have "seg = seg\<lparr>sg_cmd := sg_cmd seg\<rparr>" by simp
  with True assms(1) show ?thesis by (auto simp: flush_probe_cmd_def intro!: exI[of _ "sg_cmd seg"])
next
  case False
  obtain wr' where "put_header (seg\<lparr>sg_cmd := cmd\<rparr>)
      (makeSpace (unat (k_mtu k)) (unat (k_mtu k)) IKCP_OVERHEAD wr) = Some wr'" "wr_ok (unat (k_mtu k)) P wr'"
    using put_header_ok[OF assms(1), of "seg\<lparr>sg_cmd := cmd\<rparr>"] assms(3-5) by auto
  with False show ?thesis
    by (auto simp: flush_probe_cmd_def assms(2))
qed

text \<open>The probe timer: a zero window is probed after 7 to 120 seconds.\<close>

lemma flush_probe_wait_frame:
  "\<exists>r pw tp pr. flush_probe_wait clk k =
     k\<lparr>k_reads := r, k_probe_wait := pw, k_ts_probe := tp, k_probe := pr\<rparr>"
proof -
  have "flush_probe_wait clk k = k\<lparr>k_reads := k_reads (flush_probe_wait clk k),
      k_probe_wait := k_probe_wait (flush_probe_wait clk k),
      k_ts_probe := k_ts_probe (flush_probe_wait clk k), k_probe := k_probe (flush_probe_wait clk k)\<rparr>"
    by (simp add: flush_probe_wait_def currentMs_def Let_def)
  then show ?thesis by metis
qed

lemma flush_probe_wait_closed:
  "k_rmt_wnd k \<noteq> 0 \<Longrightarrow> k_probe_wait (flush_probe_wait clk k) = 0 \<and> k_probe (flush_probe_wait clk k) = k_probe k"
  by (simp add: flush_probe_wait_def)

lemma flush_probe_wait_bounds:
  assumes "k_rmt_wnd k = 0" and "k_probe_wait k = 0 \<or> 7000 \<le> k_probe_wait k \<and> k_probe_wait k \<le> 120000"
  shows "7000 \<le> k_probe_wait (flush_probe_wait clk k)" and "k_probe_wait (flush_probe_wait clk k) \<le> 120000"
proof -
  let ?w = "unat (k_probe_wait k)"
  have grow: "7000 \<le> k_probe_wait k + k_probe_wait k div 2"
    if "7000 \<le> k_probe_wait k" "k_probe_wait k \<le> 120000"
    using that by (simp add: word_le_nat_alt unat_word_ariths unat_div)
  show "7000 \<le> k_probe_wait (flush_probe_wait clk k)"
    using assms grow by (auto simp: flush_probe_wait_def currentMs_def Let_def)
  show "k_probe_wait (flush_probe_wait clk k) \<le> 120000"
    using assms by (auto simp: flush_probe_wait_def currentMs_def Let_def)
qed

section \<open>New segments enter the window\<close>

definition stamp :: "u32 \<Rightarrow> segment \<Rightarrow> u32 \<Rightarrow> segment" where
  "stamp conv s sn = s\<lparr>sg_conv := conv, sg_cmd := IKCP_CMD_PUSH, sg_sn := sn\<rparr>"

text \<open>
  As many queued segments as the window leaves room for move behind the segments in flight, in
  order, under the next sequence numbers; one more iteration than there are queued segments is
  fuel enough.
\<close>

lemma flush_move_correct:
  assumes "rb_inv (k_snd_queue k)" and "rb_inv (k_snd_buf k)"
    and "length (snd_queue_list k) < fuel"
    and "sn_off (k_snd_una k) (k_snd_nxt k) < 2 ^ 31" and "unat cwnd < 2 ^ 31"
    and "m = min (length (snd_queue_list k)) (unat cwnd - sn_off (k_snd_una k) (k_snd_nxt k))"
  shows "\<exists>q b. flush_move fuel cwnd n k =
           Some (n + m, k\<lparr>k_snd_queue := q, k_snd_buf := b, k_snd_nxt := k_snd_nxt k + of_nat m\<rparr>)
         \<and> rb_inv q \<and> rb_inv b \<and> rb_list q = drop m (snd_queue_list k)
         \<and> rb_list b = snd_buf_list k
             @ map2 (stamp (k_conv k)) (take m (snd_queue_list k)) (sn_run (k_snd_nxt k) m)"
  using assms
proof (induction fuel arbitrary: k n m)
  case 0
  then show ?case by simp
next
  case (Suc fuel)
  let ?off = "sn_off (k_snd_una k) (k_snd_nxt k)" and ?q = "k_snd_queue k"
  have "sn_off (k_snd_una k) (k_snd_una k + cwnd) = unat cwnd"
    using sn_off_add[of "unat cwnd" "k_snd_una k"] Suc.prems(5) by simp
  then have closed: "itimediff (k_snd_nxt k) (k_snd_una k + cwnd) \<ge> 0 \<longleftrightarrow> unat cwnd \<le> ?off"
    using itimediff_off[of "k_snd_una k" "k_snd_nxt k" "k_snd_una k + cwnd"] Suc.prems(4,5)
    by (simp add: unat_eq_nat_uint nat_le_iff del: nat_uint_eq)
  note pop = rb_Pop_correct[OF Suc.prems(1), of zero_seg]
  have id: "k\<lparr>k_snd_queue := k_snd_queue k, k_snd_buf := k_snd_buf k, k_snd_nxt := k_snd_nxt k\<rparr> = k" by simp
  show ?case
  proof (cases "unat cwnd \<le> ?off")
    case True
    then have m0: "m = 0" using Suc.prems(6) by simp
    show ?thesis
      using Suc.prems(1,2) True id m0 closed
      by - (rule exI[of _ "k_snd_queue k"], rule exI[of _ "k_snd_buf k"], simp)
  next
    case open_win: False
    show ?thesis
    proof (cases "snd_queue_list k")
      case Nil
      then obtain q where q: "rb_Pop zero_seg ?q = (None, q)" using pop(2) by (metis list.simps(4) prod.collapse)
      show ?thesis
        using Suc.prems(2,6) pop(1,3) Nil open_win closed
        by - (rule exI[of _ q], rule exI[of _ "k_snd_buf k"], simp add: q)
    next
      case (Cons x xs)
      then obtain q where q: "rb_Pop zero_seg ?q = (Some x, q)" using pop(2) by (metis list.simps(5) prod.collapse)
      have rq: "rb_inv q" "rb_list q = xs" using pop(1,3) Cons by (simp_all add: q)
      let ?k = "k\<lparr>k_snd_queue := q, k_snd_buf := rb_Push zero_seg (stamp (k_conv k) x (k_snd_nxt k)) (k_snd_buf k),
                  k_snd_nxt := k_snd_nxt k + 1\<rparr>"
      have off: "sn_off (k_snd_una k) (k_snd_nxt k + 1) = Suc ?off"
        using sn_off_add[of "Suc ?off" "k_snd_una k"] add_sn_off[of "k_snd_una k" "k_snd_nxt k"] Suc.prems(4)
        by (simp add: algebra_simps)
      define m' where "m' = min (length xs) (unat cwnd - Suc ?off)"
      have m: "m = Suc m'" using Suc.prems(6) open_win Cons by (simp add: m'_def)
      have "\<exists>q' b. flush_move fuel cwnd (n + 1) ?k =
           Some (n + 1 + m', ?k\<lparr>k_snd_queue := q', k_snd_buf := b, k_snd_nxt := k_snd_nxt ?k + of_nat m'\<rparr>)
         \<and> rb_inv q' \<and> rb_inv b \<and> rb_list q' = drop m' (snd_queue_list ?k)
         \<and> rb_list b = snd_buf_list ?k
             @ map2 (stamp (k_conv ?k)) (take m' (snd_queue_list ?k)) (sn_run (k_snd_nxt ?k) m')"
        by (rule Suc.IH) (use Suc.prems Cons open_win rq off in \<open>simp_all add: m'_def\<close>)
      then obtain q' b where
        "flush_move fuel cwnd (n + 1) ?k =
           Some (n + 1 + m', ?k\<lparr>k_snd_queue := q', k_snd_buf := b, k_snd_nxt := k_snd_nxt ?k + of_nat m'\<rparr>)"
        "rb_inv q'" "rb_inv b" "rb_list q' = drop m' xs"
        "rb_list b = snd_buf_list k @ [stamp (k_conv k) x (k_snd_nxt k)]
             @ map2 (stamp (k_conv k)) (take m' xs) (sn_run (k_snd_nxt k + 1) m')"
        using rq Suc.prems(2) by (auto simp: rb_list_Push)
      then show ?thesis
        using open_win closed Cons m q
        by - (rule exI[of _ q'], rule exI[of _ b], simp add: stamp_def Let_def algebra_simps)
    qed
  qed
qed

section \<open>The retransmission loop\<close>

text \<open>What a visit leaves alone: everything the receiver will see except time, window and \<open>una\<close>.\<close>

definition same_payload :: "segment \<Rightarrow> segment \<Rightarrow> bool" where
  "same_payload x y \<longleftrightarrow> sg_conv y = sg_conv x \<and> sg_cmd y = sg_cmd x \<and> sg_frg y = sg_frg x
     \<and> sg_sn y = sg_sn x \<and> sg_acked y = sg_acked x \<and> sg_data y = sg_data x"

lemma same_payload_refl [simp]: "same_payload x x"
  by (simp add: same_payload_def)

lemma need_send_frame:
  assumes "need_send k resent n x rt = (b, x', rt')"
  shows "same_payload x x'" and "sg_xmit x' = sg_xmit x"
    and "rt_wr rt' = rt_wr rt" and "rt_minrto rt' = rt_minrto rt" and "rt_state rt' = rt_state rt"
  using assms by (auto simp: need_send_def Let_def same_payload_def split: if_splits)

lemma send_segment_ok:
  assumes "wr_ok (unat (k_mtu k)) P (rt_wr rt)" and "k_buffer k = unat (k_mtu k)"
    and "IKCP_OVERHEAD + length (sg_data x) \<le> unat (k_mtu k)"
    and "\<And>y. same_payload x y \<Longrightarrow> sg_wnd y = sg_wnd seg \<Longrightarrow> sg_una y = sg_una seg \<Longrightarrow> P y"
  shows "\<exists>x' rt'. send_segment clk k seg x rt = (x', Some rt') \<and> same_payload x x'
           \<and> sg_xmit x' = sg_xmit x + 1
           \<and> wr_ok (unat (k_mtu k)) P (rt_wr rt') \<and> rt_minrto rt' = rt_minrto rt
           \<and> rt_state rt' = (if sg_xmit x + 1 \<ge> k_dead_link k then 0xFFFFFFFF else rt_state rt)
           \<and> rt_current rt' \<in> range clk"
proof -
  let ?x = "x\<lparr>sg_xmit := sg_xmit x + 1, sg_ts := clk (rt_reads rt), sg_wnd := sg_wnd seg, sg_una := sg_una seg\<rparr>"
  have P: "P ?x" by (rule assms(4)) (simp_all add: same_payload_def)
  obtain wr' where wr': "(do { w \<leftarrow> put_header ?x (makeSpace (unat (k_mtu k)) (unat (k_mtu k))
        (IKCP_OVERHEAD + length (sg_data ?x)) (rt_wr rt)); put_data (sg_data ?x) w }) = Some wr'"
      "wr_ok (unat (k_mtu k)) P wr'"
    using put_segment_ok[OF assms(1), of ?x] assms(3) P by auto
  then obtain w where "put_header ?x (makeSpace (unat (k_mtu k)) (unat (k_mtu k))
        (IKCP_OVERHEAD + length (sg_data x)) (rt_wr rt)) = Some w" "put_data (sg_data x) w = Some wr'"
    by (auto simp: bind_eq_Some_conv)
  then show ?thesis
    using wr'(2) by (simp add: send_segment_def Let_def assms(2) same_payload_def)
qed

text \<open>
  One visit: acknowledged segments are left alone; any other is written in full or only looked
  at. The link is declared dead exactly when a segment is sent for the \<open>dead_link\<close>-th time.
\<close>

definition loop_inv :: "KCP \<Rightarrow> (segment \<Rightarrow> bool) \<Rightarrow> clock \<Rightarrow> retrans option \<Rightarrow> bool" where
  "loop_inv k P clk st \<longleftrightarrow> (\<exists>rt. st = Some rt \<and> wr_ok (unat (k_mtu k)) P (rt_wr rt)
     \<and> rt_minrto rt \<le> sint (k_interval k) \<and> (0 < rt_minrto rt \<or> rt_minrto rt = sint (k_interval k))
     \<and> rt_current rt \<in> range clk)"

definition may_send :: "KCP \<Rightarrow> segment \<Rightarrow> (segment \<Rightarrow> bool) \<Rightarrow> segment \<Rightarrow> bool" where
  "may_send k seg P x \<longleftrightarrow> IKCP_OVERHEAD + length (sg_data x) \<le> unat (k_mtu k)
     \<and> (sg_acked x \<noteq> 1 \<longrightarrow>
         (\<forall>y. same_payload x y \<longrightarrow> sg_wnd y = sg_wnd seg \<longrightarrow> sg_una y = sg_una seg \<longrightarrow> P y))"

lemma send_visit_ok:
  assumes "loop_inv k P clk st" and "k_buffer k = unat (k_mtu k)" and "may_send k seg P x"
  shows "\<exists>x' st'. send_visit clk k resent n seg x st = (True, x', st') \<and> loop_inv k P clk st'
           \<and> same_payload x x' \<and> (sg_acked x = 1 \<longrightarrow> x' = x)
           \<and> (rt_state (the st') = rt_state (the st)
              \<or> rt_state (the st') = 0xFFFFFFFF \<and> sg_acked x \<noteq> 1 \<and> k_dead_link k \<le> sg_xmit x')
           \<and> (rt_state (the st) = 0xFFFFFFFF \<longrightarrow> rt_state (the st') = 0xFFFFFFFF)
           \<and> (sg_acked x \<noteq> 1 \<longrightarrow> k_dead_link k \<le> sg_xmit x + 1 \<longrightarrow> fst (need_send k resent n x (the st))
              \<longrightarrow> rt_state (the st') = 0xFFFFFFFF)"
proof -
  obtain rt where st: "st = Some rt" and wr: "wr_ok (unat (k_mtu k)) P (rt_wr rt)"
    and mr: "rt_minrto rt \<le> sint (k_interval k)" "0 < rt_minrto rt \<or> rt_minrto rt = sint (k_interval k)"
    and cur: "rt_current rt \<in> range clk"
    using assms(1) by (auto simp: loop_inv_def)
  show ?thesis
  proof (cases "sg_acked x = 1")
    case True
    then show ?thesis using assms(1) by (simp add: send_visit_def st)
  next
    case False
    obtain b y rty where ns: "need_send k resent n x rt = (b, y, rty)" by (metis prod.collapse)
    note nsf = need_send_frame[OF ns]
    have cury: "rt_current rty = rt_current rt"
      using ns by (auto simp: need_send_def Let_def split: if_splits)
    define z where "z = (if b then send_segment clk k seg y rty else (y, Some rty))"
    have y: "IKCP_OVERHEAD + length (sg_data y) \<le> unat (k_mtu k)"
      "\<And>w. same_payload y w \<Longrightarrow> sg_wnd w = sg_wnd seg \<Longrightarrow> sg_una w = sg_una seg \<Longrightarrow> P w"
      using assms(3) False nsf(1) by (auto simp: may_send_def same_payload_def)
    have "\<exists>x' rt'. z = (x', Some rt') \<and> same_payload y x' \<and> wr_ok (unat (k_mtu k)) P (rt_wr rt')
        \<and> rt_minrto rt' = rt_minrto rt \<and> rt_current rt' \<in> range clk
        \<and> (rt_state rt' = (if b \<and> sg_xmit x + 1 \<ge> k_dead_link k then 0xFFFFFFFF else rt_state rt))
        \<and> sg_xmit x' = (if b then sg_xmit x + 1 else sg_xmit x)"
    proof (cases b)
      case True
      have "\<exists>x' rt'. send_segment clk k seg y rty = (x', Some rt') \<and> rt_current rt' \<in> range clk
          \<and> same_payload y x' \<and> sg_xmit x' = sg_xmit y + 1
          \<and> wr_ok (unat (k_mtu k)) P (rt_wr rt') \<and> rt_minrto rt' = rt_minrto rty
          \<and> rt_state rt' = (if sg_xmit y + 1 \<ge> k_dead_link k then 0xFFFFFFFF else rt_state rty)"
        using send_segment_ok[of k P rty y seg clk] wr assms(2) y nsf by auto
      then show ?thesis using True nsf by (auto simp: z_def)
    next
      case False
      then show ?thesis using nsf wr cur cury by (simp add: z_def)
    qed
    then obtain x' rt' where z: "z = (x', Some rt')" "same_payload y x'" "wr_ok (unat (k_mtu k)) P (rt_wr rt')"
        "rt_minrto rt' = rt_minrto rt" "rt_current rt' \<in> range clk"
        "rt_state rt' = (if b \<and> sg_xmit x + 1 \<ge> k_dead_link k then 0xFFFFFFFF else rt_state rt)"
        "sg_xmit x' = (if b then sg_xmit x + 1 else sg_xmit x)" by blast
    define rto where "rto = itimediff (sg_resendts x') (rt_current rt')"
    define rt'' where "rt'' = (if rto > 0 \<and> rto < rt_minrto rt' then rt'\<lparr>rt_minrto := rto\<rparr> else rt')"
    have res: "send_visit clk k resent n seg x st = (True, x', Some rt'')"
      using z(1) False by (simp add: send_visit_def st ns z_def[symmetric] rt''_def rto_def Let_def)
    have "loop_inv k P clk (Some rt'')"
      using z mr by (auto simp: loop_inv_def rt''_def)
    moreover have "same_payload x x'"
      using z(2) nsf(1) by (simp add: same_payload_def)
    moreover have "rt_state rt'' = rt_state rt'" by (simp add: rt''_def)
    ultimately show ?thesis
      using res z(6,7) False ns by (auto simp: st)
  qed
qed

section \<open>The congestion window\<close>

lemma flush_congestion_frame:
  "\<exists>ss cw ic. flush_congestion cwnd resent chg los k = k\<lparr>k_ssthresh := ss, k_cwnd := cw, k_incr := ic\<rparr>"
proof -
  have "flush_congestion cwnd resent chg los k =
      k\<lparr>k_ssthresh := k_ssthresh (flush_congestion cwnd resent chg los k),
        k_cwnd := k_cwnd (flush_congestion cwnd resent chg los k),
        k_incr := k_incr (flush_congestion cwnd resent chg los k)\<rparr>"
    by (simp add: flush_congestion_def Let_def)
  then show ?thesis by metis
qed

lemma word_ge_1: "w \<noteq> 0 \<Longrightarrow> 1 \<le> w" for w :: u32
  by (simp add: word_le_nat_alt Suc_le_eq unat_gt_0)

text \<open>The window never closes, a loss drops it to one segment, and the threshold stays at two or more.\<close>

lemma flush_congestion_cwnd:
  assumes "k_nocwnd k = 0"
  shows "1 \<le> k_cwnd (flush_congestion cwnd resent chg los k)"
    and "0 < los \<Longrightarrow> k_cwnd (flush_congestion cwnd resent chg los k) = 1"
    and "2 \<le> k_ssthresh k \<Longrightarrow> 2 \<le> k_ssthresh (flush_congestion cwnd resent chg los k)"
  using assms by (auto simp: flush_congestion_def Let_def not_less word_ge_1)

lemma flush_congestion_off:
  "k_nocwnd k \<noteq> 0 \<Longrightarrow> flush_congestion cwnd resent chg los k = k"
  by (simp add: flush_congestion_def)

lemma flush_congestion_spec:
  "\<exists>ss cw ic. flush_congestion cwnd resent chg los k = k\<lparr>k_ssthresh := ss, k_cwnd := cw, k_incr := ic\<rparr>
     \<and> (k_nocwnd k = 0 \<longrightarrow> 1 \<le> cw) \<and> (2 \<le> k_ssthresh k \<longrightarrow> 2 \<le> ss)"
proof -
  obtain ss cw ic where k': "flush_congestion cwnd resent chg los k = k\<lparr>k_ssthresh := ss, k_cwnd := cw, k_incr := ic\<rparr>"
    using flush_congestion_frame by blast
  have "k_nocwnd k = 0 \<Longrightarrow> 1 \<le> cw" "2 \<le> k_ssthresh k \<Longrightarrow> 2 \<le> ss"
    using flush_congestion_cwnd(1,3)[of k cwnd resent chg los] flush_congestion_off[of k cwnd resent chg los]
      arg_cong[OF k', of k_cwnd] arg_cong[OF k', of k_ssthresh]
    by (cases "k_nocwnd k = 0"; simp)+
  then show ?thesis using k' by blast
qed

section \<open>A whole flush\<close>

text \<open>What may be on the wire after a flush: acknowledgements of received segments, the two
  window probes, and segments in flight that are not acknowledged.\<close>

definition flush_seg :: "KCP \<Rightarrow> segment list \<Rightarrow> segment \<Rightarrow> bool" where
  "flush_seg k flight s \<longleftrightarrow> sg_conv s = k_conv k \<and> sg_wnd s = kcp_wnd_unused k \<and> sg_una s = k_rcv_nxt k
     \<and> (sg_cmd s = IKCP_CMD_PUSH \<and> (\<exists>x \<in> set flight. sg_acked x \<noteq> 1 \<and> same_payload x s)
        \<or> sg_data s = []
          \<and> (sg_cmd s = IKCP_CMD_ACK \<and> (\<exists>a \<in> set (k_acklist k). sg_sn s = ack_sn a \<and> sg_ts s = ack_ts a)
             \<or> sg_cmd s = IKCP_CMD_WASK \<or> sg_cmd s = IKCP_CMD_WINS))"

lemma flush_seg_same_payload:
  assumes "list_all2 same_payload xs ys" and "flush_seg k xs s"
  shows "flush_seg k ys s"
proof -
  have "\<exists>y \<in> set ys. sg_acked y \<noteq> 1 \<and> same_payload y s"
    if x: "x \<in> set xs" "sg_acked x \<noteq> 1" "same_payload x s" for x
  proof -
    obtain y where "y \<in> set ys" "same_payload x y"
      using list_all2_left[OF assms(1) x(1)] by blast
    with x(2,3) show ?thesis by (intro bexI[of _ y]) (simp_all add: same_payload_def)
  qed
  with assms(2) show ?thesis by (auto simp: flush_seg_def)
qed

text \<open>The segment every command of a flush is built from, and the acknowledgement phase.\<close>

definition flush_base :: "KCP \<Rightarrow> segment" where
  "flush_base k = zero_seg\<lparr>sg_conv := k_conv k, sg_cmd := IKCP_CMD_ACK, sg_wnd := kcp_wnd_unused k,
                           sg_una := k_rcv_nxt k\<rparr>"

lemma flush_acks_phase:
  assumes "cfg_inv k"
  shows "\<exists>sn ts wr. flush_acks k (k_acklist k) (flush_base k) (([], k_buffer k), [])
            = Some ((flush_base k)\<lparr>sg_sn := sn, sg_ts := ts\<rparr>, wr)
         \<and> wr_ok (unat (k_mtu k)) (flush_seg k flight) wr"
  by (rule flush_acks_ok) (use assms in \<open>auto simp: cfg_inv_def flush_base_def zero_seg_def flush_seg_def\<close>)

lemma kcp_flush_ackOnly:
  assumes "kcp_inv k"
  shows "\<exists>ds. kcp_flush clk True k = Some (k_interval k, k\<lparr>k_acklist := [], k_output := k_output k @ ds\<rparr>)
           \<and> (\<forall>d \<in> set ds. datagram_ok (unat (k_mtu k)) (flush_seg k []) d)"
proof -
  obtain sn ts wr where "flush_acks k (k_acklist k) (flush_base k) (([], k_buffer k), [])
            = Some ((flush_base k)\<lparr>sg_sn := sn, sg_ts := ts\<rparr>, wr)"
      and "wr_ok (unat (k_mtu k)) (flush_seg k []) wr"
    using flush_acks_phase[of k "[]"] assms by blast
  then show ?thesis
    using flushBuffer_ok[of "unat (k_mtu k)" "flush_seg k []" wr]
    by (intro exI[of _ "flushBuffer wr"]) (simp add: kcp_flush_def flush_base_def[symmetric] Let_def)
qed

text \<open>The probe phase: the commands are chosen before the send window is computed.\<close>

lemma flush_probe_phase:
  assumes "wr_ok (unat (k_mtu k)) (flush_seg k0 flight) wr" and "cfg_inv k"
  shows "\<exists>c wr1 d wr2.
      flush_probe_cmd k IKCP_ASK_SEND IKCP_CMD_WASK ((flush_base k0)\<lparr>sg_sn := sn, sg_ts := ts\<rparr>, wr)
        = Some ((flush_base k0)\<lparr>sg_sn := sn, sg_ts := ts, sg_cmd := c\<rparr>, wr1)
      \<and> flush_probe_cmd k IKCP_ASK_TELL IKCP_CMD_WINS ((flush_base k0)\<lparr>sg_sn := sn, sg_ts := ts, sg_cmd := c\<rparr>, wr1)
        = Some ((flush_base k0)\<lparr>sg_sn := sn, sg_ts := ts, sg_cmd := d\<rparr>, wr2)
      \<and> wr_ok (unat (k_mtu k)) (flush_seg k0 flight) wr2"
proof -
  let ?P = "flush_seg k0 flight" and ?seg = "(flush_base k0)\<lparr>sg_sn := sn, sg_ts := ts\<rparr>"
  have P: "?P (?seg\<lparr>sg_cmd := IKCP_CMD_WASK\<rparr>)" "\<And>c. ?P (?seg\<lparr>sg_cmd := c, sg_cmd := IKCP_CMD_WINS\<rparr>)"
    by (simp_all add: flush_seg_def flush_base_def zero_seg_def)
  have data: "sg_data ?seg = []" "\<And>c. sg_data (?seg\<lparr>sg_cmd := c\<rparr>) = []"
    by (simp_all add: flush_base_def zero_seg_def)
  have mtu: "k_buffer k = unat (k_mtu k)" "50 \<le> unat (k_mtu k)" using assms(2) by (auto simp: cfg_inv_def)
  obtain c1 wr1 where 1: "flush_probe_cmd k IKCP_ASK_SEND IKCP_CMD_WASK (?seg, wr) = Some (?seg\<lparr>sg_cmd := c1\<rparr>, wr1)"
      "wr_ok (unat (k_mtu k)) ?P wr1"
    using flush_probe_cmd_ok[where P = ?P, OF assms(1) mtu data(1) P(1)] by blast
  obtain c2 wr2 where 2: "flush_probe_cmd k IKCP_ASK_TELL IKCP_CMD_WINS (?seg\<lparr>sg_cmd := c1\<rparr>, wr1)
        = Some (?seg\<lparr>sg_cmd := c1, sg_cmd := c2\<rparr>, wr2)" "wr_ok (unat (k_mtu k)) ?P wr2"
    using flush_probe_cmd_ok[where P = ?P, OF 1(2) mtu data(2) P(2)] by blast
  show ?thesis
    by (rule exI[of _ c1], rule exI[of _ wr1], rule exI[of _ c2], rule exI[of _ wr2]) (use 1 2 in simp)
qed

text \<open>The transmission loop, over a ring buffer of segments that may all be sent.\<close>

lemma retrans_loop_correct:
  assumes "rb_inv b" and "loop_inv k P clk (Some rt)" and "k_buffer k = unat (k_mtu k)"
    and "\<And>x. x \<in> set (rb_list b) \<Longrightarrow> may_send k seg P x"
  shows "\<exists>b' rt'. rb_ForEach (send_visit clk k resent n seg) b (Some rt) = (b', Some rt')
           \<and> rb_inv b' \<and> list_all2 same_payload (rb_list b) (rb_list b') \<and> loop_inv k P clk (Some rt')
           \<and> (rt_state rt' = rt_state rt
              \<or> rt_state rt' = 0xFFFFFFFF \<and> (\<exists>x \<in> set (rb_list b'). sg_acked x \<noteq> 1 \<and> k_dead_link k \<le> sg_xmit x))"
proof -
  define I where "I zs st \<longleftrightarrow> loop_inv k P clk st \<and> (rt_state (the st) = rt_state rt
      \<or> rt_state (the st) = 0xFFFFFFFF \<and> (\<exists>x \<in> set zs. sg_acked x \<noteq> 1 \<and> k_dead_link k \<le> sg_xmit x))"
    for zs :: "segment list" and st :: "retrans option"
  have step: "\<exists>x' st'. send_visit clk k resent n seg x st = (True, x', st') \<and> I (zs @ [x']) st' \<and> same_payload x x'"
    if x: "x \<in> set (rb_list b)" and st: "I zs st" for x st zs
  proof -
    obtain x' st' where v: "send_visit clk k resent n seg x st = (True, x', st')" "loop_inv k P clk st'"
      "same_payload x x'" "rt_state (the st') = rt_state (the st)
          \<or> rt_state (the st') = 0xFFFFFFFF \<and> sg_acked x \<noteq> 1 \<and> k_dead_link k \<le> sg_xmit x'"
      using send_visit_ok[OF _ assms(3) assms(4)[OF x], of clk st resent n] st I_def by blast
    have "sg_acked x' = sg_acked x" using v(3) by (simp add: same_payload_def)
    then show ?thesis using v st by (auto simp: I_def)
  qed
  have I0: "I [] (Some rt)" using assms(2) by (simp add: I_def)
  obtain ys st' where ys: "list_each (send_visit clk k resent n seg) (rb_list b) (Some rt) = (True, ys, st')"
      "I ys st'" "list_all2 same_payload (rb_list b) ys"
    using list_each_all[of "rb_list b" I "send_visit clk k resent n seg" same_payload "[]" "Some rt"] step
      I0 by auto
  obtain rt' where "st' = Some rt'" using ys(2) by (auto simp: I_def loop_inv_def)
  then show ?thesis
    using ys rb_ForEach_correct[OF assms(1), of "send_visit clk k resent n seg" "Some rt"]
    by (cases "rb_ForEach (send_visit clk k resent n seg) b (Some rt)") (simp add: I_def)
qed

text \<open>Moving segments into the window keeps the sender's invariant.\<close>

lemma map_sn_stamp: "length xs = length sns \<Longrightarrow> map sg_sn (map2 (stamp c) xs sns) = sns"
  by (induction xs sns rule: list_induct2) (simp_all add: stamp_def)

lemma flight_seg_stamp:
  assumes "\<forall>s \<in> set xs. length (sg_data s) \<le> unat mss" and "y \<in> set (map2 (stamp c) xs sns)"
  shows "flight_seg c mss y"
proof -
  obtain x sn where "x \<in> set xs" "y = stamp c x sn" using assms(2) by (auto dest: set_zip_leftD)
  then show ?thesis using assms(1) by (simp add: flight_seg_def stamp_def)
qed

lemma snd_inv_update:
  assumes "rb_inv q" and "rb_inv b"
    and "\<forall>s \<in> set (rb_list q). length (sg_data s) \<le> unat (k_mss k)"
    and "\<forall>s \<in> set (rb_list b). flight_seg (k_conv k) (k_mss k) s"
    and "map sg_sn (rb_list b) = sn_run (nx - of_nat (length (rb_list b))) (length (rb_list b))"
    and "length (rb_list b) \<le> sn_off (k_snd_una k) nx" and "sn_off (k_snd_una k) nx \<le> unat (k_snd_wnd k)"
  shows "snd_inv (k\<lparr>k_snd_queue := q, k_snd_buf := b, k_snd_nxt := nx\<rparr>)"
  using assms by (simp add: snd_inv_def)

lemma flush_move_inv:
  assumes inv: "kcp_inv k" and cwnd: "cwnd \<le> k_snd_wnd k"
    and m: "m = min (length (snd_queue_list k)) (unat cwnd - sn_off (k_snd_una k) (k_snd_nxt k))"
  shows "\<exists>q b. flush_move (Suc (rb_Len (k_snd_queue k))) cwnd 0 k =
           Some (m, k\<lparr>k_snd_queue := q, k_snd_buf := b, k_snd_nxt := k_snd_nxt k + of_nat m\<rparr>)
         \<and> snd_inv (k\<lparr>k_snd_queue := q, k_snd_buf := b, k_snd_nxt := k_snd_nxt k + of_nat m\<rparr>)
         \<and> rb_list q = drop m (snd_queue_list k)
         \<and> rb_list b = snd_buf_list k
             @ map2 (stamp (k_conv k)) (take m (snd_queue_list k)) (sn_run (k_snd_nxt k) m)"
proof -
  let ?off = "sn_off (k_snd_una k) (k_snd_nxt k)" and ?l = "snd_buf_list k" and ?q = "snd_queue_list k"
  have snd: "snd_inv k" and cfg: "cfg_inv k" using inv by auto
  have w: "unat cwnd \<le> unat (k_snd_wnd k)" "unat (k_snd_wnd k) < 2 ^ 31" "?off \<le> unat (k_snd_wnd k)"
    using cwnd cfg snd by (auto simp: word_le_nat_alt cfg_inv_def snd_inv_def)
  have rb: "rb_inv (k_snd_queue k)" "rb_inv (k_snd_buf k)" using snd by (auto simp: snd_inv_def)
  obtain q b where qb: "flush_move (Suc (rb_Len (k_snd_queue k))) cwnd 0 k =
           Some (m, k\<lparr>k_snd_queue := q, k_snd_buf := b, k_snd_nxt := k_snd_nxt k + of_nat m\<rparr>)"
      "rb_inv q" "rb_inv b" "rb_list q = drop m ?q"
      "rb_list b = ?l @ map2 (stamp (k_conv k)) (take m ?q) (sn_run (k_snd_nxt k) m)"
    using flush_move_correct[OF rb, of "Suc (rb_Len (k_snd_queue k))" cwnd m 0] w m rb
    by (auto simp: rb_Len_list)
  have len: "length (take m ?q) = m" using m by simp
  have le: "?off + m \<le> unat (k_snd_wnd k)" using w m by linarith
  have off: "sn_off (k_snd_una k) (k_snd_nxt k + of_nat m) = ?off + m"
    by (rule sn_off_forward) (use le w in simp)
  have "map sg_sn (rb_list b) = sn_run (k_snd_nxt k - of_nat (length ?l)) (length ?l) @ sn_run (k_snd_nxt k) m"
    using snd len qb(5) by (simp add: map_sn_stamp snd_inv_def del: map_map)
  also have "\<dots> = sn_run (k_snd_nxt k - of_nat (length ?l)) (length ?l + m)"
    by (simp add: sn_run_append)
  finally have sns: "map sg_sn (rb_list b) = sn_run (k_snd_nxt k - of_nat (length ?l)) (length ?l + m)" .
  have lenb: "length (rb_list b) = length ?l + m" using len qb(5) by simp
  have "\<forall>s \<in> set (take m ?q). length (sg_data s) \<le> unat (k_mss k)"
    using snd by (auto simp: snd_inv_def dest: in_set_takeD)
  then have new: "\<And>y. y \<in> set (map2 (stamp (k_conv k)) (take m ?q) (sn_run (k_snd_nxt k) m))
      \<Longrightarrow> flight_seg (k_conv k) (k_mss k) y"
    by (rule flight_seg_stamp)
  have old: "\<And>y. y \<in> set ?l \<Longrightarrow> flight_seg (k_conv k) (k_mss k) y"
    using snd by (simp add: snd_inv_def)
  have fl: "\<forall>s \<in> set (rb_list b). flight_seg (k_conv k) (k_mss k) s"
    unfolding qb(5) set_append using old new by blast
  have qd: "\<forall>s \<in> set (drop m ?q). length (sg_data s) \<le> unat (k_mss k)"
    and lo: "length ?l \<le> ?off"
    using snd by (auto simp: snd_inv_def dest: in_set_dropD)
  have base: "k_snd_nxt k + of_nat m - of_nat (length (rb_list b)) = k_snd_nxt k - of_nat (length ?l)"
    by (simp add: lenb)
  have run: "map sg_sn (rb_list b) = sn_run (k_snd_nxt k + of_nat m - of_nat (length (rb_list b))) (length (rb_list b))"
    using sns unfolding base by (simp only: lenb)
  have lo': "length (rb_list b) \<le> sn_off (k_snd_una k) (k_snd_nxt k + of_nat m)"
    and le': "sn_off (k_snd_una k) (k_snd_nxt k + of_nat m) \<le> unat (k_snd_wnd k)"
    unfolding off lenb using lo le by simp_all
  have "snd_inv (k\<lparr>k_snd_queue := q, k_snd_buf := b, k_snd_nxt := k_snd_nxt k + of_nat m\<rparr>)"
    by (rule snd_inv_update[OF qb(2,3) qd[folded qb(4)] fl run lo' le'])
  then show ?thesis using qb by blast
qed

lemma same_payload_flight: "same_payload x y \<Longrightarrow> flight_seg c m y = flight_seg c m x"
  by (simp add: same_payload_def flight_seg_def)

lemma list_all2_sn: "list_all2 same_payload xs ys \<Longrightarrow> map sg_sn ys = map sg_sn xs"
  by (induction rule: list_all2_induct) (simp_all add: same_payload_def)

lemma list_all2_flight:
  assumes "list_all2 same_payload xs ys" and "\<forall>s \<in> set xs. flight_seg c m s"
  shows "\<forall>s \<in> set ys. flight_seg c m s"
proof
  fix y
  assume "y \<in> set ys"
  then obtain x where "x \<in> set xs" "same_payload x y"
    using list_all2_right[OF assms(1)] by blast
  then show "flight_seg c m y" using assms(2) by (simp add: same_payload_flight)
qed

text \<open>
  The send window of a flush, the segments it moves into flight, and the flight after it. The
  window is that of the two ends and of the congestion control, unless the latter is off.
\<close>

definition flush_window :: "KCP \<Rightarrow> u32" where
  "flush_window k = (let c = imin (k_snd_wnd k) (k_rmt_wnd k)
                     in if k_nocwnd k = 0 then imin (k_cwnd k) c else c)"

definition flush_moved :: "KCP \<Rightarrow> nat" where
  "flush_moved k = min (length (snd_queue_list k))
                       (unat (flush_window k) - sn_off (k_snd_una k) (k_snd_nxt k))"

definition flush_flight :: "KCP \<Rightarrow> segment list" where
  "flush_flight k = snd_buf_list k
     @ map2 (stamp (k_conv k)) (take (flush_moved k) (snd_queue_list k)) (sn_run (k_snd_nxt k) (flush_moved k))"

lemma flush_window_le: "flush_window k \<le> k_snd_wnd k" "flush_window k \<le> k_rmt_wnd k"
    "k_nocwnd k = 0 \<Longrightarrow> flush_window k \<le> k_cwnd k"
  by (auto simp: flush_window_def imin_def Let_def)

lemma flight_may_send:
  assumes "cfg_inv k" and "flight_seg (k_conv k) (k_mss k) x" and "x \<in> set flight"
    and "sg_wnd seg = kcp_wnd_unused k" and "sg_una seg = k_rcv_nxt k"
  shows "may_send k seg (flush_seg k flight) x"
proof -
  have "IKCP_OVERHEAD + length (sg_data x) \<le> unat (k_mtu k)"
    using assms(2) cfg_inv_mss_pos[OF assms(1)] by (simp add: flight_seg_def)
  then show ?thesis
    using assms(2-5) by (auto simp: may_send_def flush_seg_def same_payload_def flight_seg_def)
qed

lemma flush_data_correct:
  assumes inv: "kcp_inv k" and wr: "wr_ok (unat (k_mtu k)) P wr"
    and send: "\<And>x. x \<in> set (flush_flight k) \<Longrightarrow> may_send k seg P x"
  shows "\<exists>minrto r q b st ds ss cw ic.
     flush_data clk seg wr k = Some (word_of_int minrto,
       k\<lparr>k_snd_queue := q, k_snd_nxt := k_snd_nxt k + of_nat (flush_moved k), k_snd_buf := b,
         k_state := st, k_reads := r, k_output := k_output k @ ds, k_ssthresh := ss, k_cwnd := cw, k_incr := ic\<rparr>)
     \<and> snd_inv (k\<lparr>k_snd_queue := q, k_snd_nxt := k_snd_nxt k + of_nat (flush_moved k), k_snd_buf := b\<rparr>)
     \<and> rb_list q = drop (flush_moved k) (snd_queue_list k)
     \<and> list_all2 same_payload (flush_flight k) (rb_list b)
     \<and> (\<forall>d \<in> set ds. datagram_ok (unat (k_mtu k)) P d)
     \<and> (st = k_state k \<or> st = 0xFFFFFFFF \<and> (\<exists>x \<in> set (rb_list b). sg_acked x \<noteq> 1 \<and> k_dead_link k \<le> sg_xmit x))
     \<and> (k_nocwnd k = 0 \<longrightarrow> 1 \<le> cw) \<and> (2 \<le> k_ssthresh k \<longrightarrow> 2 \<le> ss)
     \<and> minrto \<le> sint (k_interval k) \<and> (0 < minrto \<or> minrto = sint (k_interval k))"
proof -
  let ?m = "flush_moved k" and ?cw = "flush_window k"
  have win: "?cw = (if k_nocwnd k = 0 then imin (k_cwnd k) (imin (k_snd_wnd k) (k_rmt_wnd k))
                    else imin (k_snd_wnd k) (k_rmt_wnd k))" by (simp add: flush_window_def Let_def)
  obtain q b0 where mv: "flush_move (Suc (rb_Len (k_snd_queue k))) ?cw 0 k =
           Some (?m, k\<lparr>k_snd_queue := q, k_snd_buf := b0, k_snd_nxt := k_snd_nxt k + of_nat ?m\<rparr>)"
      "snd_inv (k\<lparr>k_snd_queue := q, k_snd_buf := b0, k_snd_nxt := k_snd_nxt k + of_nat ?m\<rparr>)"
      "rb_list q = drop ?m (snd_queue_list k)" "rb_list b0 = flush_flight k"
    using flush_move_inv[OF inv flush_window_le(1) flush_moved_def] unfolding flush_flight_def by blast
  let ?k2 = "k\<lparr>k_snd_queue := q, k_snd_buf := b0, k_snd_nxt := k_snd_nxt k + of_nat ?m, k_reads := k_reads k + 1\<rparr>"
  define resent where "resent = (if sint (k_fastresend k) \<le> 0 then 0xffffffff else k_fastresend k)"
  define rt0 where "rt0 = \<lparr>rt_current = clk (k_reads k), rt_change = 0, rt_lost = 0,
      rt_minrto = sint (k_interval k), rt_wr = wr, rt_state = k_state k, rt_reads = k_reads k + 1\<rparr>"
  have "rb_inv b0" "loop_inv ?k2 P clk (Some rt0)" "k_buffer ?k2 = unat (k_mtu ?k2)"
    using mv(2) wr inv by (auto simp: snd_inv_def loop_inv_def rt0_def kcp_inv_def cfg_inv_def)
  moreover have "may_send ?k2 seg P x" if "x \<in> set (rb_list b0)" for x
    using send[of x] that mv(4) by (simp add: may_send_def)
  ultimately obtain b rt where loop: "rb_ForEach (send_visit clk ?k2 resent ?m seg) b0 (Some rt0) = (b, Some rt)"
      "rb_inv b" "list_all2 same_payload (flush_flight k) (rb_list b)" "loop_inv ?k2 P clk (Some rt)"
      "rt_state rt = k_state k
         \<or> rt_state rt = 0xFFFFFFFF \<and> (\<exists>x \<in> set (rb_list b). sg_acked x \<noteq> 1 \<and> k_dead_link k \<le> sg_xmit x)"
    using retrans_loop_correct[of b0 ?k2 P clk rt0 seg resent ?m] mv(4) by (auto simp: rt0_def)
  let ?k3 = "?k2\<lparr>k_snd_buf := b, k_state := rt_state rt, k_reads := rt_reads rt,
                 k_output := k_output k @ flushBuffer (rt_wr rt)\<rparr>"
  let ?k4 = "flush_congestion ?cw resent (rt_change rt) (rt_lost rt) ?k3"
  have res: "flush_data clk seg wr k = Some (word_of_int (rt_minrto rt), ?k4)"
    using mv(1) loop(1) unfolding flush_data_def Let_def win[symmetric] resent_def rt0_def
    by (simp add: currentMs_def del: flush_move.simps split del: if_split cong: if_cong)
  obtain ss cw ic where k4: "?k4 = ?k3\<lparr>k_ssthresh := ss, k_cwnd := cw, k_incr := ic\<rparr>"
      and cc: "k_nocwnd k = 0 \<longrightarrow> 1 \<le> cw" "2 \<le> k_ssthresh k \<longrightarrow> 2 \<le> ss"
    using flush_congestion_spec[of ?cw resent "rt_change rt" "rt_lost rt" ?k3] by auto
  have out: "\<forall>d \<in> set (flushBuffer (rt_wr rt)). datagram_ok (unat (k_mtu k)) P d"
    and mr: "rt_minrto rt \<le> sint (k_interval k)" "0 < rt_minrto rt \<or> rt_minrto rt = sint (k_interval k)"
    using loop(4) flushBuffer_ok[of "unat (k_mtu k)" P "rt_wr rt"] by (auto simp: loop_inv_def)
  have b0: "\<forall>s \<in> set (flush_flight k). flight_seg (k_conv k) (k_mss k) s"
    "map sg_sn (flush_flight k) = map sg_sn (rb_list b)" "length (rb_list b) = length (flush_flight k)"
    using mv(2) list_all2_sn[OF loop(3)] list_all2_lengthD[OF loop(3)] by (auto simp: snd_inv_def mv(4))
  have "snd_inv (k\<lparr>k_snd_queue := q, k_snd_nxt := k_snd_nxt k + of_nat ?m, k_snd_buf := b\<rparr>)"
    using mv(2) loop(2) list_all2_flight[OF loop(3) b0(1)] b0(2,3) by (simp add: snd_inv_def mv(4))
  then show ?thesis
    using res out mr mv(3) loop(3,5) cc unfolding k4
    by (intro exI[of _ "rt_minrto rt"] exI[of _ "rt_reads rt"] exI conjI) (assumption | simp)+
qed

lemma flight_seg_flush:
  assumes "kcp_inv k" and "x \<in> set (flush_flight k)"
  shows "flight_seg (k_conv k) (k_mss k) x"
proof -
  have snd: "snd_inv k" using assms(1) by auto
  then have q: "\<forall>s \<in> set (take n (snd_queue_list k)). length (sg_data s) \<le> unat (k_mss k)" for n
    by (auto simp: snd_inv_def dest: in_set_takeD)
  show ?thesis
    using assms(2) snd flight_seg_stamp[OF q]
    by (auto simp: flush_flight_def snd_inv_def simp del: set_map)
qed

lemma kcp_flush_full:
  assumes inv: "kcp_inv k"
  shows "\<exists>minrto k' r pw tp q b st ds ss cw ic.
     kcp_flush clk False k = Some (word_of_int minrto, k')
     \<and> k' = k\<lparr>k_acklist := [], k_probe_wait := pw, k_ts_probe := tp, k_probe := 0,
              k_snd_queue := q, k_snd_nxt := k_snd_nxt k + of_nat (flush_moved k), k_snd_buf := b,
              k_state := st, k_reads := r, k_output := k_output k @ ds, k_ssthresh := ss, k_cwnd := cw, k_incr := ic\<rparr>
     \<and> kcp_inv k'
     \<and> rb_list q = drop (flush_moved k) (snd_queue_list k)
     \<and> list_all2 same_payload (flush_flight k) (rb_list b)
     \<and> (\<forall>d \<in> set ds. datagram_ok (unat (k_mtu k)) (flush_seg k (rb_list b)) d)
     \<and> (st = k_state k \<or> st = 0xFFFFFFFF \<and> (\<exists>x \<in> set (rb_list b). sg_acked x \<noteq> 1 \<and> k_dead_link k \<le> sg_xmit x))
     \<and> (k_nocwnd k = 0 \<longrightarrow> 1 \<le> cw) \<and> (2 \<le> k_ssthresh k \<longrightarrow> 2 \<le> ss)
     \<and> minrto \<le> sint (k_interval k) \<and> (0 < minrto \<or> minrto = sint (k_interval k))"
proof -
  let ?P = "flush_seg k (flush_flight k)" and ?mtu = "unat (k_mtu k)"
  have cfg: "cfg_inv k" using inv by auto
  obtain sn ts wr where acks: "flush_acks k (k_acklist k) (flush_base k) (([], k_buffer k), [])
            = Some ((flush_base k)\<lparr>sg_sn := sn, sg_ts := ts\<rparr>, wr)" "wr_ok ?mtu ?P wr"
    using flush_acks_phase[OF cfg] by blast
  obtain r pw tp pr where pw: "flush_probe_wait clk (k\<lparr>k_acklist := []\<rparr>) =
     k\<lparr>k_acklist := [], k_reads := r, k_probe_wait := pw, k_ts_probe := tp, k_probe := pr\<rparr>"
    using flush_probe_wait_frame[of clk "k\<lparr>k_acklist := []\<rparr>"] by auto
  define kp where "kp = k\<lparr>k_acklist := [], k_reads := r, k_probe_wait := pw, k_ts_probe := tp, k_probe := pr\<rparr>"
  have "wr_ok (unat (k_mtu kp)) ?P wr" "cfg_inv kp" using acks(2) cfg by (simp_all add: kp_def)
  from flush_probe_phase[OF this, of ts sn] obtain c wr1 d wr2 where probes:
      "flush_probe_cmd kp IKCP_ASK_SEND IKCP_CMD_WASK ((flush_base k)\<lparr>sg_sn := sn, sg_ts := ts\<rparr>, wr)
        = Some ((flush_base k)\<lparr>sg_sn := sn, sg_ts := ts, sg_cmd := c\<rparr>, wr1)"
      "flush_probe_cmd kp IKCP_ASK_TELL IKCP_CMD_WINS ((flush_base k)\<lparr>sg_sn := sn, sg_ts := ts, sg_cmd := c\<rparr>, wr1)
        = Some ((flush_base k)\<lparr>sg_sn := sn, sg_ts := ts, sg_cmd := d\<rparr>, wr2)" "wr_ok (unat (k_mtu kp)) ?P wr2"
    by blast
  define seg where "seg = (flush_base k)\<lparr>sg_sn := sn, sg_ts := ts, sg_cmd := d\<rparr>"
  define k1 where "k1 = kp\<lparr>k_probe := 0\<rparr>"
  have flush: "kcp_flush clk False k = flush_data clk seg wr2 k1"
    using acks(1) probes(1,2) pw
    by (simp add: kcp_flush_def flush_base_def[symmetric] Let_def kp_def[symmetric] seg_def k1_def)
  have same: "flush_flight k1 = flush_flight k" "flush_moved k1 = flush_moved k" "k_mtu k1 = k_mtu k"
    by (simp_all add: k1_def kp_def flush_flight_def flush_moved_def flush_window_def cong: if_cong)
  have inv1: "kcp_inv k1" using inv by (simp add: kcp_inv_def k1_def kp_def)
  have send: "may_send k1 seg ?P x" if "x \<in> set (flush_flight k1)" for x
  proof -
    have "flight_seg (k_conv k) (k_mss k) x"
      using flight_seg_flush[OF inv] that same(1) by simp
    then have "may_send k seg ?P x"
      by (rule flight_may_send[OF cfg]) (use that same(1) in \<open>simp_all add: seg_def flush_base_def\<close>)
    then show ?thesis by (simp add: may_send_def same(3))
  qed
  have wr2: "wr_ok (unat (k_mtu k1)) ?P wr2" using probes(3) by (simp add: k1_def)
  from flush_data_correct[where P = ?P, OF inv1 wr2 send, of clk] obtain minrto r' q b st ds ss cw ic where
    data: "flush_data clk seg wr2 k1 = Some (word_of_int minrto,
       k1\<lparr>k_snd_queue := q, k_snd_nxt := k_snd_nxt k1 + of_nat (flush_moved k1), k_snd_buf := b,
         k_state := st, k_reads := r', k_output := k_output k1 @ ds, k_ssthresh := ss, k_cwnd := cw, k_incr := ic\<rparr>)"
     "snd_inv (k1\<lparr>k_snd_queue := q, k_snd_nxt := k_snd_nxt k1 + of_nat (flush_moved k1), k_snd_buf := b\<rparr>)"
     and props: "rb_list q = drop (flush_moved k1) (snd_queue_list k1)"
     "list_all2 same_payload (flush_flight k1) (rb_list b)" "\<forall>d \<in> set ds. datagram_ok (unat (k_mtu k1)) ?P d"
     "st = k_state k1 \<or> st = 0xFFFFFFFF \<and> (\<exists>x \<in> set (rb_list b). sg_acked x \<noteq> 1 \<and> k_dead_link k1 \<le> sg_xmit x)"
     "k_nocwnd k1 = 0 \<longrightarrow> 1 \<le> cw" "2 \<le> k_ssthresh k1 \<longrightarrow> 2 \<le> ss"
     "minrto \<le> sint (k_interval k1)" "0 < minrto \<or> minrto = sint (k_interval k1)" by blast
  have "\<forall>d \<in> set ds. datagram_ok ?mtu (flush_seg k (rb_list b)) d"
    using props(3) datagram_ok_mono flush_seg_same_payload[OF props(2)[unfolded same(1)]]
    unfolding same(3) by blast
  moreover
  define k' where "k' = k1\<lparr>k_snd_queue := q, k_snd_nxt := k_snd_nxt k1 + of_nat (flush_moved k1), k_snd_buf := b,
         k_state := st, k_reads := r', k_output := k_output k1 @ ds, k_ssthresh := ss, k_cwnd := cw, k_incr := ic\<rparr>"
  then have "kcp_inv k'" using data(2) inv1 by (simp add: kcp_inv_def)
  moreover have "k' = k\<lparr>k_acklist := [], k_probe_wait := pw, k_ts_probe := tp, k_probe := 0,
              k_snd_queue := q, k_snd_nxt := k_snd_nxt k + of_nat (flush_moved k), k_snd_buf := b,
              k_state := st, k_reads := r', k_output := k_output k @ ds, k_ssthresh := ss, k_cwnd := cw, k_incr := ic\<rparr>"
    unfolding k'_def same(2) by (simp add: k1_def kp_def)
  moreover have "kcp_flush clk False k = Some (word_of_int minrto, k')"
    using data(1) unfolding flush k'_def .
  moreover have "snd_queue_list k1 = snd_queue_list k" "k_state k1 = k_state k" "k_dead_link k1 = k_dead_link k"
    "k_nocwnd k1 = k_nocwnd k" "k_ssthresh k1 = k_ssthresh k" "k_interval k1 = k_interval k"
    by (simp_all add: k1_def kp_def)
  ultimately show ?thesis
    using props(1,2,4-) unfolding same by (intro exI conjI; assumption?) simp_all
qed

section \<open>The contract of a flush\<close>

text \<open>
  What the rest of the connection relies on: some queued segments move into flight under the
  next sequence numbers, nothing is lost, reordered or changed on the way, the receive side is
  untouched, and only proper datagrams are handed to the output.
\<close>

definition sends_ok :: "KCP \<Rightarrow> KCP \<Rightarrow> bool" where
  "sends_ok k k' \<longleftrightarrow> kcp_inv k'
     \<and> (\<exists>m ds. m \<le> length (snd_queue_list k)
          \<and> snd_queue_list k' = drop m (snd_queue_list k)
          \<and> k_snd_nxt k' = k_snd_nxt k + of_nat m
          \<and> list_all2 same_payload
              (snd_buf_list k @ map2 (stamp (k_conv k)) (take m (snd_queue_list k)) (sn_run (k_snd_nxt k) m))
              (snd_buf_list k')
          \<and> k_output k' = k_output k @ ds
          \<and> (\<forall>d \<in> set ds. datagram_ok (unat (k_mtu k)) (flush_seg k (snd_buf_list k')) d))
     \<and> k_rcv_queue k' = k_rcv_queue k \<and> k_rcv_buf k' = k_rcv_buf k \<and> k_rcv_nxt k' = k_rcv_nxt k
     \<and> k_conv k' = k_conv k \<and> k_mtu k' = k_mtu k \<and> k_mss k' = k_mss k \<and> k_stream k' = k_stream k
     \<and> k_interval k' = k_interval k \<and> k_nocwnd k' = k_nocwnd k
     \<and> k_rcv_wnd k' = k_rcv_wnd k \<and> k_snd_una k' = k_snd_una k \<and> set (k_acklist k') \<subseteq> set (k_acklist k)"

lemma list_all2_same_payload_refl [simp]: "list_all2 same_payload xs xs"
  by (simp add: list.rel_refl)

lemma sends_ok_none:
  assumes "kcp_inv k'" and "snd_queue_list k' = snd_queue_list k" and "k_snd_nxt k' = k_snd_nxt k"
    and "snd_buf_list k' = snd_buf_list k" and "k_output k' = k_output k @ ds"
    and "\<forall>d \<in> set ds. datagram_ok (unat (k_mtu k)) (flush_seg k (snd_buf_list k')) d"
    and "k_rcv_queue k' = k_rcv_queue k" "k_rcv_buf k' = k_rcv_buf k" "k_rcv_nxt k' = k_rcv_nxt k"
      "k_conv k' = k_conv k" "k_mtu k' = k_mtu k" "k_mss k' = k_mss k" "k_stream k' = k_stream k"
      "k_interval k' = k_interval k" "k_nocwnd k' = k_nocwnd k" "k_rcv_wnd k' = k_rcv_wnd k"
      "k_snd_una k' = k_snd_una k" "set (k_acklist k') \<subseteq> set (k_acklist k)"
  shows "sends_ok k k'"
  unfolding sends_ok_def
  by (intro conjI exI[of _ 0] exI[of _ ds]) (use assms in simp_all)

lemma sends_ok_refl: "kcp_inv k \<Longrightarrow> sends_ok k k"
  by (rule sends_ok_none[where ds = "[]"]) simp_all

lemma flush_seg_mono: "flush_seg k [] s \<Longrightarrow> flush_seg k xs s"
  by (auto simp: flush_seg_def)

text \<open>A flush never panics and keeps the contract, whether it sends everything or only acknowledges.\<close>

lemma kcp_flush_sends:
  assumes "kcp_inv k"
  shows "\<exists>t k'. kcp_flush clk ackOnly k = Some (t, k') \<and> sends_ok k k' \<and> k_acklist k' = []"
proof (cases ackOnly)
  case True
  obtain ds where ds: "kcp_flush clk True k = Some (k_interval k, k\<lparr>k_acklist := [], k_output := k_output k @ ds\<rparr>)"
      "\<forall>d \<in> set ds. datagram_ok (unat (k_mtu k)) (flush_seg k []) d"
    using kcp_flush_ackOnly[OF assms] by blast
  then have "\<forall>d \<in> set ds. datagram_ok (unat (k_mtu k)) (flush_seg k (snd_buf_list k)) d"
    using datagram_ok_mono flush_seg_mono by blast
  then have "sends_ok k (k\<lparr>k_acklist := [], k_output := k_output k @ ds\<rparr>)"
    by (intro sends_ok_none[where ds = ds]) (use assms in \<open>simp_all add: kcp_inv_def\<close>)
  then show ?thesis using True ds(1) by auto
next
  case False
  obtain mr k' r pw tp q b st ds ss cw ic where k': "kcp_flush clk False k = Some (word_of_int mr, k')"
     "k' = k\<lparr>k_acklist := [], k_probe_wait := pw, k_ts_probe := tp, k_probe := 0,
              k_snd_queue := q, k_snd_nxt := k_snd_nxt k + of_nat (flush_moved k), k_snd_buf := b,
              k_state := st, k_reads := r, k_output := k_output k @ ds, k_ssthresh := ss, k_cwnd := cw, k_incr := ic\<rparr>"
     "kcp_inv k'" "rb_list q = drop (flush_moved k) (snd_queue_list k)"
     "list_all2 same_payload (flush_flight k) (rb_list b)"
     "\<forall>d \<in> set ds. datagram_ok (unat (k_mtu k)) (flush_seg k (rb_list b)) d"
    using kcp_flush_full[OF assms] by metis
  have "sends_ok k k'"
    unfolding sends_ok_def
    by (intro conjI exI[of _ "flush_moved k"] exI[of _ ds])
       (use k'(2-6) in \<open>simp_all add: flush_moved_def flush_flight_def\<close>)
  moreover have "k_acklist k' = []" by (simp add: k'(2))
  ultimately show ?thesis using False k'(1) by auto
qed

end
