(* ===== verification/Kcp_Input.thy ===== *)
theory Kcp_Input
  imports Kcp_Recv Kcp_Flush
begin

text \<open>
  \<open>Input\<close> of \<open>kcp.go\<close>: a datagram from the network is cut into segments, each updates the
  sender (remote window, acknowledgements) or the receiver (data), then the round-trip estimate
  and the congestion window are updated, and a flush follows when the window slid or when
  acknowledgements must not wait. The error codes are -1 (too short, or not this
  conversation), -2 (truncated) and -3 (unknown command); what the segments before the bad
  one changed stays changed. The counter \<open>inSegs\<close> is never read and is left out.
\<close>

section \<open>The code\<close>

text \<open>The header fields of a segment, its length field, and the bytes after the header.\<close>

definition input_header :: "bytes \<Rightarrow> (segment \<times> nat \<times> bytes) option" where
  "input_header data = do {
     (conv, data) \<leftarrow> ikcp_decode32u data;
     (cmd, data) \<leftarrow> ikcp_decode8u data;
     (frg, data) \<leftarrow> ikcp_decode8u data;
     (wnd, data) \<leftarrow> ikcp_decode16u data;
     (ts, data) \<leftarrow> ikcp_decode32u data;
     (sn, data) \<leftarrow> ikcp_decode32u data;
     (una, data) \<leftarrow> ikcp_decode32u data;
     (len, data) \<leftarrow> ikcp_decode32u data;
     Some (zero_seg\<lparr>sg_conv := conv, sg_cmd := cmd, sg_frg := frg, sg_wnd := wnd, sg_ts := ts,
                     sg_sn := sn, sg_una := una\<rparr>, unat len, data)
   }"

text \<open>The variables of the loop: the connection, \<open>flag\<close>, \<open>latest\<close> and \<open>windowSlides\<close>.\<close>

type_synonym input_vars = "KCP \<times> bool \<times> u32 \<times> bool"

definition input_segment :: "bool \<Rightarrow> segment \<Rightarrow> input_vars \<Rightarrow> input_vars option" where
  "input_segment regular seg v =
     (case v of (k, flag, latest, slides) \<Rightarrow>
        let k = (if regular then k\<lparr>k_rmt_wnd := ucast (sg_wnd seg)\<rparr> else k);
            (n, k) = kcp_parse_una (sg_una seg) k;
            slides = (slides \<or> n > 0);
            k = kcp_shrink_buf k;
            sn = sg_sn seg;
            ts = sg_ts seg
        in if sg_cmd seg = IKCP_CMD_ACK
           then Some (kcp_parse_fastack sn ts (kcp_parse_ack sn k), True, ts, slides)
           else if sg_cmd seg = IKCP_CMD_PUSH
           then if itimediff sn (k_rcv_nxt k + k_rcv_wnd k) < 0
                then let k = kcp_ack_push sn ts k
                     in if itimediff sn (k_rcv_nxt k) \<ge> 0
                        then do { (_, k) \<leftarrow> kcp_parse_data seg k; Some (k, flag, latest, slides) }
                        else Some (k, flag, latest, slides)
                else Some (k, flag, latest, slides)
           else if sg_cmd seg = IKCP_CMD_WASK
           then Some (k\<lparr>k_probe := k_probe k OR IKCP_ASK_TELL\<rparr>, flag, latest, slides)
           else Some (k, flag, latest, slides))"

text \<open>
  The loop. An error returns the code and the connection as it is then. The header is decoded
  before the conversation is compared; decoding reads only.
\<close>

lemma input_header_length: "input_header data = Some (seg, len, rest) \<Longrightarrow> length data = length rest + IKCP_OVERHEAD"
  by (auto simp: input_header_def bind_eq_Some_conv split: prod.splits dest!: ikcp_decode_Some)

function input_loop :: "bool \<Rightarrow> bytes \<Rightarrow> input_vars \<Rightarrow> (int \<times> KCP + input_vars) option" where
  "input_loop regular data v =
     (if length data < IKCP_OVERHEAD then Some (Inr v)
      else case input_header data of
        None \<Rightarrow> None
      | Some (seg, len, rest) \<Rightarrow>
          if sg_conv seg \<noteq> k_conv (fst v) then Some (Inl (-1, fst v))
          else if length rest < len then Some (Inl (-2, fst v))
          else if sg_cmd seg \<noteq> IKCP_CMD_PUSH \<and> sg_cmd seg \<noteq> IKCP_CMD_ACK
                  \<and> sg_cmd seg \<noteq> IKCP_CMD_WASK \<and> sg_cmd seg \<noteq> IKCP_CMD_WINS
          then Some (Inl (-3, fst v))
          else (case input_segment regular (seg\<lparr>sg_data := take len rest\<rparr>) v of
                  None \<Rightarrow> None
                | Some v \<Rightarrow> input_loop regular (drop len rest) v))"
  by pat_completeness auto
termination
  by (relation "measure (\<lambda>(regular, data, v). length data)") (auto dest: input_header_length)

declare input_loop.simps [simp del]

definition input_rtt :: "clock \<Rightarrow> bool \<Rightarrow> bool \<Rightarrow> u32 \<Rightarrow> KCP \<Rightarrow> KCP" where
  "input_rtt clk regular flag latest k =
     (if flag \<and> regular
      then let (current, k) = currentMs clk k
           in if itimediff current latest \<ge> 0 then kcp_update_ack (current - latest) k else k
      else k)"

text \<open>
  The growth of the congestion window: below the threshold by one segment, above it by the
  fraction that \<open>incr\<close> accumulates; \<open>None\<close> is a division by zero.
\<close>

definition cwnd_avoid :: "KCP \<Rightarrow> KCP option" where
  "cwnd_avoid k =
     (let mss = k_mss k;
          incr = (if k_incr k < mss then mss else k_incr k)
      in if incr = 0 then None
         else let incr = incr + (mss * mss div incr + mss div 16);
                  cw = (if (k_cwnd k + 1) * mss \<le> incr
                        then if mss > 0 then (incr + mss - 1) div mss else incr + mss - 1
                        else k_cwnd k)
              in Some (k\<lparr>k_cwnd := cw, k_incr := incr\<rparr>))"

definition input_cwnd :: "u32 \<Rightarrow> KCP \<Rightarrow> KCP option" where
  "input_cwnd snd_una k =
     (if k_nocwnd k = 0 \<and> itimediff (k_snd_una k) snd_una > 0 \<and> k_cwnd k < k_rmt_wnd k
      then do {
        k \<leftarrow> (if k_cwnd k < k_ssthresh k
              then Some (k\<lparr>k_cwnd := k_cwnd k + 1, k_incr := k_incr k + k_mss k\<rparr>)
              else cwnd_avoid k);
        Some (if k_cwnd k > k_rmt_wnd k
              then k\<lparr>k_cwnd := k_rmt_wnd k, k_incr := k_rmt_wnd k * k_mss k\<rparr> else k)
      }
      else Some k)"

definition kcp_Input :: "clock \<Rightarrow> bytes \<Rightarrow> bool \<Rightarrow> bool \<Rightarrow> KCP \<Rightarrow> (int \<times> KCP) option" where
  "kcp_Input clk data regular ackNoDelay k =
     (if length data < IKCP_OVERHEAD then Some (-1, k)
      else do {
        r \<leftarrow> input_loop regular data (k, False, 0, False);
        case r of
          Inl e \<Rightarrow> Some e
        | Inr (k', flag, latest, slides) \<Rightarrow> do {
            k' \<leftarrow> input_cwnd (k_snd_una k) (input_rtt clk regular flag latest k');
            if slides then do { (_, k') \<leftarrow> kcp_flush clk False k'; Some (0, k') }
            else if ackNoDelay \<and> k_acklist k' \<noteq> [] then do { (_, k') \<leftarrow> kcp_flush clk True k'; Some (0, k') }
            else Some (0, k')
          }
      })"

section \<open>Decoding\<close>

text \<open>What a receiver sees of a segment.\<close>

definition on_wire :: "segment \<Rightarrow> segment" where
  "on_wire s = s\<lparr>sg_rto := 0, sg_xmit := 0, sg_resendts := 0, sg_fastack := 0, sg_acked := 0\<rparr>"

lemma on_wire_simps [simp]:
  "sg_conv (on_wire s) = sg_conv s" "sg_cmd (on_wire s) = sg_cmd s" "sg_frg (on_wire s) = sg_frg s"
  "sg_wnd (on_wire s) = sg_wnd s" "sg_ts (on_wire s) = sg_ts s" "sg_sn (on_wire s) = sg_sn s"
  "sg_una (on_wire s) = sg_una s" "sg_data (on_wire s) = sg_data s"
  by (simp_all add: on_wire_def)

lemma input_header_encode:
  assumes "length (sg_data s) < 2 ^ 32"
  shows "input_header (seg_bytes s @ rest)
    = Some ((on_wire s)\<lparr>sg_data := []\<rparr>, length (sg_data s), sg_data s @ rest)"
  using assms
  by (simp add: input_header_def seg_bytes_def seg_header_def on_wire_def zero_seg_def unat_of_nat)

lemma input_header_Some:
  assumes "IKCP_OVERHEAD \<le> length data"
  shows "\<exists>seg len rest. input_header data = Some (seg, len, rest) \<and> length rest = length data - IKCP_OVERHEAD"
proof -
  have "input_header data \<noteq> None"
    using assms by (auto simp: input_header_def ikcp_decode32u_def ikcp_decode8u_def ikcp_decode16u_def)
  then obtain seg len rest where "input_header data = Some (seg, len, rest)" by auto
  then show ?thesis using input_header_length by force
qed

section \<open>One segment\<close>

lemma parse_una_frame: "\<exists>b. kcp_parse_una una k = (fst (kcp_parse_una una k), k\<lparr>k_snd_buf := b\<rparr>)"
  by (auto simp: kcp_parse_una_def split: prod.splits)

lemma shrink_buf_frame: "\<exists>u. kcp_shrink_buf k = k\<lparr>k_snd_una := u\<rparr>"
  by (auto simp: kcp_shrink_buf_def split: option.split)

lemma parse_ack_frame: "\<exists>b. kcp_parse_ack sn k = k\<lparr>k_snd_buf := b\<rparr>"
proof -
  have "k = k\<lparr>k_snd_buf := k_snd_buf k\<rparr>" by simp
  then show ?thesis unfolding kcp_parse_ack_def by metis
qed

lemma parse_fastack_frame: "\<exists>b. kcp_parse_fastack sn ts k = k\<lparr>k_snd_buf := b\<rparr>"
proof -
  have "k = k\<lparr>k_snd_buf := k_snd_buf k\<rparr>" by simp
  then show ?thesis unfolding kcp_parse_fastack_def by metis
qed

text \<open>The part of a segment's processing that is about what it acknowledges.\<close>

definition input_una :: "bool \<Rightarrow> segment \<Rightarrow> KCP \<Rightarrow> KCP" where
  "input_una regular seg k =
     kcp_shrink_buf (snd (kcp_parse_una (sg_una seg)
       (if regular then k\<lparr>k_rmt_wnd := ucast (sg_wnd seg)\<rparr> else k)))"

lemma input_una_inv: "kcp_inv k \<Longrightarrow> kcp_inv (input_una regular seg k)"
  unfolding input_una_def by (intro shrink_buf_inv(1) parse_una_inv) (simp add: kcp_inv_def)

lemma input_una_frame:
  "\<exists>b u. input_una regular seg k =
     k\<lparr>k_rmt_wnd := (if regular then ucast (sg_wnd seg) else k_rmt_wnd k), k_snd_buf := b, k_snd_una := u\<rparr>"
proof -
  let ?k = "k\<lparr>k_rmt_wnd := (if regular then ucast (sg_wnd seg) else k_rmt_wnd k)\<rparr>"
  have k: "(if regular then k\<lparr>k_rmt_wnd := ucast (sg_wnd seg)\<rparr> else k) = ?k" by simp
  obtain b where b: "snd (kcp_parse_una (sg_una seg) ?k) = ?k\<lparr>k_snd_buf := b\<rparr>"
    using parse_una_frame[of "sg_una seg" ?k] by (metis snd_conv)
  obtain u where u: "kcp_shrink_buf (?k\<lparr>k_snd_buf := b\<rparr>) = ?k\<lparr>k_snd_buf := b, k_snd_una := u\<rparr>"
    using shrink_buf_frame by blast
  have "input_una regular seg k = ?k\<lparr>k_snd_buf := b, k_snd_una := u\<rparr>"
    unfolding input_una_def k b u ..
  then show ?thesis by blast
qed

lemma input_segment_eq:
  "input_segment regular seg (k, flag, latest, slides) =
     (let k1 = input_una regular seg k;
          sl = (slides \<or> 0 < fst (kcp_parse_una (sg_una seg)
                (if regular then k\<lparr>k_rmt_wnd := ucast (sg_wnd seg)\<rparr> else k)))
      in if sg_cmd seg = IKCP_CMD_ACK
         then Some (kcp_parse_fastack (sg_sn seg) (sg_ts seg) (kcp_parse_ack (sg_sn seg) k1), True, sg_ts seg, sl)
         else if sg_cmd seg = IKCP_CMD_PUSH
         then if itimediff (sg_sn seg) (k_rcv_nxt k1 + k_rcv_wnd k1) < 0
              then let k2 = kcp_ack_push (sg_sn seg) (sg_ts seg) k1
                   in if itimediff (sg_sn seg) (k_rcv_nxt k2) \<ge> 0
                      then map_option (\<lambda>(_, k). (k, flag, latest, sl)) (kcp_parse_data seg k2)
                      else Some (k2, flag, latest, sl)
              else Some (k1, flag, latest, sl)
         else if sg_cmd seg = IKCP_CMD_WASK
         then Some (k1\<lparr>k_probe := k_probe k1 OR IKCP_ASK_TELL\<rparr>, flag, latest, sl)
         else Some (k1, flag, latest, sl))"
  by (simp add: input_segment_def input_una_def case_prod_beta Let_def map_option_case Option.bind_def
      split: option.split)

text \<open>
  What processing leaves alone; what it may do to the segments in flight (drop or acknowledge
  them, never change or add one); what it may do to received segments (only the segments taken
  in arrive, and the queue of deliverable ones grows in order).
\<close>

definition input_frame :: "KCP \<Rightarrow> KCP \<Rightarrow> bool" where
  "input_frame k k' \<longleftrightarrow> k_conv k' = k_conv k \<and> k_mtu k' = k_mtu k \<and> k_mss k' = k_mss k
     \<and> k_output k' = k_output k \<and> k_snd_queue k' = k_snd_queue k \<and> k_snd_nxt k' = k_snd_nxt k
     \<and> k_state k' = k_state k \<and> k_cwnd k' = k_cwnd k \<and> k_ssthresh k' = k_ssthresh k
     \<and> k_nocwnd k' = k_nocwnd k \<and> k_interval k' = k_interval k \<and> k_snd_wnd k' = k_snd_wnd k
     \<and> k_rcv_wnd k' = k_rcv_wnd k \<and> k_rx_minrto k' = k_rx_minrto k \<and> k_stream k' = k_stream k"

definition flight_sub :: "segment list \<Rightarrow> segment list \<Rightarrow> bool" where
  "flight_sub xs ys \<longleftrightarrow>
     (\<forall>y \<in> set ys. sg_acked y \<noteq> 1 \<longrightarrow> (\<exists>x \<in> set xs. sg_acked x \<noteq> 1 \<and> same_payload x y))"

definition rcv_grows :: "(segment \<Rightarrow> bool) \<Rightarrow> KCP \<Rightarrow> KCP \<Rightarrow> bool" where
  "rcv_grows P k k' \<longleftrightarrow> (\<exists>ms. rcv_queue_list k' = rcv_queue_list k @ ms
     \<and> k_rcv_nxt k' = k_rcv_nxt k + of_nat (length ms)
     \<and> (\<forall>x. x \<in> set ms \<or> x \<in># rcv_buf_items k' \<longrightarrow> x \<in># rcv_buf_items k \<or> P x))"

lemma input_frame_refl [simp]: "input_frame k k"
  by (simp add: input_frame_def)

lemma input_frame_trans: "input_frame k1 k2 \<Longrightarrow> input_frame k2 k3 \<Longrightarrow> input_frame k1 k3"
  by (simp add: input_frame_def)

lemma same_payload_trans: "same_payload x y \<Longrightarrow> same_payload y z \<Longrightarrow> same_payload x z"
  by (simp add: same_payload_def)

lemma flight_sub_refl [simp]: "flight_sub xs xs"
  by (auto simp: flight_sub_def)

lemma flight_sub_trans: "flight_sub xs ys \<Longrightarrow> flight_sub ys zs \<Longrightarrow> flight_sub xs zs"
  unfolding flight_sub_def by (meson same_payload_trans)

lemma flight_sub_subset: "set ys \<subseteq> set xs \<Longrightarrow> flight_sub xs ys"
  by (auto simp: flight_sub_def)

lemma rcv_grows_same:
  "rcv_queue_list k' = rcv_queue_list k \<Longrightarrow> rcv_buf_items k' = rcv_buf_items k
     \<Longrightarrow> k_rcv_nxt k' = k_rcv_nxt k \<Longrightarrow> rcv_grows P k k'"
  by (auto simp: rcv_grows_def intro!: exI[of _ "[]"])

lemma rcv_grows_trans:
  assumes "rcv_grows P k1 k2" and "rcv_grows P k2 k3"
  shows "rcv_grows P k1 k3"
proof -
  obtain ms where ms: "rcv_queue_list k2 = rcv_queue_list k1 @ ms" "k_rcv_nxt k2 = k_rcv_nxt k1 + of_nat (length ms)"
      "\<forall>x. x \<in> set ms \<or> x \<in># rcv_buf_items k2 \<longrightarrow> x \<in># rcv_buf_items k1 \<or> P x"
    using assms(1) unfolding rcv_grows_def by blast
  obtain ns where ns: "rcv_queue_list k3 = rcv_queue_list k2 @ ns" "k_rcv_nxt k3 = k_rcv_nxt k2 + of_nat (length ns)"
      "\<forall>x. x \<in> set ns \<or> x \<in># rcv_buf_items k3 \<longrightarrow> x \<in># rcv_buf_items k2 \<or> P x"
    using assms(2) unfolding rcv_grows_def by blast
  show ?thesis
    unfolding rcv_grows_def
  proof (intro exI[of _ "ms @ ns"] conjI allI impI)
    show "rcv_queue_list k3 = rcv_queue_list k1 @ ms @ ns" using ms(1) ns(1) by simp
    show "k_rcv_nxt k3 = k_rcv_nxt k1 + of_nat (length (ms @ ns))" using ms(2) ns(2) by (simp add: algebra_simps)
    show "x \<in># rcv_buf_items k1 \<or> P x" if "x \<in> set (ms @ ns) \<or> x \<in># rcv_buf_items k3" for x
      using that ms(3) ns(3) by auto
  qed
qed

text \<open>A visit of the segments in flight that only acknowledges or counts is such a change.\<close>

lemma list_each_flight_sub:
  assumes "\<And>x s. sg_acked (fst (snd (fn x s))) \<noteq> 1 \<Longrightarrow> sg_acked x \<noteq> 1 \<and> same_payload x (fst (snd (fn x s)))"
  shows "flight_sub xs (fst (snd (list_each fn xs s)))"
proof (induction xs arbitrary: s)
  case (Cons x xs)
  have tl: "flight_sub xs (fst (snd (list_each fn xs t)))" for t by (rule Cons.IH)
  show ?case
    using tl[of "snd (snd (fn x s))"] assms[of x s]
    by (auto simp: list_each_Cons flight_sub_def simp del: list_each.simps(2))
qed simp

lemma parse_ack_flight:
  assumes "kcp_inv k"
  shows "flight_sub (snd_buf_list k) (snd_buf_list (kcp_parse_ack sn k))"
proof -
  have rb: "rb_inv (k_snd_buf k)" using assms by (auto simp: snd_inv_def)
  have "flight_sub (snd_buf_list k) (fst (snd (list_each (ack_visit sn) (snd_buf_list k) ())))"
    by (rule list_each_flight_sub) (auto simp: ack_visit_def recycleSegment_def split: if_splits)
  then show ?thesis
    by (simp add: kcp_parse_ack_def rb_ForEach_list[OF rb])
qed

lemma parse_fastack_flight:
  assumes "kcp_inv k"
  shows "flight_sub (snd_buf_list k) (snd_buf_list (kcp_parse_fastack sn ts k))"
proof -
  have rb: "rb_inv (k_snd_buf k)" using assms by (auto simp: snd_inv_def)
  have "flight_sub (snd_buf_list k) (fst (snd (list_each (fastack_visit sn ts) (snd_buf_list k) ())))"
    by (rule list_each_flight_sub) (auto simp: fastack_visit_def same_payload_def split: if_splits)
  then show ?thesis
    by (simp add: kcp_parse_fastack_def rb_ForEach_list[OF rb])
qed

lemma input_una_flight:
  assumes "kcp_inv k"
  shows "flight_sub (snd_buf_list k) (snd_buf_list (input_una regular seg k))"
proof -
  let ?k = "if regular then k\<lparr>k_rmt_wnd := ucast (sg_wnd seg)\<rparr> else k"
  have snd: "snd_inv ?k" using assms by auto
  obtain b where b: "snd (kcp_parse_una (sg_una seg) ?k) = ?k\<lparr>k_snd_buf := b\<rparr>"
      "rb_list b = dropWhile (\<lambda>s. itimediff (sg_una seg) (sg_sn s) > 0) (snd_buf_list ?k)"
    using parse_una_correct(2)[OF snd] by blast
  have "snd_buf_list (input_una regular seg k) = rb_list b"
    by (simp add: input_una_def b(1) kcp_shrink_buf_def split: option.split)
  then show ?thesis
    using b(2) by (intro flight_sub_subset) (auto dest: set_dropWhileD)
qed

text \<open>The processing of one segment never fails on data of at most one MTU.\<close>

definition input_ok :: "(segment \<Rightarrow> bool) \<Rightarrow> KCP \<Rightarrow> KCP \<Rightarrow> bool" where
  "input_ok P k k' \<longleftrightarrow> kcp_inv k' \<and> input_frame k k' \<and> flight_sub (snd_buf_list k) (snd_buf_list k')
     \<and> rcv_grows P k k'"

lemma input_ok_refl: "kcp_inv k \<Longrightarrow> input_ok P k k"
  by (simp add: input_ok_def rcv_grows_same)

lemma input_ok_trans: "input_ok P k1 k2 \<Longrightarrow> input_ok P k2 k3 \<Longrightarrow> input_ok P k1 k3"
  unfolding input_ok_def using input_frame_trans flight_sub_trans rcv_grows_trans by blast

lemma input_una_ok:
  assumes "kcp_inv k"
  shows "input_ok P k (input_una regular seg k)"
proof -
  obtain b u where k': "input_una regular seg k =
     k\<lparr>k_rmt_wnd := (if regular then ucast (sg_wnd seg) else k_rmt_wnd k), k_snd_buf := b, k_snd_una := u\<rparr>"
    using input_una_frame by blast
  have "input_frame k (input_una regular seg k)" "rcv_grows P k (input_una regular seg k)"
    unfolding k' by (simp_all add: input_frame_def rcv_grows_same)
  then show ?thesis
    using input_una_inv[OF assms] input_una_flight[OF assms] by (simp add: input_ok_def)
qed

lemma parse_acks_ok:
  assumes "kcp_inv k"
  shows "input_ok P k (kcp_parse_fastack sn ts (kcp_parse_ack sn k))"
proof -
  have inv: "kcp_inv (kcp_parse_ack sn k)" using assms by (rule parse_ack_inv)
  obtain b where b: "kcp_parse_ack sn k = k\<lparr>k_snd_buf := b\<rparr>" using parse_ack_frame by blast
  obtain c where c: "kcp_parse_fastack sn ts (kcp_parse_ack sn k) = (k\<lparr>k_snd_buf := b\<rparr>)\<lparr>k_snd_buf := c\<rparr>"
    using parse_fastack_frame unfolding b by blast
  have "input_frame k (kcp_parse_fastack sn ts (kcp_parse_ack sn k))"
      "rcv_grows P k (kcp_parse_fastack sn ts (kcp_parse_ack sn k))"
    unfolding c by (simp_all add: input_frame_def rcv_grows_same)
  then show ?thesis
    using parse_fastack_inv[OF inv] flight_sub_trans[OF parse_ack_flight[OF assms] parse_fastack_flight[OF inv]]
    by (simp add: input_ok_def)
qed

lemma ack_push_ok:
  assumes "kcp_inv k"
  shows "input_ok P k (kcp_ack_push sn ts k)"
  using ack_push_inv[OF assms]
  by (simp add: input_ok_def kcp_ack_push_def input_frame_def rcv_grows_same)

lemma probe_ok: "kcp_inv k \<Longrightarrow> input_ok P k (k\<lparr>k_probe := p\<rparr>)"
  by (simp add: input_ok_def kcp_inv_def input_frame_def rcv_grows_same)

lemma parse_data_ok:
  assumes inv: "kcp_inv k" and len: "length (sg_data seg) \<le> unat (k_mtu k)" and P: "P seg"
  shows "\<exists>r k'. kcp_parse_data seg k = Some (r, k') \<and> input_ok P k k'"
proof (cases "itimediff (sg_sn seg) (k_rcv_nxt k + k_rcv_wnd k) \<ge> 0 \<or> itimediff (sg_sn seg) (k_rcv_nxt k) < 0")
  case True
  then show ?thesis using kcp_parse_data_outside input_ok_refl[OF inv] by blast
next
  case False
  obtain k' ms where k': "kcp_parse_data seg k = Some (False, k')" "kcp_inv k'"
     "rcv_queue_list k' = rcv_queue_list k @ ms"
     "(if heap_Has (k_rcv_buf k) (sg_sn seg) then rcv_buf_items k else add_mset seg (rcv_buf_items k))
         = rcv_buf_items k' + mset ms"
     "k_rcv_nxt k' = k_rcv_nxt k + of_nat (length ms)"
     "\<exists>q h n. k' = k\<lparr>k_rcv_queue := q, k_rcv_buf := h, k_rcv_nxt := n\<rparr>"
    using kcp_parse_data_inside[OF inv len False] by blast
  have "x \<in># rcv_buf_items k \<or> P x" if "x \<in> set ms \<or> x \<in># rcv_buf_items k'" for x
  proof -
    have "x \<in># rcv_buf_items k' + mset ms" using that by auto
    then show ?thesis unfolding k'(4)[symmetric] using P by (auto split: if_splits)
  qed
  then have "rcv_grows P k k'"
    using k'(3,5) unfolding rcv_grows_def by blast
  moreover have "input_frame k k'" "snd_buf_list k' = snd_buf_list k"
    using k'(6) by (auto simp: input_frame_def)
  ultimately have "input_ok P k k'" using k'(2) by (simp add: input_ok_def)
  then show ?thesis using k'(1) by blast
qed

lemma input_segment_ok:
  assumes inv: "kcp_inv k" and len: "length (sg_data seg) \<le> unat (k_mtu k)"
    and P: "sg_cmd seg = IKCP_CMD_PUSH \<Longrightarrow> P seg"
  shows "\<exists>k' v. input_segment regular seg (k, w) = Some (k', v) \<and> input_ok P k k'"
proof -
  obtain flag latest slides where w: "w = (flag, latest, slides)" by (metis prod.collapse)
  let ?k1 = "input_una regular seg k"
  let ?k2 = "kcp_ack_push (sg_sn seg) (sg_ts seg) ?k1"
  have k1: "input_ok P k ?k1" by (rule input_una_ok[OF inv])
  then have inv1: "kcp_inv ?k1" and mtu1: "k_mtu ?k1 = k_mtu k" by (simp_all add: input_ok_def input_frame_def)
  have k2: "input_ok P k ?k2" by (rule input_ok_trans[OF k1 ack_push_ok[OF inv1]])
  then have inv2: "kcp_inv ?k2" and mtu2: "k_mtu ?k2 = k_mtu k" by (simp_all add: input_ok_def input_frame_def)
  have acks: "input_ok P k (kcp_parse_fastack (sg_sn seg) (sg_ts seg) (kcp_parse_ack (sg_sn seg) ?k1))"
    by (rule input_ok_trans[OF k1 parse_acks_ok[OF inv1]])
  have probe: "input_ok P k (?k1\<lparr>k_probe := p\<rparr>)" for p
    by (rule input_ok_trans[OF k1 probe_ok[OF inv1]])
  have data: "\<exists>r k'. kcp_parse_data seg ?k2 = Some (r, k') \<and> input_ok P k k'" if "sg_cmd seg = IKCP_CMD_PUSH"
    using parse_data_ok[of ?k2 seg P] inv2 len P[OF that] mtu2 input_ok_trans[OF k2] by auto
  show ?thesis
    unfolding w input_segment_eq Let_def
    using acks probe k1 k2 data by (auto split: if_splits)
qed

section \<open>The whole datagram: parsing, then processing\<close>

text \<open>
  The segments of a datagram that are processed, and the code of what stops the loop, do not
  depend on the state of the connection.
\<close>

definition cmd_known :: "byte \<Rightarrow> bool" where
  "cmd_known c \<longleftrightarrow> c = IKCP_CMD_PUSH \<or> c = IKCP_CMD_ACK \<or> c = IKCP_CMD_WASK \<or> c = IKCP_CMD_WINS"

function input_parse :: "u32 \<Rightarrow> bytes \<Rightarrow> segment list \<times> int" where
  "input_parse conv data =
     (if length data < IKCP_OVERHEAD then ([], 0)
      else case input_header data of
        None \<Rightarrow> ([], 0)
      | Some (seg, len, rest) \<Rightarrow>
          if sg_conv seg \<noteq> conv then ([], -1)
          else if length rest < len then ([], -2)
          else if \<not> cmd_known (sg_cmd seg) then ([], -3)
          else (seg\<lparr>sg_data := take len rest\<rparr> # fst (input_parse conv (drop len rest)),
                snd (input_parse conv (drop len rest))))"
  by pat_completeness auto
termination
  by (relation "measure (\<lambda>(conv, data). length data)") (auto dest: input_header_length)

declare input_parse.simps [simp del]

fun input_segments :: "bool \<Rightarrow> segment list \<Rightarrow> input_vars \<Rightarrow> input_vars option" where
  "input_segments regular [] v = Some v"
| "input_segments regular (seg # segs) v =
     (case input_segment regular seg v of None \<Rightarrow> None | Some v \<Rightarrow> input_segments regular segs v)"

lemma input_parse_data:
  "\<forall>seg \<in> set (fst (input_parse conv data)). length (sg_data seg) \<le> length data \<and> cmd_known (sg_cmd seg)"
proof (induction conv data rule: input_parse.induct)
  case (1 conv data)
  show ?case
  proof (cases "input_header data")
    case None
    then show ?thesis by (subst input_parse.simps) simp
  next
    case (Some p)
    then obtain seg len rest where p: "input_header data = Some (seg, len, rest)" by (cases p) auto
    from input_header_length[OF p] have rest: "length rest \<le> length data" by simp
    show ?thesis
    proof (cases "length data < IKCP_OVERHEAD \<or> sg_conv seg \<noteq> conv \<or> length rest < len \<or> \<not> cmd_known (sg_cmd seg)")
      case True
      then show ?thesis by (subst input_parse.simps) (auto simp: p)
    next
      case False
      then have "\<forall>seg \<in> set (fst (input_parse conv (drop len rest))). length (sg_data seg) \<le> length data \<and> cmd_known (sg_cmd seg)"
        using 1[OF _ p refl refl] rest by fastforce
      then show ?thesis using False rest by (subst input_parse.simps) (simp add: p)
    qed
  qed
qed

lemma input_parse_code: "snd (input_parse conv data) \<in> {0, -1, -2, -3}"
proof (induction conv data rule: input_parse.induct)
  case (1 conv data)
  then show ?case
    by (subst input_parse.simps) (auto split: option.split)
qed

text \<open>Every accepted segment has been processed when the loop stops, and none other.\<close>

lemma input_segment_conv:
  assumes "kcp_inv (fst v)" and "length (sg_data seg) \<le> unat (k_mtu (fst v))"
  shows "\<exists>v'. input_segment regular seg v = Some v' \<and> kcp_inv (fst v')
     \<and> k_conv (fst v') = k_conv (fst v) \<and> k_mtu (fst v') = k_mtu (fst v)"
  using input_segment_ok[of "fst v" seg "\<lambda>_. True" regular "snd v"] assms
  by (auto simp: input_ok_def input_frame_def)

lemma input_loop_parse:
  assumes "kcp_inv (fst v)" and "length data \<le> unat (k_mtu (fst v))"
  shows "input_loop regular data v =
     map_option (\<lambda>w. if snd (input_parse (k_conv (fst v)) data) = 0 then Inr w
                     else Inl (snd (input_parse (k_conv (fst v)) data), fst w))
                (input_segments regular (fst (input_parse (k_conv (fst v)) data)) v)"
  using assms
proof (induction regular data v rule: input_loop.induct)
  case (1 regular data v)
  show ?case
  proof (cases "length data < IKCP_OVERHEAD")
    case True
    then show ?thesis by (simp add: input_loop.simps[of regular data v] input_parse.simps[of _ data])
  next
    case long: False
    then obtain seg len rest where p: "input_header data = Some (seg, len, rest)"
      and rest: "length rest = length data - IKCP_OVERHEAD"
      using input_header_Some[of data] by auto
    show ?thesis
    proof (cases "sg_conv seg = k_conv (fst v) \<and> len \<le> length rest \<and> cmd_known (sg_cmd seg)")
      case False
      then show ?thesis
        using long by (auto simp: input_loop.simps[of regular data v] input_parse.simps[of _ data] p cmd_known_def)
    next
      case ok: True
      let ?seg = "seg\<lparr>sg_data := take len rest\<rparr>"
      have "length (sg_data ?seg) \<le> unat (k_mtu (fst v))" using rest 1(3) by simp
      from input_segment_conv[OF 1(2) this, of regular] obtain v' where v': "input_segment regular ?seg v = Some v'"
        "kcp_inv (fst v')" "k_conv (fst v') = k_conv (fst v)" "k_mtu (fst v') = k_mtu (fst v)" by blast
      have IH: "input_loop regular (drop len rest) v' =
        map_option (\<lambda>w. if snd (input_parse (k_conv (fst v')) (drop len rest)) = 0 then Inr w
                     else Inl (snd (input_parse (k_conv (fst v')) (drop len rest)), fst w))
                (input_segments regular (fst (input_parse (k_conv (fst v')) (drop len rest))) v')"
        by (rule 1(1)[OF long p refl refl _ _ _ v'(1,2)])
           (use ok rest 1(3) v'(4) in \<open>auto simp: cmd_known_def\<close>)
      let ?rec = "input_parse (k_conv (fst v)) (drop len rest)"
      have ps: "input_parse (k_conv (fst v)) data = (?seg # fst ?rec, snd ?rec)"
        using long ok by (simp add: input_parse.simps[of _ data] p)
      have step: "input_loop regular data v = input_loop regular (drop len rest) v'"
        using long ok v'(1) by (auto simp: input_loop.simps[of regular data v] p cmd_known_def)
      show ?thesis
        unfolding step IH v'(3) ps by (simp add: v'(1) cong: if_cong)
    qed
  qed
qed

lemma input_segments_ok:
  assumes "kcp_inv k" and "\<forall>seg \<in> set segs. length (sg_data seg) \<le> unat (k_mtu k)"
    and "\<And>seg. seg \<in> set segs \<Longrightarrow> sg_cmd seg = IKCP_CMD_PUSH \<Longrightarrow> P seg"
  shows "\<exists>k' w'. input_segments regular segs (k, w) = Some (k', w') \<and> input_ok P k k'"
  using assms
proof (induction segs arbitrary: k w)
  case Nil
  then show ?case by (cases w rule: prod_cases3) (simp add: input_ok_refl)
next
  case (Cons seg segs)
  obtain k1 w1 where k1: "input_segment regular seg (k, w) = Some (k1, w1)" "input_ok P k k1"
    using input_segment_ok[of k seg P regular w] Cons.prems by auto
  then have "kcp_inv k1" "k_mtu k1 = k_mtu k" by (simp_all add: input_ok_def input_frame_def)
  then obtain k' w' where "input_segments regular segs (k1, w1) = Some (k', w')" "input_ok P k1 k'"
    using Cons.IH[of k1 w1] Cons.prems(2,3) by auto
  moreover from this k1(2) have "input_ok P k k'" using input_ok_trans by blast
  ultimately show ?case using k1(1) by (metis input_segments.simps(2) option.simps(5))
qed

text \<open>A datagram of whole segments is parsed back into them.\<close>

lemma input_parse_packed:
  assumes "\<forall>s \<in> set ss. sg_conv s = conv \<and> cmd_known (sg_cmd s) \<and> length (sg_data s) < 2 ^ 32"
  shows "input_parse conv (concat (map seg_bytes ss)) = (map on_wire ss, 0)"
  using assms
proof (induction ss)
  case Nil
  then show ?case by (simp add: input_parse.simps)
next
  case (Cons s ss)
  have hd: "input_header (concat (map seg_bytes (s # ss)))
      = Some ((on_wire s)\<lparr>sg_data := []\<rparr>, length (sg_data s), sg_data s @ concat (map seg_bytes ss))"
    using input_header_encode[of s "concat (map seg_bytes ss)"] Cons.prems by simp
  have len: "\<not> length (concat (map seg_bytes (s # ss))) < IKCP_OVERHEAD"
    by (simp add: length_seg_bytes)
  have "on_wire s\<lparr>sg_data := sg_data s\<rparr> = on_wire s" by (simp add: on_wire_def)
  then show ?case
    using Cons len by (subst input_parse.simps) (simp only: hd, simp)
qed

text \<open>Without the conversation check: what a packed datagram yields is among its segments.\<close>

lemma input_parse_subset:
  assumes "\<forall>s \<in> set ss. length (sg_data s) < 2 ^ 32"
  shows "set (fst (input_parse conv (concat (map seg_bytes ss)))) \<subseteq> on_wire ` set ss"
  using assms
proof (induction ss)
  case Nil
  then show ?case by (simp add: input_parse.simps)
next
  case (Cons s ss)
  have hd: "input_header (concat (map seg_bytes (s # ss)))
      = Some ((on_wire s)\<lparr>sg_data := []\<rparr>, length (sg_data s), sg_data s @ concat (map seg_bytes ss))"
    using input_header_encode[of s "concat (map seg_bytes ss)"] Cons.prems by simp
  have eq: "on_wire s\<lparr>sg_data := sg_data s\<rparr> = on_wire s" by (simp add: on_wire_def)
  show ?case
    using Cons by (subst input_parse.simps) (simp only: hd, auto simp: eq)
qed

section \<open>The congestion window\<close>

lemma cwnd_avoid_Some:
  assumes "0 < unat (k_mss k)"
  shows "\<exists>c i. cwnd_avoid k = Some (k\<lparr>k_cwnd := c, k_incr := i\<rparr>)"
proof -
  have ne: "(if k_incr k < k_mss k then k_mss k else k_incr k) \<noteq> 0"
    using assms by (auto simp: unat_gt_0 not_less)
  show ?thesis unfolding cwnd_avoid_def Let_def if_not_P[OF ne] by blast
qed

lemma input_cwnd_ok:
  assumes "0 < unat (k_mss k)"
  shows "\<exists>cw ic. input_cwnd una k = Some (k\<lparr>k_cwnd := cw, k_incr := ic\<rparr>)
     \<and> (cw = k_cwnd k \<or> k_cwnd k < k_rmt_wnd k \<and> cw \<le> k_rmt_wnd k)"
proof (cases "k_nocwnd k = 0 \<and> itimediff (k_snd_una k) una > 0 \<and> k_cwnd k < k_rmt_wnd k")
  case False
  then have "input_cwnd una k = Some (k\<lparr>k_cwnd := k_cwnd k, k_incr := k_incr k\<rparr>)"
    by (auto simp: input_cwnd_def)
  then show ?thesis by blast
next
  case True
  obtain c i where "(if k_cwnd k < k_ssthresh k
        then Some (k\<lparr>k_cwnd := k_cwnd k + 1, k_incr := k_incr k + k_mss k\<rparr>)
        else cwnd_avoid k) = Some (k\<lparr>k_cwnd := c, k_incr := i\<rparr>)"
    using cwnd_avoid_Some[OF assms] by (cases "k_cwnd k < k_ssthresh k") auto
  then have "input_cwnd una k = Some (if c > k_rmt_wnd k
      then k\<lparr>k_cwnd := k_rmt_wnd k, k_incr := k_rmt_wnd k * k_mss k\<rparr> else k\<lparr>k_cwnd := c, k_incr := i\<rparr>)"
    using True unfolding input_cwnd_def by simp
  then have "\<exists>cw ic. input_cwnd una k = Some (k\<lparr>k_cwnd := cw, k_incr := ic\<rparr>) \<and> cw \<le> k_rmt_wnd k"
    by (cases "c > k_rmt_wnd k") (auto simp: not_less)
  then show ?thesis using True by blast
qed

section \<open>A whole datagram\<close>

lemma input_rtt_frame: "\<exists>r s v o'. input_rtt clk regular flag latest k =
    k\<lparr>k_reads := r, k_rx_srtt := s, k_rx_rttvar := v, k_rx_rto := o'\<rparr>"
proof -
  have id: "k = k\<lparr>k_reads := k_reads k, k_rx_srtt := k_rx_srtt k, k_rx_rttvar := k_rx_rttvar k, k_rx_rto := k_rx_rto k\<rparr>"
    by simp
  have read: "k\<lparr>k_reads := n\<rparr> =
      k\<lparr>k_reads := n, k_rx_srtt := k_rx_srtt k, k_rx_rttvar := k_rx_rttvar k, k_rx_rto := k_rx_rto k\<rparr>" for n
    by simp
  obtain s v r where upd: "kcp_update_ack (clk (k_reads k) - latest) (k\<lparr>k_reads := k_reads k + 1\<rparr>)
      = k\<lparr>k_reads := k_reads k + 1, k_rx_srtt := s, k_rx_rttvar := v, k_rx_rto := r\<rparr>"
    using update_ack_frame by blast
  show ?thesis
    unfolding input_rtt_def currentMs_def Let_def prod.case upd using id read by metis
qed

text \<open>The round-trip estimate and the congestion window, which follow the segments, change nothing else.\<close>

definition only_estimates :: "KCP \<Rightarrow> KCP \<Rightarrow> bool" where
  "only_estimates k k' \<longleftrightarrow> (\<exists>r s v o' c i. k' =
     k\<lparr>k_reads := r, k_rx_srtt := s, k_rx_rttvar := v, k_rx_rto := o', k_cwnd := c, k_incr := i\<rparr>)"

lemma only_estimates_refl: "only_estimates k k"
proof -
  have "k = k\<lparr>k_reads := k_reads k, k_rx_srtt := k_rx_srtt k, k_rx_rttvar := k_rx_rttvar k,
        k_rx_rto := k_rx_rto k, k_cwnd := k_cwnd k, k_incr := k_incr k\<rparr>" by simp
  then show ?thesis unfolding only_estimates_def by blast
qed

lemma only_estimates_same:
  "only_estimates k k' \<Longrightarrow> k_acklist k' = k_acklist k \<and> k_conv k' = k_conv k \<and> k_output k' = k_output k"
  by (auto simp: only_estimates_def)

lemma sends_ok_start:
  assumes "only_estimates k k1" and "sends_ok k1 k'"
  shows "sends_ok k k'"
proof -
  obtain r s v o' c i where k1: "k1 =
      k\<lparr>k_reads := r, k_rx_srtt := s, k_rx_rttvar := v, k_rx_rto := o', k_cwnd := c, k_incr := i\<rparr>"
    using assms(1) unfolding only_estimates_def by blast
  have "flush_seg k1 xs = flush_seg k xs" for xs
    by (simp add: fun_eq_iff flush_seg_def kcp_wnd_unused_def k1)
  with assms(2) show ?thesis by (simp add: sends_ok_def k1)
qed

text \<open>A call of \<open>Input\<close>: the segments, the estimates, and possibly a flush.\<close>

lemma kcp_Input_split:
  assumes inv: "kcp_inv k" and len: "length data \<le> unat (k_mtu k)" and long: "IKCP_OVERHEAD \<le> length data"
  shows "\<exists>k1 w k2 k'. input_segments regular (fst (input_parse (k_conv k) data)) (k, False, 0, False) = Some (k1, w)
    \<and> kcp_Input clk data regular ackNoDelay k = Some (snd (input_parse (k_conv k) data), k')
    \<and> only_estimates k1 k2 \<and> kcp_inv k2
    \<and> (k' = k2 \<and> \<not> (snd (input_parse (k_conv k) data) = 0 \<and> ackNoDelay \<and> k_acklist k2 \<noteq> [])
       \<or> (\<exists>b t. kcp_flush clk b k2 = Some (t, k')))"
proof -
  let ?segs = "fst (input_parse (k_conv k) data)" and ?code = "snd (input_parse (k_conv k) data)"
  have "\<forall>seg \<in> set ?segs. length (sg_data seg) \<le> unat (k_mtu k)"
    using input_parse_data[of "k_conv k" data] len by (auto intro: order_trans)
  then obtain k1 w where
    k1: "input_segments regular ?segs (k, False, 0, False) = Some (k1, w)" "input_ok (\<lambda>_. True) k k1"
    using input_segments_ok[of k ?segs "\<lambda>_. True" regular "(False, 0, False)"] inv by blast
  obtain flag latest slides where w: "w = (flag, latest, slides)" by (metis prod.collapse)
  have loop: "input_loop regular data (k, False, 0, False) =
      Some (if ?code = 0 then Inr (k1, flag, latest, slides) else Inl (?code, k1))"
    using input_loop_parse[of "(k, False, 0, False)" data regular] inv len k1(1) by (simp add: w)
  have inv1: "kcp_inv k1" using k1(2) by (simp add: input_ok_def)
  show ?thesis
  proof (cases "?code = 0")
    case err: False
    have "kcp_Input clk data regular ackNoDelay k = Some (?code, k1)"
      using err long loop by (simp add: kcp_Input_def)
    then show ?thesis using k1(1) inv1 err only_estimates_refl by blast
  next
    case ok: True
    obtain r s v o' where rtt: "input_rtt clk regular flag latest k1 =
        k1\<lparr>k_reads := r, k_rx_srtt := s, k_rx_rttvar := v, k_rx_rto := o'\<rparr>" using input_rtt_frame by blast
    let ?kr = "k1\<lparr>k_reads := r, k_rx_srtt := s, k_rx_rttvar := v, k_rx_rto := o'\<rparr>"
    have "0 < unat (k_mss ?kr)" using cfg_inv_mss_pos[of k1] inv1 by auto
    from input_cwnd_ok[OF this] obtain c i where
      cw: "input_cwnd (k_snd_una k) ?kr = Some (?kr\<lparr>k_cwnd := c, k_incr := i\<rparr>)" by blast
    define k2 where "k2 = ?kr\<lparr>k_cwnd := c, k_incr := i\<rparr>"
    have est: "only_estimates k1 k2" unfolding only_estimates_def k2_def by blast
    have inv2: "kcp_inv k2" using inv1 by (simp add: kcp_inv_def k2_def)
    have fl: "\<exists>t k'. kcp_flush clk b k2 = Some (t, k')" for b
      using kcp_flush_sends[OF inv2, of clk b] by blast
    have input: "kcp_Input clk data regular ackNoDelay k =
        (if slides then do { (_, k') \<leftarrow> kcp_flush clk False k2; Some (0, k') }
         else if ackNoDelay \<and> k_acklist k2 \<noteq> [] then do { (_, k') \<leftarrow> kcp_flush clk True k2; Some (0, k') }
         else Some (0, k2))"
      using long ok loop rtt cw by (simp add: kcp_Input_def k2_def)
    have "\<exists>k'. kcp_Input clk data regular ackNoDelay k = Some (0, k')
       \<and> (k' = k2 \<and> \<not> (ackNoDelay \<and> k_acklist k2 \<noteq> []) \<or> (\<exists>b t. kcp_flush clk b k2 = Some (t, k')))"
    proof (cases "slides \<or> ackNoDelay \<and> k_acklist k2 \<noteq> []")
      case True
      obtain t k' where k': "kcp_flush clk (\<not> slides) k2 = Some (t, k')" using fl by blast
      then have "kcp_Input clk data regular ackNoDelay k = Some (0, k')"
        unfolding input using True by (cases slides) auto
      then show ?thesis using k' by blast
    next
      case False
      then show ?thesis unfolding input by (intro exI[of _ k2]) auto
    qed
    then show ?thesis unfolding ok using k1(1) inv2 est by blast
  qed
qed

text \<open>
  \<open>Input\<close> never panics on a datagram of at most one MTU, whatever its bytes; its code is that of
  the parser; the segments parsed are processed, and a flush may follow.
\<close>

lemma kcp_Input_short: "length data < IKCP_OVERHEAD \<Longrightarrow> kcp_Input clk data regular ackNoDelay k = Some (-1, k)"
  by (simp add: kcp_Input_def)

lemma kcp_Input_segments:
  assumes inv: "kcp_inv k" and len: "length data \<le> unat (k_mtu k)" and long: "IKCP_OVERHEAD \<le> length data"
  shows "\<exists>k1 w k'. input_segments regular (fst (input_parse (k_conv k) data)) (k, False, 0, False) = Some (k1, w)
    \<and> kcp_Input clk data regular ackNoDelay k = Some (snd (input_parse (k_conv k) data), k') \<and> sends_ok k1 k'"
proof -
  obtain k1 w k2 k' where k1: "input_segments regular (fst (input_parse (k_conv k) data)) (k, False, 0, False) = Some (k1, w)"
    "kcp_Input clk data regular ackNoDelay k = Some (snd (input_parse (k_conv k) data), k')"
    and k2: "only_estimates k1 k2" "kcp_inv k2" "k' = k2 \<or> (\<exists>b t. kcp_flush clk b k2 = Some (t, k'))"
    using kcp_Input_split[OF assms, of regular clk ackNoDelay] by (elim exE conjE) (rule that, auto)
  have "sends_ok k2 k'"
  proof (rule disjE[OF k2(3)])
    assume "\<exists>b t. kcp_flush clk b k2 = Some (t, k')"
    then obtain b t where "kcp_flush clk b k2 = Some (t, k')" by blast
    then show ?thesis using kcp_flush_sends[OF k2(2), of clk b] by simp
  qed (simp add: sends_ok_refl[OF k2(2)])
  then show ?thesis using k1 sends_ok_start[OF k2(1)] by blast
qed

lemma kcp_Input_ok:
  assumes inv: "kcp_inv k" and len: "length data \<le> unat (k_mtu k)"
    and P: "\<And>seg. seg \<in> set (fst (input_parse (k_conv k) data)) \<Longrightarrow> sg_cmd seg = IKCP_CMD_PUSH \<Longrightarrow> P seg"
  shows "\<exists>k' k1. kcp_Input clk data regular ackNoDelay k =
            Some (if length data < IKCP_OVERHEAD then -1 else snd (input_parse (k_conv k) data), k')
          \<and> input_ok P k k1 \<and> sends_ok k1 k'"
proof (cases "length data < IKCP_OVERHEAD")
  case True
  then show ?thesis
    using kcp_Input_short[OF True] input_ok_refl[OF inv] sends_ok_refl[OF inv]
    by (intro exI[of _ k]) simp
next
  case False
  then have long: "IKCP_OVERHEAD \<le> length data" by simp
  obtain k1 w k' where
    k1: "input_segments regular (fst (input_parse (k_conv k) data)) (k, False, 0, False) = Some (k1, w)"
      "kcp_Input clk data regular ackNoDelay k = Some (snd (input_parse (k_conv k) data), k')" "sends_ok k1 k'"
    using kcp_Input_segments[OF inv len long, of regular clk ackNoDelay] by blast
  have "\<forall>seg \<in> set (fst (input_parse (k_conv k) data)). length (sg_data seg) \<le> unat (k_mtu k)"
    using input_parse_data[of "k_conv k" data] len by (auto intro: order_trans)
  then have "input_ok P k k1"
    using input_segments_ok[OF inv, of "fst (input_parse (k_conv k) data)" P regular "(False, 0, False)"] P k1(1) by auto
  then show ?thesis using False k1(2,3) by auto
qed

end
