(* ===== verification/Kcp_Update.thy ===== *)
theory Kcp_Update
  imports Kcp_Input
begin

text \<open>
  The clockwork of a connection (\<open>Update\<close> and \<open>Check\<close> of \<open>kcp.go\<close>): \<open>Update\<close> flushes
  when the next flush is due and schedules the one after it, \<open>Check\<close> says when to call
  \<open>Update\<close> next. The lemmas bound the schedule: the next flush always lies ahead of the clock,
  by at most one interval, and \<open>Check\<close> never waits past it or past a retransmission timer.
\<close>

section \<open>The code\<close>

definition kcp_Update :: "clock \<Rightarrow> KCP \<Rightarrow> KCP option" where
  "kcp_Update clk k =
     (let (current, k) = currentMs clk k;
          k = (if k_updated k = 0 then k\<lparr>k_updated := 1, k_ts_flush := current\<rparr> else k);
          slap = itimediff current (k_ts_flush k);
          (k, slap) = (if slap \<ge> 10000 \<or> slap < - 10000 then (k\<lparr>k_ts_flush := current\<rparr>, 0) else (k, slap))
      in if slap \<ge> 0
         then let k = k\<lparr>k_ts_flush := k_ts_flush k + k_interval k\<rparr>;
                  k = (if itimediff current (k_ts_flush k) \<ge> 0
                       then k\<lparr>k_ts_flush := current + k_interval k\<rparr> else k)
              in map_option snd (kcp_flush clk False k)
         else Some k)"

text \<open>The loop of \<open>Check\<close>: the nearest timer, and whether one has expired.\<close>

definition check_visit :: "u32 \<Rightarrow> segment \<Rightarrow> int \<times> bool \<Rightarrow> bool \<times> segment \<times> int \<times> bool" where
  "check_visit current seg st =
     (let df = itimediff (sg_resendts seg) current
      in if df \<le> 0 then (False, seg, fst st, True)
         else (True, seg, if df < fst st then df else fst st, snd st))"

definition kcp_Check :: "clock \<Rightarrow> KCP \<Rightarrow> u32 \<times> KCP" where
  "kcp_Check clk k =
     (let (current, k) = currentMs clk k
      in if k_updated k = 0 then (current, k)
         else let ts_flush = (if itimediff current (k_ts_flush k) \<ge> 10000 \<or> itimediff current (k_ts_flush k) < - 10000
                              then current else k_ts_flush k)
         in if itimediff current ts_flush \<ge> 0 then (current, k)
            else let tm_flush = itimediff ts_flush current;
                     (tm_packet, due) = snd (rb_ForEach (check_visit current) (k_snd_buf k) (0x7fffffff, False))
                 in if due then (current, k)
                    else let minimal = (if tm_packet \<ge> tm_flush then word_of_int tm_flush else word_of_int tm_packet);
                             minimal = (if minimal \<ge> k_interval k then k_interval k else minimal)
                         in (current + minimal, k))"

section \<open>Update\<close>

definition update_due :: "u32 \<Rightarrow> KCP \<Rightarrow> bool" where
  "update_due current k \<longleftrightarrow> k_updated k = 0 \<or> itimediff current (k_ts_flush k) \<ge> 0
     \<or> itimediff current (k_ts_flush k) < - 10000"

lemma itimediff_minus: "itimediff a b \<noteq> - (2 ^ 31) \<Longrightarrow> itimediff b a = - itimediff a b"
  using itimediff_range[of a b] sint_of_int32[of "- itimediff a b"] word_of_itimediff[of a b]
  by (simp add: itimediff_def[of b a])

text \<open>The schedule: a time that lies ahead of the clock by one interval at most.\<close>

definition next_flush :: "u32 \<Rightarrow> u32 \<Rightarrow> u32 \<Rightarrow> u32" where
  "next_flush current ts interval =
     (let ts = (if itimediff current ts \<ge> 10000 \<or> itimediff current ts < - 10000 then current else ts) + interval
      in if itimediff current ts \<ge> 0 then current + interval else ts)"

lemma itimediff_add: 
  assumes "0 \<le> itimediff a b" and "unat i < 2 ^ 31"
  shows "itimediff (b + i) a = int (unat i) - itimediff a b"
proof -
  have "sn_off b a < 2 ^ 31" using assms(1) itimediff_base_nonneg by blast
  moreover have "sn_off b (b + i) = unat i" using sn_off_add[of "unat i" b] assms(2) by simp
  ultimately show ?thesis
    using itimediff_off[of b "b + i" a] itimediff_base[of b a] assms(2) by simp
qed

lemma next_flush_ahead:
  assumes due: "0 \<le> itimediff current ts \<or> itimediff current ts < - 10000"
    and iv: "0 < unat interval" "unat interval < 2 ^ 31"
  shows "0 < itimediff (next_flush current ts interval) current"
    and "itimediff (next_flush current ts interval) current \<le> int (unat interval)"
proof -
  define t where "t = (if itimediff current ts \<ge> 10000 \<or> itimediff current ts < - 10000 then current else ts)"
  have t: "0 \<le> itimediff current t" using due by (auto simp: t_def)
  note fwd = itimediff_add[OF t iv(2)] itimediff_add[of current current interval]
  have nf: "next_flush current ts interval = (if itimediff current (t + interval) \<ge> 0 then current + interval else t + interval)"
    by (simp add: next_flush_def t_def Let_def)
  have "itimediff (t + interval) current > 0" if "\<not> 0 \<le> itimediff current (t + interval)"
    using itimediff_minus[of "t + interval" current] that fwd(1) t iv itimediff_range[of current t] 
    by (cases "itimediff (t + interval) current = - (2 ^ 31)") auto
  moreover have "uint interval = int (unat interval)" by simp
  then have "0 < uint interval" using iv(1) by linarith
  ultimately show "0 < itimediff (next_flush current ts interval) current"
      and "itimediff (next_flush current ts interval) current \<le> int (unat interval)"
    using nf fwd iv t by (auto split: if_splits)
qed

text \<open>\<open>Update\<close> flushes exactly when a flush is due, and then schedules the next one.\<close>

definition update_start :: "clock \<Rightarrow> KCP \<Rightarrow> KCP" where
  "update_start clk k =
     (let current = clk (k_reads k);
          ts = (if k_updated k = 0 then current else k_ts_flush k)
      in k\<lparr>k_reads := k_reads k + 1, k_updated := (if k_updated k = 0 then 1 else k_updated k),
           k_ts_flush := (if update_due current k then next_flush current ts (k_interval k) else ts)\<rparr>)"

lemma kcp_Update_eq:
  "kcp_Update clk k =
     (if update_due (clk (k_reads k)) k then map_option snd (kcp_flush clk False (update_start clk k))
      else Some (update_start clk k))"
proof -
  let ?c = "clk (k_reads k)"
  have id: "k_updated k \<noteq> 0 \<Longrightarrow> k\<lparr>k_reads := k_reads k + 1\<rparr> =
      k\<lparr>k_reads := k_reads k + 1, k_updated := k_updated k, k_ts_flush := k_ts_flush k\<rparr>" by simp
  show ?thesis
  proof (cases "k_updated k = 0")
    case True
    then show ?thesis
      by (simp add: kcp_Update_def update_start_def update_due_def next_flush_def currentMs_def Let_def)
  next
    case False
    then show ?thesis
      by (auto simp: kcp_Update_def update_start_def update_due_def next_flush_def currentMs_def Let_def)
  qed
qed

lemma kcp_Update_ok:
  assumes "kcp_inv k"
  shows "\<exists>k'. kcp_Update clk k = Some k' \<and> sends_ok k k'"
proof -
  have inv: "kcp_inv (update_start clk k)"
    using assms by (simp add: update_start_def Let_def kcp_inv_def)
  have start: "sends_ok (update_start clk k) k' \<Longrightarrow> sends_ok k k'" for k'
  proof -
    have "flush_seg (update_start clk k) xs = flush_seg k xs" for xs
      by (simp add: fun_eq_iff flush_seg_def kcp_wnd_unused_def update_start_def Let_def)
    then show "sends_ok (update_start clk k) k' \<Longrightarrow> sends_ok k k'"
      by (simp add: sends_ok_def) (simp add: update_start_def Let_def)
  qed
  show ?thesis
    using kcp_flush_sends[OF inv, of clk False] start sends_ok_refl[OF inv]
    by (auto simp: kcp_Update_eq)
qed

section \<open>Check\<close>

definition check_scan :: "u32 \<Rightarrow> segment list \<Rightarrow> int \<Rightarrow> int \<times> bool" where
  "check_scan current xs tm = snd (snd (list_each (check_visit current) xs (tm, False)))"

lemma check_scan_simps:
  "check_scan current [] tm = (tm, False)"
  "check_scan current (s # xs) tm =
     (if itimediff (sg_resendts s) current \<le> 0 then (tm, True)
      else check_scan current xs (min tm (itimediff (sg_resendts s) current)))"
  by (simp_all add: check_scan_def list_each_Cons check_visit_def min_def Let_def del: list_each.simps(2))

lemma check_scan_due: "snd (check_scan current xs tm) \<longleftrightarrow> (\<exists>s \<in> set xs. itimediff (sg_resendts s) current \<le> 0)"
  by (induction xs arbitrary: tm) (simp_all add: check_scan_simps)

text \<open>With no timer expired, the scan finds the nearest one.\<close>

lemma check_scan_min:
  assumes "\<not> snd (check_scan current xs tm)"
  shows "fst (check_scan current xs tm) = Min (insert tm ((\<lambda>s. itimediff (sg_resendts s) current) ` set xs))"
  using assms
proof (induction xs arbitrary: tm)
  case Nil
  then show ?case by (simp add: check_scan_simps)
next
  case (Cons s xs)
  let ?f = "\<lambda>s. itimediff (sg_resendts s) current"
  have "fst (check_scan current (s # xs) tm) = Min (insert (min tm (?f s)) (?f ` set xs))"
    using Cons by (auto simp: check_scan_simps split: if_splits)
  also have "\<dots> = Min (insert tm (insert (?f s) (?f ` set xs)))"
    by (cases "set xs = {}") (simp_all add: min.assoc)
  finally show ?case by simp
qed

text \<open>
  While a flush is scheduled ahead and no timer has expired, \<open>Check\<close> names the earliest of the
  next flush, the retransmission timers and one interval from now; otherwise it says now.
\<close>

lemma Min_cap:
  assumes "finite T" and "(b::int) \<le> c"
  shows "Min ({a, b} \<union> T) = min a (min b (Min (insert c T)))"
  using assms by (cases "T = {}") auto

lemma min_word:
  assumes "0 < m" and "m < 2 ^ 31" and "unat i < 2 ^ 31"
  shows "(if word_of_int m \<ge> i then i else word_of_int m) = (word_of_int (min (int (unat i)) m) :: u32)"
proof -
  have "unat (word_of_int m :: u32) = nat m" using assms(1,2) by (simp add: unat_word_of_int32)
  then have "(word_of_int m :: u32) \<ge> i \<longleftrightarrow> int (unat i) \<le> m"
    using assms by (simp add: word_le_nat_alt le_nat_iff)
  then show ?thesis by auto
qed

lemma kcp_Check_correct:
  assumes inv: "kcp_inv k" and iv: "unat (k_interval k) < 2 ^ 31"
    and current: "current = clk (k_reads k)"
  shows "fst (kcp_Check clk k) =
     (if update_due current k \<or> 10000 \<le> itimediff current (k_ts_flush k)
         \<or> (\<exists>s \<in> set (snd_buf_list k). itimediff (sg_resendts s) current \<le> 0) then current
      else current + word_of_int (Min ({int (unat (k_interval k)), itimediff (k_ts_flush k) current}
             \<union> (\<lambda>s. itimediff (sg_resendts s) current) ` set (snd_buf_list k))))"
proof -
  let ?f = "\<lambda>s. itimediff (sg_resendts s) current"
  have rb: "rb_inv (k_snd_buf k)" using inv by (auto simp: snd_inv_def)
  have scan: "snd (rb_ForEach (check_visit current) (k_snd_buf k) (tm, False)) = check_scan current (snd_buf_list k) tm"
    for tm by (simp add: rb_ForEach_list[OF rb] check_scan_def)
  show ?thesis
  proof (cases "update_due current k \<or> 10000 \<le> itimediff current (k_ts_flush k)
         \<or> (\<exists>s \<in> set (snd_buf_list k). itimediff (sg_resendts s) current \<le> 0)")
    case True
    then show ?thesis
      by (auto simp: kcp_Check_def currentMs_def Let_def update_due_def scan check_scan_due current[symmetric]
          case_prod_beta)
  next
    case False
    then have upd: "k_updated k \<noteq> 0" and ts: "itimediff current (k_ts_flush k) < 0"
        "- 10000 \<le> itimediff current (k_ts_flush k)"
      and nodue: "\<not> snd (check_scan current (snd_buf_list k) 0x7fffffff)"
      by (auto simp: update_due_def check_scan_due)
    let ?tf = "itimediff (k_ts_flush k) current" and ?tp = "fst (check_scan current (snd_buf_list k) 0x7fffffff)"
    have tf: "?tf = - itimediff current (k_ts_flush k)"
      by (rule itimediff_minus) (use ts in simp)
    have tp: "?tp = Min (insert 0x7fffffff (?f ` set (snd_buf_list k)))" by (rule check_scan_min[OF nodue])
    have pos: "0 < ?tp" unfolding tp using False by (subst Min_gr_iff) auto
    have m: "(if ?tp \<ge> ?tf then word_of_int ?tf else word_of_int ?tp) = (word_of_int (min ?tf ?tp) :: u32)"
      by (simp add: min_def)
    have range: "0 < min ?tf ?tp" "min ?tf ?tp < 2 ^ 31" using pos tf ts by auto
    have "fst (kcp_Check clk k) = current +
        (if (if ?tp \<ge> ?tf then word_of_int ?tf else word_of_int ?tp) \<ge> k_interval k then k_interval k
         else if ?tp \<ge> ?tf then word_of_int ?tf else word_of_int ?tp)"
      using upd ts nodue
      by (simp add: kcp_Check_def currentMs_def current[symmetric] scan case_prod_beta Let_def
          split del: if_split cong: if_cong)
    then have "fst (kcp_Check clk k) = current + word_of_int (min (int (unat (k_interval k))) (min ?tf ?tp))"
      unfolding m min_word[OF range iv] .
    moreover have "Min ({int (unat (k_interval k)), ?tf} \<union> ?f ` set (snd_buf_list k))
        = min (int (unat (k_interval k))) (min ?tf ?tp)"
      unfolding tp by (rule Min_cap) (use tf ts in simp_all)
    ultimately show ?thesis using False by simp
  qed
qed

end
