(* ===== verification/Kcp_Send.thy ===== *)
theory Kcp_Send
  imports Kcp_Recv
begin

text \<open>
  The user's side of sending, \<open>Send\<close> of \<open>kcp.go\<close>: a message is cut into segments of at most
  \<open>mss\<close> bytes whose fragment counters run down to 0, or, in stream mode, appended to the last
  queued segment first. The lemmas show that the fragments are exactly the message, that the
  receive side's reassembly inverts the cut, and which errors leave the connection unchanged.
\<close>

section \<open>The code\<close>

text \<open>
  The body of the stream-mode loop over the queue in reverse, which always breaks after the
  last queued segment. Growing its slice beyond its capacity \<open>mtu\<close> would panic.
\<close>

definition stream_visit :: "nat \<Rightarrow> nat \<Rightarrow> segment \<Rightarrow> bytes option \<Rightarrow> bool \<times> segment \<times> bytes option" where
  "stream_visit mss mtu seg st =
     (case st of
        None \<Rightarrow> (False, seg, None)
      | Some buffer \<Rightarrow>
          if length (sg_data seg) < mss
          then let capacity = mss - length (sg_data seg);
                   extend = (if length buffer < capacity then length buffer else capacity);
                   oldlen = length (sg_data seg)
               in if oldlen + extend > mtu then (False, seg, None)
                  else (False, seg\<lparr>sg_data := sg_data seg @ take extend buffer\<rparr>,
                        Some (drop extend buffer))
          else (False, seg, Some buffer))"

definition kcp_newSegment :: "nat \<Rightarrow> KCP \<Rightarrow> segment option" where
  "kcp_newSegment sz k =
     (if sz > unat (k_mtu k) then None else Some (zero_seg\<lparr>sg_data := replicate sz 0\<rparr>))"

function send_loop :: "nat \<Rightarrow> nat \<Rightarrow> bytes \<Rightarrow> KCP \<Rightarrow> KCP option" where
  "send_loop i cnt buffer k =
     (if i < cnt
      then let sz = (if length buffer > unat (k_mss k) then unat (k_mss k) else length buffer)
           in (case kcp_newSegment sz k of
                 None \<Rightarrow> None
               | Some seg \<Rightarrow>
                   let seg = seg\<lparr>sg_data := go_copy (sg_data seg) (take sz buffer)\<rparr>;
                       seg = seg\<lparr>sg_frg := (if k_stream k = 0 then of_nat (cnt - i - 1) else 0)\<rparr>
                   in send_loop (i + 1) cnt (drop sz buffer)
                        (k\<lparr>k_snd_queue := rb_Push zero_seg seg (k_snd_queue k)\<rparr>))
      else Some k)"
  by pat_completeness auto
termination
  by (relation "measure (\<lambda>(i, cnt, buffer, k). cnt - i)") auto

declare send_loop.simps [simp del]

text \<open>The part of \<open>Send\<close> after stream mode had its go.\<close>

definition send_fragments :: "bytes \<Rightarrow> KCP \<Rightarrow> (int \<times> KCP) option" where
  "send_fragments buffer k = do {
     cnt \<leftarrow> (if length buffer \<le> unat (k_mss k) then Some 1
               else if k_mss k = 0 then None
               else Some ((length buffer + unat (k_mss k) - 1) div unat (k_mss k)));
     if cnt > 255 then Some (-2, k)
     else do {
       let cnt = (if cnt = 0 then 1 else cnt);
       k \<leftarrow> send_loop 0 cnt buffer k;
       Some (0, k)
     }
   }"

definition kcp_Send :: "bytes \<Rightarrow> KCP \<Rightarrow> (int \<times> KCP) option" where
  "kcp_Send buffer k =
     (if length buffer = 0 then Some (-1, k)
      else if k_stream k \<noteq> 0
      then (let (q, st) = (if rb_Len (k_snd_queue k) > 0
                           then rb_ForEachReverse (stream_visit (unat (k_mss k)) (unat (k_mtu k)))
                                  (k_snd_queue k) (Some buffer)
                           else (k_snd_queue k, Some buffer));
                k = k\<lparr>k_snd_queue := q\<rparr>
            in case st of
                 None \<Rightarrow> None
               | Some buffer \<Rightarrow> if length buffer = 0 then Some (0, k) else send_fragments buffer k)
      else send_fragments buffer k)"

section \<open>The fragments of a message\<close>

fun fragments :: "nat \<Rightarrow> nat \<Rightarrow> bytes \<Rightarrow> segment list" where
  "fragments mss 0 buffer = []"
| "fragments mss (Suc n) buffer =
     zero_seg\<lparr>sg_frg := of_nat n, sg_data := take mss buffer\<rparr> # fragments mss n (drop mss buffer)"

definition frag_count :: "nat \<Rightarrow> bytes \<Rightarrow> nat" where
  "frag_count mss buffer =
     (if length buffer \<le> mss then 1 else (length buffer + mss - 1) div mss)"

lemma frag_count_bounds:
  assumes "0 < mss" and "0 < length buffer"
  shows "0 < frag_count mss buffer" and "length buffer \<le> frag_count mss buffer * mss"
    and "(frag_count mss buffer - 1) * mss < length buffer"
proof -
  let ?c = "(length buffer + mss - 1) div mss"
  have eq: "?c * mss + (length buffer + mss - 1) mod mss = length buffer + mss - 1"
    by (simp add: div_mult_mod_eq)
  have lt: "(length buffer + mss - 1) mod mss < mss" using assms(1) by simp
  have up: "length buffer \<le> ?c * mss" and low: "?c * mss \<le> length buffer + mss - 1"
    using eq lt assms by linarith+
  have pos: "0 < ?c" using up assms(2) by (cases ?c) auto
  show "0 < frag_count mss buffer" using pos by (simp add: frag_count_def)
  show "length buffer \<le> frag_count mss buffer * mss" using up by (simp add: frag_count_def)
  show "(frag_count mss buffer - 1) * mss < length buffer"
  proof (cases "length buffer \<le> mss")
    case False
    have "(?c - 1) * mss = ?c * mss - mss" by (simp add: diff_mult_distrib)
    then have "(?c - 1) * mss < length buffer" using low assms False by linarith
    then show ?thesis using False by (simp add: frag_count_def)
  qed (use assms in \<open>simp add: frag_count_def\<close>)
qed

lemma frag_count_le_iff:
  assumes "0 < mss" and "0 < length buffer"
  shows "frag_count mss buffer \<le> n \<longleftrightarrow> length buffer \<le> n * mss \<and> 0 < n"
proof
  assume le: "frag_count mss buffer \<le> n"
  then have "frag_count mss buffer * mss \<le> n * mss" by simp
  then show "length buffer \<le> n * mss \<and> 0 < n"
    using frag_count_bounds[OF assms] le by linarith
next
  assume "length buffer \<le> n * mss \<and> 0 < n"
  then have "(frag_count mss buffer - 1) * mss < n * mss"
    using frag_count_bounds(3)[OF assms] by linarith
  then have "frag_count mss buffer - 1 < n" by (rule mult_right_less_imp_less) simp
  then show "frag_count mss buffer \<le> n" by linarith
qed

lemma length_fragments [simp]: "length (fragments mss n buffer) = n"
  by (induction n arbitrary: buffer) auto

lemma msg_bytes_fragments: "msg_bytes (fragments mss n buffer) = take (n * mss) buffer"
  by (induction n arbitrary: buffer) (simp_all add: take_add add.commute)

lemma fragments_data_le: "s \<in> set (fragments mss n buffer) \<Longrightarrow> length (sg_data s) \<le> mss"
  by (induction n arbitrary: buffer) auto

text \<open>Reassembly only looks at the fragment counters and the data.\<close>

lemma next_msg_fragments:
  assumes "map sg_frg ss = map sg_frg (fragments mss n buffer)" and "0 < n" and "n \<le> 256"
  shows "next_msg (ss @ rest) = ss"
  using assms
proof (induction n arbitrary: ss buffer)
  case 0
  then show ?case by simp
next
  case (Suc n)
  then obtain s ss' where ss: "ss = s # ss'" "sg_frg s = of_nat n"
      "map sg_frg ss' = map sg_frg (fragments mss n (drop mss buffer))"
    by (cases ss) auto
  show ?case
  proof (cases "n = 0")
    case True
    then show ?thesis using ss by simp
  next
    case False
    then have "(of_nat n :: byte) \<noteq> 0"
      using Suc.prems(3) nat_dvd_not_less[of n 256] by (simp add: word_of_nat_eq_0_iff)
    then show ?thesis using Suc.IH[OF ss(3)] False Suc.prems(3) ss by simp
  qed
qed

section \<open>Send\<close>

text \<open>The mode decides the fragment counters: in stream mode they are all 0.\<close>

definition mode_frags :: "KCP \<Rightarrow> segment list \<Rightarrow> segment list" where
  "mode_frags k ss = (if k_stream k = 0 then ss else map (\<lambda>s. s\<lparr>sg_frg := 0\<rparr>) ss)"

lemma msg_bytes_mode_frags [simp]: "msg_bytes (mode_frags k ss) = msg_bytes ss"
  by (simp add: mode_frags_def msg_bytes_def comp_def)

lemma mode_frags_data_le: "s \<in> set (mode_frags k (fragments mss n buffer)) \<Longrightarrow> length (sg_data s) \<le> mss"
  by (auto simp: mode_frags_def split: if_splits dest: fragments_data_le)

lemma send_loop_correct:
  assumes "rb_inv (k_snd_queue k)" and "unat (k_mss k) \<le> unat (k_mtu k)"
  shows "\<exists>q. send_loop i cnt buffer k = Some (k\<lparr>k_snd_queue := q\<rparr>) \<and> rb_inv q
     \<and> rb_list q = snd_queue_list k @ mode_frags k (fragments (unat (k_mss k)) (cnt - i) buffer)"
  using assms
proof (induction "cnt - i" arbitrary: i buffer k)
  case 0
  then show ?case
    by (subst send_loop.simps) (auto simp: mode_frags_def intro: exI[of _ "k_snd_queue k"])
next
  case (Suc n)
  then have i: "i < cnt" "cnt - i = Suc n" "n = cnt - (i + 1)" "cnt - i - 1 = n" by linarith+
  let ?mss = "unat (k_mss k)"
  let ?sz = "if length buffer > ?mss then ?mss else length buffer"
  have sz: "take ?sz buffer = take ?mss buffer" "drop ?sz buffer = drop ?mss buffer"
      "?sz \<le> unat (k_mtu k)" "length (take ?mss buffer) = ?sz"
    using Suc.prems(2) by auto
  let ?seg = "zero_seg\<lparr>sg_frg := (if k_stream k = 0 then of_nat n else 0), sg_data := take ?mss buffer\<rparr>"
  let ?k = "k\<lparr>k_snd_queue := rb_Push zero_seg ?seg (k_snd_queue k)\<rparr>"
  have step: "send_loop i cnt buffer k = send_loop (i + 1) cnt (drop ?mss buffer) ?k"
    using i sz by (subst send_loop.simps)
      (simp add: kcp_newSegment_def Let_def go_copy_same_length zero_seg_def)
  have "rb_inv (k_snd_queue ?k)" using Suc.prems(1) by simp
  from Suc.hyps(1)[OF i(3) this, of "drop ?mss buffer"] Suc.prems
  obtain q where q: "send_loop (i + 1) cnt (drop ?mss buffer) ?k = Some (?k\<lparr>k_snd_queue := q\<rparr>)"
    "rb_inv q" "rb_list q = snd_queue_list ?k @ mode_frags ?k (fragments ?mss n (drop ?mss buffer))"
    using i(3) by auto
  show ?case
    using q Suc.prems(1) i(2) unfolding step
    by (auto simp: queue_simps mode_frags_def intro!: exI[of _ q])
qed

lemma send_fragments_correct:
  assumes inv: "kcp_inv k" and ne: "0 < length buffer"
  shows "255 * unat (k_mss k) < length buffer \<Longrightarrow> send_fragments buffer k = Some (-2, k)"
    and "length buffer \<le> 255 * unat (k_mss k) \<Longrightarrow>
      \<exists>q. send_fragments buffer k = Some (0, k\<lparr>k_snd_queue := q\<rparr>)
        \<and> kcp_inv (k\<lparr>k_snd_queue := q\<rparr>)
        \<and> rb_list q = snd_queue_list k
             @ mode_frags k (fragments (unat (k_mss k)) (frag_count (unat (k_mss k)) buffer) buffer)"
proof -
  let ?mss = "unat (k_mss k)" and ?c = "frag_count (unat (k_mss k)) buffer"
  have cfg: "cfg_inv k" and snd: "snd_inv k" using inv by auto
  have mss: "0 < ?mss" "?mss \<le> unat (k_mtu k)" "k_mss k \<noteq> 0"
    using cfg_inv_mss_pos[OF cfg] by auto
  have cpos: "0 < ?c" using frag_count_bounds(1)[OF mss(1) ne] .
  have send: "send_fragments buffer k =
      (if ?c > 255 then Some (-2, k) else map_option (\<lambda>k. (0, k)) (send_loop 0 ?c buffer k))"
  proof -
    have "(if length buffer \<le> ?mss then Some 1 else if k_mss k = 0 then None
           else Some ((length buffer + ?mss - 1) div ?mss)) = Some ?c"
      by (simp add: frag_count_def mss(3))
    then show ?thesis
      using cpos unfolding send_fragments_def
      by (cases "send_loop 0 ?c buffer k") (auto simp del: not_le)
  qed
  { assume "255 * ?mss < length buffer"
    then show "send_fragments buffer k = Some (-2, k)"
      using frag_count_le_iff[OF mss(1) ne, of 255] send by simp }
  assume small: "length buffer \<le> 255 * ?mss"
  have rb: "rb_inv (k_snd_queue k)" using snd by (simp add: snd_inv_def)
  obtain q where q: "send_loop 0 ?c buffer k = Some (k\<lparr>k_snd_queue := q\<rparr>)" "rb_inv q"
    "rb_list q = snd_queue_list k @ mode_frags k (fragments ?mss ?c buffer)"
    using send_loop_correct[OF rb mss(2), of 0 ?c buffer] by auto
  have "snd_inv (k\<lparr>k_snd_queue := q\<rparr>)"
    using snd q(2,3) mode_frags_data_le by (fastforce simp: snd_inv_def)
  then show "\<exists>q. send_fragments buffer k = Some (0, k\<lparr>k_snd_queue := q\<rparr>)
        \<and> kcp_inv (k\<lparr>k_snd_queue := q\<rparr>)
        \<and> rb_list q = snd_queue_list k @ mode_frags k (fragments ?mss ?c buffer)"
    using small q(1,3) send inv frag_count_le_iff[OF mss(1) ne, of 255]
    by (auto simp: kcp_inv_def)
qed

lemma kcp_Send_empty: "kcp_Send [] k = Some (-1, k)"
  by (simp add: kcp_Send_def)

lemma kcp_Send_message:
  assumes "kcp_inv k" and "k_stream k = 0" and "0 < length buffer"
  shows "255 * unat (k_mss k) < length buffer \<Longrightarrow> kcp_Send buffer k = Some (-2, k)"
    and "length buffer \<le> 255 * unat (k_mss k) \<Longrightarrow>
      \<exists>q. kcp_Send buffer k = Some (0, k\<lparr>k_snd_queue := q\<rparr>) \<and> kcp_inv (k\<lparr>k_snd_queue := q\<rparr>)
        \<and> rb_list q = snd_queue_list k
             @ fragments (unat (k_mss k)) (frag_count (unat (k_mss k)) buffer) buffer"
  using send_fragments_correct[OF assms(1,3)] assms(2,3)
  by (simp_all add: kcp_Send_def mode_frags_def)

section \<open>Stream mode\<close>

text \<open>What is left of the buffer after the last queued segment has been filled up.\<close>

lemma stream_visit_last:
  assumes "mss \<le> mtu" and "length (sg_data seg) \<le> mss"
  shows "\<exists>seg' rest. stream_visit mss mtu seg (Some buffer) = (False, seg', Some rest)
     \<and> sg_data seg @ buffer = sg_data seg' @ rest \<and> length (sg_data seg') \<le> mss
     \<and> seg' = seg\<lparr>sg_data := sg_data seg'\<rparr>"
  using assms by (auto simp: stream_visit_def Let_def)

lemma kcp_Send_stream:
  assumes inv: "kcp_inv k" and stream: "k_stream k \<noteq> 0" and ne: "0 < length buffer"
    and small: "length buffer \<le> 255 * unat (k_mss k)"
  shows "\<exists>q. kcp_Send buffer k = Some (0, k\<lparr>k_snd_queue := q\<rparr>) \<and> kcp_inv (k\<lparr>k_snd_queue := q\<rparr>)
     \<and> msg_bytes (rb_list q) = msg_bytes (snd_queue_list k) @ buffer"
proof -
  let ?mss = "unat (k_mss k)" and ?mtu = "unat (k_mtu k)"
  have cfg: "cfg_inv k" and snd: "snd_inv k" using inv by auto
  have mss: "0 < ?mss" "?mss \<le> ?mtu" using cfg_inv_mss_pos[OF cfg] by auto
  have rb: "rb_inv (k_snd_queue k)" using snd by (simp add: snd_inv_def)
  have rest: "\<exists>q'. (if rst = [] then Some (0, k\<lparr>k_snd_queue := q\<rparr>) else send_fragments rst (k\<lparr>k_snd_queue := q\<rparr>))
        = Some (0, k\<lparr>k_snd_queue := q'\<rparr>) \<and> kcp_inv (k\<lparr>k_snd_queue := q'\<rparr>)
        \<and> msg_bytes (rb_list q') = msg_bytes (rb_list q) @ rst"
    if q: "kcp_inv (k\<lparr>k_snd_queue := q\<rparr>)" and len: "length rst \<le> 255 * ?mss" for q rst
  proof (cases "rst = []")
    case False
    then have "0 < length rst" by simp
    from send_fragments_correct(2)[OF q this] len
    obtain q' where q': "send_fragments rst (k\<lparr>k_snd_queue := q\<rparr>) = Some (0, k\<lparr>k_snd_queue := q'\<rparr>)"
      "kcp_inv (k\<lparr>k_snd_queue := q'\<rparr>)"
      "rb_list q' = rb_list q @ mode_frags k (fragments ?mss (frag_count ?mss rst) rst)"
      by (auto simp: mode_frags_def)
    have "msg_bytes (rb_list q') = msg_bytes (rb_list q) @ rst"
      using frag_count_bounds(2)[OF mss(1) \<open>0 < length rst\<close>] by (simp add: q'(3) msg_bytes_fragments)
    with q' False show ?thesis by auto
  qed (use q in \<open>auto intro: exI[of _ q]\<close>)
  show ?thesis
  proof (cases "snd_queue_list k = []")
    case True
    then show ?thesis
      using rest[of "k_snd_queue k" buffer] inv small stream ne rb
      by (auto simp: kcp_Send_def queue_simps)
  next
    case False
    then obtain qs lst where q: "snd_queue_list k = qs @ [lst]" by (metis rev_exhaust)
    have "length (sg_data lst) \<le> ?mss" using snd q by (simp add: snd_inv_def)
    from stream_visit_last[OF mss(2) this, of buffer] obtain lst' rst where
      visit: "stream_visit ?mss ?mtu lst (Some buffer) = (False, lst', Some rst)"
      "sg_data lst @ buffer = sg_data lst' @ rst" "length (sg_data lst') \<le> ?mss"
      "lst' = lst\<lparr>sg_data := sg_data lst'\<rparr>" by blast
    have le: "list_each (stream_visit ?mss ?mtu) (rev (snd_queue_list k)) (Some buffer)
        = (False, lst' # rev qs, Some rst)"
      using visit(1) q by simp
    obtain r where each: "rb_ForEachReverse (stream_visit ?mss ?mtu) (k_snd_queue k) (Some buffer) = (r, Some rst)"
      and r: "rb_inv r" "rb_list r = qs @ [lst']"
      using rb_ForEachReverse_correct[OF rb, of "stream_visit ?mss ?mtu" "Some buffer", unfolded le]
      by (cases "rb_ForEachReverse (stream_visit ?mss ?mtu) (k_snd_queue k) (Some buffer)") simp
    have "snd_inv (k\<lparr>k_snd_queue := r\<rparr>)"
      using snd r visit(3) q by (auto simp: snd_inv_def)
    then have inv': "kcp_inv (k\<lparr>k_snd_queue := r\<rparr>)" using inv by (simp add: kcp_inv_def)
    have "length rst \<le> length buffer"
    proof -
      have "length (sg_data lst) + length buffer = length (sg_data lst') + length rst"
        using arg_cong[OF visit(2), of length] by simp
      moreover have "length (sg_data lst) \<le> length (sg_data lst')"
        using visit(1) by (auto simp: stream_visit_def Let_def split: if_splits)
      ultimately show ?thesis by linarith
    qed
    then have "length rst \<le> 255 * ?mss" using small by linarith
    from rest[OF inv' this] obtain q' where
      "(if rst = [] then Some (0, k\<lparr>k_snd_queue := r\<rparr>) else send_fragments rst (k\<lparr>k_snd_queue := r\<rparr>))
        = Some (0, k\<lparr>k_snd_queue := q'\<rparr>)" "kcp_inv (k\<lparr>k_snd_queue := q'\<rparr>)"
      "msg_bytes (rb_list q') = msg_bytes (rb_list r) @ rst"
      by blast
    moreover have "kcp_Send buffer k = (if rst = [] then Some (0, k\<lparr>k_snd_queue := r\<rparr>)
        else send_fragments rst (k\<lparr>k_snd_queue := r\<rparr>))"
      using each stream ne rb q by (simp add: kcp_Send_def rb_Len_list)
    moreover have "msg_bytes (rb_list r) @ rst = msg_bytes (snd_queue_list k) @ buffer"
      using r(2) q visit(2) by simp
    ultimately show ?thesis by auto
  qed
qed

section \<open>Cut and reassembly\<close>

text \<open>
  A receiver whose queue starts with segments that carry the fragment counters and the data of
  the fragments of a message, whatever else their headers say, hands that message to the user.
\<close>

lemma recv_fragments:
  assumes inv: "kcp_inv k" and q: "rcv_queue_list k = ss @ rest"
    and frg: "map sg_frg ss = map sg_frg (fragments mss n msg)"
    and data: "map sg_data ss = map sg_data (fragments mss n msg)"
    and n: "0 < n" "n \<le> 255" and all: "length msg \<le> n * mss"
    and fits: "length msg \<le> length buffer"
  shows "\<exists>k'. kcp_Recv buffer k = Some (int (length msg), msg @ drop (length msg) buffer, k')
     \<and> kcp_inv k'"
proof -
  have rb: "rb_inv (k_rcv_queue k)" using inv by (simp add: kcp_inv_def rcv_inv_def)
  have msg: "next_msg (rcv_queue_list k) = ss"
    using next_msg_fragments[OF frg n(1)] n(2) q by simp
  have bytes: "msg_bytes ss = msg"
    using data all msg_bytes_fragments[of mss n msg] by (simp add: msg_bytes_def)
  obtain m where m: "n = Suc m" using n(1) gr0_implies_Suc by blast
  have len: "length ss = n" using frg by (metis length_fragments length_map)
  obtain s ss' where ss: "ss = s # ss'" "sg_frg s = of_nat m" using frg m by auto
  have "uint (sg_frg s + 1) = int n"
    using ss(2) m n(2) by (simp add: uint_nat unat_word_ariths unat_of_nat)
  then have peek: "kcp_PeekSize k = int (length msg)"
    using kcp_PeekSize_correct[OF rb] q ss(1) len msg bytes by simp
  then show ?thesis
    using kcp_Recv_correct[OF inv, of buffer] fits msg bytes by auto
qed

end
