(* ===== verification/Kcp_Examples.thy ===== *)
theory Kcp_Examples
  imports Kcp_Update Kcp_Send
begin

text \<open>
  A concrete exchange, on which properties with hypotheses are applied: a connection
  without congestion window sends three bytes, flushes, and its peer takes in the datagram and
  receives the message. The kernel evaluates every step.
\<close>

definition demo_ready :: KCP where
  "demo_ready = snd (kcp_NoDelay 1 10 2 1 (NewKCP 7))"

definition demo_sent :: KCP where
  "demo_sent = snd (the (kcp_Send [1, 2, 3] demo_ready))"

definition demo_flushed :: KCP where
  "demo_flushed = snd (the (kcp_flush (\<lambda>_. 0) False demo_sent))"

definition demo_datagram :: bytes where
  "demo_datagram = hd (k_output demo_flushed)"

definition demo_taken :: KCP where
  "demo_taken = snd (the (kcp_Input (\<lambda>_. 0) demo_datagram True False (NewKCP 7)))"

definition demo_received :: KCP where
  "demo_received = snd (snd (the (kcp_Recv [0, 0, 0, 0] demo_taken)))"

lemma demo_ready_inv: "kcp_inv demo_ready"
  unfolding demo_ready_def by (rule kcp_NoDelay_inv[OF kcp_inv_New])

lemma demo_ready_fields: "k_stream demo_ready = 0" "k_mss demo_ready = 1376" "k_output demo_ready = []"
  by (simp_all add: demo_ready_def kcp_NoDelay_def Let_def NewKCP_def)

lemma demo_sent: "kcp_Send [1, 2, 3] demo_ready = Some (0, demo_sent)" and demo_sent_inv: "kcp_inv demo_sent"
proof -
  obtain q where "kcp_Send [1, 2, 3] demo_ready = Some (0, demo_ready\<lparr>k_snd_queue := q\<rparr>)"
      "kcp_inv (demo_ready\<lparr>k_snd_queue := q\<rparr>)"
    using kcp_Send_message(2)[OF demo_ready_inv demo_ready_fields(1), of "[1, 2, 3]"]
    by (auto simp: demo_ready_fields)
  then show "kcp_Send [1, 2, 3] demo_ready = Some (0, demo_sent)" "kcp_inv demo_sent"
    by (simp_all add: demo_sent_def)
qed

lemma demo_flush: "kcp_flush (\<lambda>_. 0) False demo_sent = Some (10, demo_flushed)"
  and demo_flushed_ok: "sends_ok demo_sent demo_flushed"
proof -
  have "fst (the (kcp_flush (\<lambda>_. 0) False demo_sent)) = 10"
    unfolding demo_sent_def demo_ready_def by code_simp
  then show "kcp_flush (\<lambda>_. 0) False demo_sent = Some (10, demo_flushed)" "sends_ok demo_sent demo_flushed"
    using kcp_flush_sends[OF demo_sent_inv, of "\<lambda>_. 0" False] by (auto simp: demo_flushed_def)
qed

lemma demo_run:
  "k_output demo_sent = []" "length (k_output demo_flushed) = 1"
  "map_option fst (kcp_Input (\<lambda>_. 0) demo_datagram True False (NewKCP 7)) = Some 0"
  "map_option (\<lambda>(n, buf, k). (n, buf)) (kcp_Recv [0, 0, 0, 0] demo_taken) = Some (3, [1, 2, 3, 0])"
  unfolding demo_taken_def demo_datagram_def demo_flushed_def demo_sent_def demo_ready_def
  by code_simp+

lemma demo_output: "demo_datagram \<in> set (k_output demo_flushed)"
  using demo_run(2) by (cases "k_output demo_flushed") (simp_all add: demo_datagram_def)

lemma demo_taken: "kcp_Input (\<lambda>_. 0) demo_datagram True False (NewKCP 7) = Some (0, demo_taken)"
  and demo_received: "kcp_Recv [0, 0, 0, 0] demo_taken = Some (3, [1, 2, 3, 0], demo_received)"
  using demo_run(3,4) by (auto simp: demo_taken_def demo_received_def)

end
