(* ===== verification/Kcp_Transmit.thy ===== *)
theory Kcp_Transmit
  imports Kcp_Input
begin

text \<open>
  What a flush does send. \<open>Kcp_Flush\<close> shows that nothing improper leaves a connection; here,
  nothing owed stays behind: every segment in flight that was never sent, was skipped often
  enough or whose timer has expired is in one of the datagrams, and so is every acknowledgement
  that the cumulative one does not cover.
\<close>

section \<open>Segments in a datagram\<close>

definition holds :: "bytes \<Rightarrow> segment \<Rightarrow> bool" where
  "holds d s \<longleftrightarrow> (\<exists>ss. d = concat (map seg_bytes ss) \<and> s \<in> set ss)"

definition wr_holds :: "writer \<Rightarrow> segment \<Rightarrow> bool" where
  "wr_holds wr s \<longleftrightarrow> (\<exists>d \<in> set (flushBuffer wr). holds d s)"

lemma holds_Nil [simp]: "\<not> holds [] s"
proof
  assume "holds [] s"
  then obtain ss where ss: "[] = concat (map seg_bytes ss)" "s \<in> set ss" by (auto simp: holds_def)
  then have "seg_bytes s = []" by auto
  then show False using length_seg_bytes[of s] by simp
qed

lemma holds_snoc:
  assumes "packed P w"
  shows "holds (w @ seg_bytes s) s" and "holds w x \<Longrightarrow> holds (w @ seg_bytes s) x"
proof -
  obtain ss where "w = concat (map seg_bytes ss)" using assms by (auto simp: packed_def)
  then show "holds (w @ seg_bytes s) s"
    unfolding holds_def by (intro exI[of _ "ss @ [s]"]) simp
  assume "holds w x"
  then obtain xs where "w = concat (map seg_bytes xs)" "x \<in> set xs" by (auto simp: holds_def)
  then show "holds (w @ seg_bytes s) x"
    unfolding holds_def by (intro exI[of _ "xs @ [s]"]) simp
qed

lemma wr_holds_makeSpace: "wr_holds wr s \<Longrightarrow> wr_holds (makeSpace mtu b sp wr) s"
  by (cases wr; cases "fst wr") (auto simp: wr_holds_def split: if_splits)

lemma put_segment_holds:
  assumes "wr_ok mtu P wr" and "put_header s wr = Some w1" and "put_data (sg_data s) w1 = Some wr'"
  shows "wr_holds wr' s" and "wr_holds wr x \<Longrightarrow> wr_holds wr' x"
proof -
  obtain w room out where wr: "wr = ((w, room), out)" by (metis prod.collapse)
  then have pk: "packed P w" using assms(1) by simp
  obtain r where wr': "wr' = ((w @ seg_bytes s, r), out)"
    using assms(2,3) by (auto simp: wr seg_encode_eq seg_bytes_def split: if_splits)
  have ne: "w @ seg_bytes s \<noteq> []" using length_seg_bytes[of s] by auto
  show "wr_holds wr' s" using holds_snoc(1)[OF pk] ne by (auto simp: wr_holds_def wr')
  show "wr_holds wr x \<Longrightarrow> wr_holds wr' x"
    using holds_snoc(2)[OF pk] ne by (auto simp: wr_holds_def wr wr' split: if_splits)
qed

lemma put_data_Nil [simp]: "put_data [] w = Some w"
  by (cases w, cases "fst w") auto

section \<open>The retransmission loop\<close>

text \<open>What obliges a flush to send a segment, with \<open>resent\<close> the fast-retransmit threshold.\<close>

definition owed :: "clock \<Rightarrow> u32 \<Rightarrow> segment \<Rightarrow> bool" where
  "owed clk resent x \<longleftrightarrow> sg_acked x \<noteq> 1
     \<and> (sg_xmit x = 0 \<or> resent \<le> sg_fastack x \<or> (\<forall>i. 0 \<le> itimediff (clk i) (sg_resendts x)))"

lemma owed_need_send:
  "owed clk resent x \<Longrightarrow> rt_current rt \<in> range clk \<Longrightarrow> fst (need_send k resent n x rt)"
  by (auto simp: owed_def need_send_def Let_def)

lemma send_segment_holds:
  assumes "wr_ok (unat (k_mtu k)) P (rt_wr rt)" and "k_buffer k = unat (k_mtu k)"
    and "IKCP_OVERHEAD + length (sg_data x) \<le> unat (k_mtu k)"
    and "send_segment clk k seg x rt = (x', Some rt')"
  shows "wr_holds (rt_wr rt') x'" and "wr_holds (rt_wr rt) y \<Longrightarrow> wr_holds (rt_wr rt') y"
proof -
  let ?w0 = "makeSpace (unat (k_mtu k)) (k_buffer k) (IKCP_OVERHEAD + length (sg_data x)) (rt_wr rt)"
  have data: "sg_data x' = sg_data x" using assms(4) by (auto simp: send_segment_def Let_def)
  have ok: "wr_ok (unat (k_mtu k)) P ?w0"
    using makeSpace_ok(1)[OF assms(1,3)] assms(2) by simp
  obtain w1 where w1: "put_header x' ?w0 = Some w1" "put_data (sg_data x') w1 = Some (rt_wr rt')"
    using assms(4) by (auto simp: send_segment_def Let_def bind_eq_Some_conv split: if_splits)
  show "wr_holds (rt_wr rt') x'" by (rule put_segment_holds(1)[OF ok w1])
  show "wr_holds (rt_wr rt) y \<Longrightarrow> wr_holds (rt_wr rt') y"
    using put_segment_holds(2)[OF ok w1] wr_holds_makeSpace by blast
qed

lemma send_visit_holds:
  assumes inv: "loop_inv k P clk (Some rt)" and buf: "k_buffer k = unat (k_mtu k)" and may: "may_send k seg P x"
    and visit: "send_visit clk k resent n seg x (Some rt) = (b, x', Some rt')"
  shows "wr_holds (rt_wr rt) y \<Longrightarrow> wr_holds (rt_wr rt') y"
    and "owed clk resent x \<Longrightarrow> wr_holds (rt_wr rt') x' \<and> sg_xmit x' = sg_xmit x + 1
           \<and> (k_dead_link k \<le> sg_xmit x + 1 \<longrightarrow> rt_state rt' = 0xFFFFFFFF)"
    and "rt_state rt = 0xFFFFFFFF \<Longrightarrow> rt_state rt' = 0xFFFFFFFF"
proof -
  obtain nb xn rtn where ns: "need_send k resent n x rt = (nb, xn, rtn)" by (metis prod.collapse)
  have wr: "wr_ok (unat (k_mtu k)) P (rt_wr rtn)" "rt_current rt \<in> range clk"
    using inv need_send_frame[OF ns] by (auto simp: loop_inv_def)
  have len: "IKCP_OVERHEAD + length (sg_data xn) \<le> unat (k_mtu k)"
    using may need_send_frame(1)[OF ns] by (simp add: may_send_def same_payload_def)
  have sent: "\<exists>rts. send_segment clk k seg xn rtn = (x', Some rts) \<and> rt_wr rt' = rt_wr rts" if "sg_acked x \<noteq> 1" "nb"
    using visit that ns by (auto simp: send_visit_def Let_def split: prod.splits option.splits if_splits)
  have kept: "rt_wr rt' = rt_wr rt" if "\<not> (sg_acked x \<noteq> 1 \<and> nb)"
    using visit that ns need_send_frame(3)[OF ns]
    by (auto simp: send_visit_def Let_def split: prod.splits option.splits if_splits)
  have wrn: "rt_wr rtn = rt_wr rt" by (rule need_send_frame(3)[OF ns])
  obtain xs st where v: "send_visit clk k resent n seg x (Some rt) = (True, xs, st)"
      "rt_state rt = 0xFFFFFFFF \<longrightarrow> rt_state (the st) = 0xFFFFFFFF"
      "sg_acked x \<noteq> 1 \<longrightarrow> k_dead_link k \<le> sg_xmit x + 1 \<longrightarrow> fst (need_send k resent n x rt)
         \<longrightarrow> rt_state (the st) = 0xFFFFFFFF"
    using send_visit_ok[OF inv buf may, of resent n] unfolding option.sel by blast
  then have state: "rt_state rt = 0xFFFFFFFF \<longrightarrow> rt_state rt' = 0xFFFFFFFF"
      "sg_acked x \<noteq> 1 \<longrightarrow> k_dead_link k \<le> sg_xmit x + 1 \<longrightarrow> fst (need_send k resent n x rt)
         \<longrightarrow> rt_state rt' = 0xFFFFFFFF"
    using visit by auto
  then show "rt_state rt = 0xFFFFFFFF \<Longrightarrow> rt_state rt' = 0xFFFFFFFF" by blast
  show "wr_holds (rt_wr rt) y \<Longrightarrow> wr_holds (rt_wr rt') y"
    using sent kept send_segment_holds(2)[OF wr(1) buf len] wrn by metis
  assume o: "owed clk resent x"
  then have "nb" using owed_need_send[OF o wr(2), of k n] ns by simp
  moreover have "sg_acked x \<noteq> 1" using o by (simp add: owed_def)
  ultimately obtain rts where s: "send_segment clk k seg xn rtn = (x', Some rts)" "rt_wr rt' = rt_wr rts"
    using sent by blast
  have "sg_xmit x' = sg_xmit xn + 1" using s(1) by (auto simp: send_segment_def Let_def)
  moreover have "k_dead_link k \<le> sg_xmit x + 1 \<longrightarrow> rt_state rt' = 0xFFFFFFFF"
    using state visit \<open>nb\<close> \<open>sg_acked x \<noteq> 1\<close> ns by simp
  ultimately show "wr_holds (rt_wr rt') x' \<and> sg_xmit x' = sg_xmit x + 1
           \<and> (k_dead_link k \<le> sg_xmit x + 1 \<longrightarrow> rt_state rt' = 0xFFFFFFFF)"
    using send_segment_holds(1)[OF wr(1) buf len s(1)] s(2) need_send_frame(2)[OF ns] by simp
qed

lemma retrans_list_holds:
  assumes "loop_inv k P clk (Some rt)" and "k_buffer k = unat (k_mtu k)"
    and "\<forall>x \<in> set xs. may_send k seg P x"
  shows "\<exists>ys rt'. list_each (send_visit clk k resent n seg) xs (Some rt) = (True, ys, Some rt')
    \<and> (\<forall>y. wr_holds (rt_wr rt) y \<longrightarrow> wr_holds (rt_wr rt') y)
    \<and> (rt_state rt = 0xFFFFFFFF \<longrightarrow> rt_state rt' = 0xFFFFFFFF)
    \<and> list_all2 (\<lambda>x y. owed clk resent x \<longrightarrow> same_payload x y \<and> wr_holds (rt_wr rt') y \<and> sg_xmit y = sg_xmit x + 1
         \<and> (k_dead_link k \<le> sg_xmit x + 1 \<longrightarrow> rt_state rt' = 0xFFFFFFFF)) xs ys"
  using assms
proof (induction xs arbitrary: rt)
  case Nil
  then show ?case by simp
next
  case (Cons x xs)
  have may: "may_send k seg P x" using Cons.prems(3) by simp
  obtain x' st1 where v: "send_visit clk k resent n seg x (Some rt) = (True, x', st1)" "loop_inv k P clk st1"
      "same_payload x x'"
    using send_visit_ok[OF Cons.prems(1,2) may, of resent n] by blast
  then obtain rt1 where rt1: "st1 = Some rt1" by (auto simp: loop_inv_def)
  note h = send_visit_holds[OF Cons.prems(1,2) may v(1)[unfolded rt1]]
  obtain ys rt' where ys: "list_each (send_visit clk k resent n seg) xs (Some rt1) = (True, ys, Some rt')"
    "\<forall>y. wr_holds (rt_wr rt1) y \<longrightarrow> wr_holds (rt_wr rt') y"
    "rt_state rt1 = 0xFFFFFFFF \<longrightarrow> rt_state rt' = 0xFFFFFFFF"
    "list_all2 (\<lambda>x y. owed clk resent x \<longrightarrow> same_payload x y \<and> wr_holds (rt_wr rt') y \<and> sg_xmit y = sg_xmit x + 1
         \<and> (k_dead_link k \<le> sg_xmit x + 1 \<longrightarrow> rt_state rt' = 0xFFFFFFFF)) xs ys"
    using Cons.IH[of rt1] v(2) rt1 Cons.prems(2,3) by auto
  then show ?case
    using v(1,3) rt1 h by (intro exI[of _ "x' # ys"] exI[of _ rt']) auto
qed

section \<open>Acknowledgements\<close>

lemma flush_acks_holds:
  assumes "wr_ok (unat (k_mtu k)) P wr" and "k_buffer k = unat (k_mtu k)" and "50 \<le> unat (k_mtu k)"
    and "sg_data seg = []" and "\<And>sn ts. P (seg\<lparr>sg_sn := sn, sg_ts := ts\<rparr>)"
    and "flush_acks k acks seg wr = Some (seg', wr')"
  shows "(\<forall>y. wr_holds wr y \<longrightarrow> wr_holds wr' y)
    \<and> (\<forall>a \<in> set acks. 0 \<le> itimediff (ack_sn a) (k_rcv_nxt k) \<or> a = last acks
         \<longrightarrow> wr_holds wr' (seg\<lparr>sg_sn := ack_sn a, sg_ts := ack_ts a\<rparr>))"
  using assms(1,4-)
proof (induction acks arbitrary: seg wr)
  case Nil
  then show ?case by simp
next
  case (Cons a acks)
  let ?w0 = "makeSpace (unat (k_mtu k)) (k_buffer k) IKCP_OVERHEAD wr"
  let ?seg = "seg\<lparr>sg_sn := ack_sn a, sg_ts := ack_ts a\<rparr>"
  have w0: "wr_ok (unat (k_mtu k)) P ?w0"
    using makeSpace_ok(1)[OF Cons.prems(1), of IKCP_OVERHEAD] assms(2,3) by simp
  show ?case
  proof (cases "itimediff (ack_sn a) (k_rcv_nxt k) \<ge> 0 \<or> acks = []")
    case True
    obtain w1 where w1: "put_header ?seg ?w0 = Some w1" "wr_ok (unat (k_mtu k)) P w1"
      using put_header_ok[OF Cons.prems(1), of ?seg] Cons.prems(2,3) assms(2,3) by auto
    have rest: "flush_acks k acks ?seg w1 = Some (seg', wr')"
      using Cons.prems(4) True w1(1) by (simp add: Let_def)
    have "put_data (sg_data ?seg) w1 = Some w1" using Cons.prems(2) by simp
    note put = put_segment_holds[OF w0 w1(1) this]
    have IH: "(\<forall>y. wr_holds w1 y \<longrightarrow> wr_holds wr' y)
        \<and> (\<forall>b \<in> set acks. 0 \<le> itimediff (ack_sn b) (k_rcv_nxt k) \<or> b = last acks
             \<longrightarrow> wr_holds wr' (?seg\<lparr>sg_sn := ack_sn b, sg_ts := ack_ts b\<rparr>))"
      using Cons.IH[OF w1(2) _ _ rest] Cons.prems(2,3) by simp
    then show ?thesis
      using put wr_holds_makeSpace[of wr _ "unat (k_mtu k)" "k_buffer k" IKCP_OVERHEAD]
      by (cases "acks = []") auto
  next
    case False
    then have rest: "flush_acks k acks seg ?w0 = Some (seg', wr')"
      using Cons.prems(4) by (simp add: Let_def)
    show ?thesis
      using Cons.IH[OF w0 Cons.prems(2,3) rest] False
        wr_holds_makeSpace[of wr _ "unat (k_mtu k)" "k_buffer k" IKCP_OVERHEAD] by auto
  qed
qed

section \<open>A whole flush\<close>

definition fast_limit :: "KCP \<Rightarrow> u32" where
  "fast_limit k = (if sint (k_fastresend k) \<le> 0 then 0xffffffff else k_fastresend k)"

lemma flush_data_owed:
  assumes inv: "kcp_inv k" and wr: "wr_ok (unat (k_mtu k)) P wr"
    and send: "\<And>x. x \<in> set (flush_flight k) \<Longrightarrow> may_send k seg P x"
    and flush: "flush_data clk seg wr k = Some (t, k')"
  shows "\<exists>ds. k_output k' = k_output k @ ds \<and> (\<forall>y. wr_holds wr y \<longrightarrow> (\<exists>d \<in> set ds. holds d y))
    \<and> list_all2 (\<lambda>x y. owed clk (fast_limit k) x \<longrightarrow>
         same_payload x y \<and> (\<exists>d \<in> set ds. holds d y) \<and> sg_xmit y = sg_xmit x + 1
           \<and> (k_dead_link k \<le> sg_xmit x + 1 \<longrightarrow> k_state k' = 0xFFFFFFFF)) (flush_flight k) (snd_buf_list k')"
proof -
  let ?m = "flush_moved k" and ?cw = "flush_window k"
  have win: "?cw = (if k_nocwnd k = 0 then imin (k_cwnd k) (imin (k_snd_wnd k) (k_rmt_wnd k))
                    else imin (k_snd_wnd k) (k_rmt_wnd k))" by (simp add: flush_window_def Let_def)
  obtain q b0 where mv: "flush_move (Suc (rb_Len (k_snd_queue k))) ?cw 0 k =
           Some (?m, k\<lparr>k_snd_queue := q, k_snd_buf := b0, k_snd_nxt := k_snd_nxt k + of_nat ?m\<rparr>)"
      "snd_inv (k\<lparr>k_snd_queue := q, k_snd_buf := b0, k_snd_nxt := k_snd_nxt k + of_nat ?m\<rparr>)"
      "rb_list b0 = flush_flight k"
    using flush_move_inv[OF inv flush_window_le(1) flush_moved_def] unfolding flush_flight_def by blast
  let ?k2 = "k\<lparr>k_snd_queue := q, k_snd_buf := b0, k_snd_nxt := k_snd_nxt k + of_nat ?m, k_reads := k_reads k + 1\<rparr>"
  define rt0 where "rt0 = \<lparr>rt_current = clk (k_reads k), rt_change = 0, rt_lost = 0,
      rt_minrto = sint (k_interval k), rt_wr = wr, rt_state = k_state k, rt_reads = k_reads k + 1\<rparr>"
  have rb: "rb_inv b0" and start: "loop_inv ?k2 P clk (Some rt0)" "k_buffer ?k2 = unat (k_mtu ?k2)"
    using mv(2) wr inv by (auto simp: snd_inv_def loop_inv_def rt0_def kcp_inv_def cfg_inv_def)
  have may: "\<forall>x \<in> set (rb_list b0). may_send ?k2 seg P x"
    using send mv(3) by (simp add: may_send_def)
  from retrans_list_holds[OF start may, of "fast_limit k" ?m] obtain ys rt where
    ys: "list_each (send_visit clk ?k2 (fast_limit k) ?m seg) (rb_list b0) (Some rt0) = (True, ys, Some rt)"
      "\<forall>y. wr_holds wr y \<longrightarrow> wr_holds (rt_wr rt) y"
      "list_all2 (\<lambda>x y. owed clk (fast_limit k) x \<longrightarrow> same_payload x y \<and> wr_holds (rt_wr rt) y \<and> sg_xmit y = sg_xmit x + 1
         \<and> (k_dead_link k \<le> sg_xmit x + 1 \<longrightarrow> rt_state rt = 0xFFFFFFFF)) (flush_flight k) ys"
    using mv(3) by (auto simp: rt0_def)
  obtain b where b: "rb_ForEach (send_visit clk ?k2 (fast_limit k) ?m seg) b0 (Some rt0) = (b, Some rt)" "rb_list b = ys"
    using rb_ForEach_correct[OF rb, of "send_visit clk ?k2 (fast_limit k) ?m seg" "Some rt0"] ys(1)
    by (cases "rb_ForEach (send_visit clk ?k2 (fast_limit k) ?m seg) b0 (Some rt0)") simp
  let ?k3 = "?k2\<lparr>k_snd_buf := b, k_state := rt_state rt, k_reads := rt_reads rt,
                 k_output := k_output k @ flushBuffer (rt_wr rt)\<rparr>"
  let ?k4 = "flush_congestion ?cw (fast_limit k) (rt_change rt) (rt_lost rt) ?k3"
  have "flush_data clk seg wr k = Some (word_of_int (rt_minrto rt), ?k4)"
    using mv(1) b(1) unfolding flush_data_def Let_def win[symmetric] fast_limit_def rt0_def
    by (simp add: currentMs_def del: flush_move.simps split del: if_split cong: if_cong)
  then have k': "k' = ?k4" using flush by simp
  obtain ss cw ic where "?k4 = ?k3\<lparr>k_ssthresh := ss, k_cwnd := cw, k_incr := ic\<rparr>"
    using flush_congestion_frame by blast
  then have "k_output k' = k_output k @ flushBuffer (rt_wr rt)" "snd_buf_list k' = ys" "k_state k' = rt_state rt"
    using k' b(2) by simp_all
  then show ?thesis
    using ys(2,3) by (intro exI[of _ "flushBuffer (rt_wr rt)"]) (simp add: wr_holds_def)
qed

lemma probe_cmd_holds:
  assumes "flush_probe_cmd k flag cmd (seg, wr) = Some (seg', wr')" and "wr_ok mtu P wr"
    and "sg_data seg = []" and "k_buffer k = mtu" and "unat (k_mtu k) = mtu" and "IKCP_OVERHEAD \<le> mtu"
  shows "wr_holds wr y \<Longrightarrow> wr_holds wr' y"
proof (cases "k_probe k AND flag = 0")
  case True
  then show "wr_holds wr y \<Longrightarrow> wr_holds wr' y" using assms(1) by (simp add: flush_probe_cmd_def)
next
  case False
  let ?w0 = "makeSpace (unat (k_mtu k)) (k_buffer k) IKCP_OVERHEAD wr"
  have ok: "wr_ok mtu P ?w0" using makeSpace_ok(1)[OF assms(2,6)] assms(4,5) by simp
  have "put_header (seg\<lparr>sg_cmd := cmd\<rparr>) ?w0 = Some wr'"
    using assms(1) False by (auto simp: flush_probe_cmd_def Let_def)
  then show "wr_holds wr y \<Longrightarrow> wr_holds wr' y"
    using put_segment_holds(2)[OF ok, of "seg\<lparr>sg_cmd := cmd\<rparr>" wr' wr' y] wr_holds_makeSpace assms(3) by auto
qed

text \<open>The acknowledgement a flush sends for an entry of the list.\<close>

definition ack_seg :: "KCP \<Rightarrow> ackItem \<Rightarrow> segment" where
  "ack_seg k a = (flush_base k)\<lparr>sg_sn := ack_sn a, sg_ts := ack_ts a\<rparr>"

lemma kcp_flush_owed:
  assumes inv: "kcp_inv k" and flush: "kcp_flush clk False k = Some (t, k')"
  shows "\<exists>ds. k_output k' = k_output k @ ds
    \<and> (\<forall>a \<in> set (k_acklist k). 0 \<le> itimediff (ack_sn a) (k_rcv_nxt k) \<or> a = last (k_acklist k)
         \<longrightarrow> (\<exists>d \<in> set ds. holds d (ack_seg k a)))
    \<and> list_all2 (\<lambda>x y. owed clk (fast_limit k) x \<longrightarrow>
         same_payload x y \<and> (\<exists>d \<in> set ds. holds d y) \<and> sg_xmit y = sg_xmit x + 1
           \<and> (k_dead_link k \<le> sg_xmit x + 1 \<longrightarrow> k_state k' = 0xFFFFFFFF)) (flush_flight k) (snd_buf_list k')"
proof -
  let ?P = "flush_seg k (flush_flight k)" and ?mtu = "unat (k_mtu k)"
  have cfg: "cfg_inv k" using inv by auto
  obtain sn ts wr where acks: "flush_acks k (k_acklist k) (flush_base k) (([], k_buffer k), [])
            = Some ((flush_base k)\<lparr>sg_sn := sn, sg_ts := ts\<rparr>, wr)" "wr_ok ?mtu ?P wr"
    using flush_acks_phase[OF cfg] by blast
  have "wr_ok ?mtu (\<lambda>_. True) (([], k_buffer k), [])" "50 \<le> ?mtu" "k_buffer k = ?mtu" "sg_data (flush_base k) = []"
    using cfg by (auto simp: cfg_inv_def flush_base_def zero_seg_def)
  from flush_acks_holds[OF this(1,3,2,4) _ acks(1)]
  have ah: "\<forall>a \<in> set (k_acklist k). 0 \<le> itimediff (ack_sn a) (k_rcv_nxt k) \<or> a = last (k_acklist k)
      \<longrightarrow> wr_holds wr (ack_seg k a)" by (simp add: ack_seg_def)
  obtain r pw tp pr where pw: "flush_probe_wait clk (k\<lparr>k_acklist := []\<rparr>) =
     k\<lparr>k_acklist := [], k_reads := r, k_probe_wait := pw, k_ts_probe := tp, k_probe := pr\<rparr>"
    using flush_probe_wait_frame[of clk "k\<lparr>k_acklist := []\<rparr>"] by auto
  define kp where "kp = k\<lparr>k_acklist := [], k_reads := r, k_probe_wait := pw, k_ts_probe := tp, k_probe := pr\<rparr>"
  have kp: "wr_ok (unat (k_mtu kp)) ?P wr" "cfg_inv kp" using acks(2) cfg by (simp_all add: kp_def)
  let ?seg = "(flush_base k)\<lparr>sg_sn := sn, sg_ts := ts\<rparr>"
  from flush_probe_phase[OF kp, of ts sn] obtain c wr1 d wr2 where probes:
      "flush_probe_cmd kp IKCP_ASK_SEND IKCP_CMD_WASK (?seg, wr) = Some (?seg\<lparr>sg_cmd := c\<rparr>, wr1)"
      "flush_probe_cmd kp IKCP_ASK_TELL IKCP_CMD_WINS (?seg\<lparr>sg_cmd := c\<rparr>, wr1) = Some (?seg\<lparr>sg_cmd := d\<rparr>, wr2)"
      "wr_ok (unat (k_mtu kp)) ?P wr2" by auto
  have mtu: "k_buffer kp = unat (k_mtu kp)" "50 \<le> unat (k_mtu kp)" using kp(2) by (auto simp: cfg_inv_def)
  have data: "sg_data ?seg = []" "sg_data (?seg\<lparr>sg_cmd := c\<rparr>) = []" by (simp_all add: flush_base_def zero_seg_def)
  have "?P (?seg\<lparr>sg_cmd := IKCP_CMD_WASK\<rparr>)" by (simp add: flush_seg_def flush_base_def zero_seg_def)
  from flush_probe_cmd_ok[where P = ?P, OF kp(1) mtu data(1) this, of IKCP_ASK_SEND]
  have wr1: "wr_ok (unat (k_mtu kp)) ?P wr1" using probes(1) by auto
  have mono: "wr_holds wr y \<Longrightarrow> wr_holds wr2 y" for y
    using probe_cmd_holds[OF probes(1) kp(1) data(1) mtu(1) refl] probe_cmd_holds[OF probes(2) wr1 data(2) mtu(1) refl]
      mtu(2) by simp
  define seg where "seg = ?seg\<lparr>sg_cmd := d\<rparr>"
  define k1 where "k1 = kp\<lparr>k_probe := 0\<rparr>"
  have fl: "flush_data clk seg wr2 k1 = Some (t, k')"
    using flush acks(1) probes(1,2) pw
    by (simp add: kcp_flush_def flush_base_def[symmetric] Let_def kp_def[symmetric] seg_def k1_def)
  have same: "flush_flight k1 = flush_flight k" "k_mtu k1 = k_mtu k" "fast_limit k1 = fast_limit k" "k_output k1 = k_output k"
    "k_dead_link k1 = k_dead_link k"
    by (simp_all add: k1_def kp_def flush_flight_def flush_moved_def flush_window_def fast_limit_def cong: if_cong)
  have inv1: "kcp_inv k1" using inv by (simp add: kcp_inv_def k1_def kp_def)
  have send: "may_send k1 seg ?P x" if "x \<in> set (flush_flight k1)" for x
  proof -
    have x: "x \<in> set (flush_flight k)" using that same(1) by simp
    have "may_send k seg ?P x"
      by (rule flight_may_send[OF cfg flight_seg_flush[OF inv x] x]) (simp_all add: seg_def flush_base_def)
    then show ?thesis by (simp add: may_send_def same(2))
  qed
  have "wr_ok (unat (k_mtu k1)) ?P wr2" using probes(3) by (simp add: k1_def)
  from flush_data_owed[where P = ?P, OF inv1 this send fl] obtain ds where
    ds: "k_output k' = k_output k @ ds" "\<forall>y. wr_holds wr2 y \<longrightarrow> (\<exists>d \<in> set ds. holds d y)"
      "list_all2 (\<lambda>x y. owed clk (fast_limit k) x \<longrightarrow>
         same_payload x y \<and> (\<exists>d \<in> set ds. holds d y) \<and> sg_xmit y = sg_xmit x + 1
           \<and> (k_dead_link k \<le> sg_xmit x + 1 \<longrightarrow> k_state k' = 0xFFFFFFFF)) (flush_flight k) (snd_buf_list k')"
    unfolding same by blast
  have "\<forall>a \<in> set (k_acklist k). 0 \<le> itimediff (ack_sn a) (k_rcv_nxt k) \<or> a = last (k_acklist k)
         \<longrightarrow> (\<exists>d \<in> set ds. holds d (ack_seg k a))"
    using ah mono ds(2) by blast
  then show ?thesis using ds(1,3) by blast
qed

lemma kcp_flush_acks_owed:
  assumes inv: "kcp_inv k" and flush: "kcp_flush clk ackOnly k = Some (t, k')" and a: "a \<in> set (k_acklist k)"
    and owed: "0 \<le> itimediff (ack_sn a) (k_rcv_nxt k) \<or> a = last (k_acklist k)"
  shows "\<exists>ds. k_output k' = k_output k @ ds \<and> (\<exists>d \<in> set ds. holds d (ack_seg k a))"
proof (cases ackOnly)
  case False
  then have "kcp_flush clk False k = Some (t, k')" using flush by simp
  from kcp_flush_owed[OF inv this] a owed show ?thesis by blast
next
  case True
  have cfg: "cfg_inv k" using inv by auto
  obtain sn ts wr where acks: "flush_acks k (k_acklist k) (flush_base k) (([], k_buffer k), [])
            = Some ((flush_base k)\<lparr>sg_sn := sn, sg_ts := ts\<rparr>, wr)"
    using flush_acks_phase[OF cfg] by blast
  have "wr_ok (unat (k_mtu k)) (\<lambda>_. True) (([], k_buffer k), [])" "50 \<le> unat (k_mtu k)"
      "k_buffer k = unat (k_mtu k)" "sg_data (flush_base k) = []"
    using cfg by (auto simp: cfg_inv_def flush_base_def zero_seg_def)
  from flush_acks_holds[OF this(1,3,2,4) _ acks] a owed have "wr_holds wr (ack_seg k a)"
    unfolding ack_seg_def by blast
  moreover have "k_output k' = k_output k @ flushBuffer wr"
    using flush acks True by (auto simp: kcp_flush_def flush_base_def[symmetric] Let_def)
  ultimately show ?thesis by (auto simp: wr_holds_def)
qed

section \<open>What the receiver reads\<close>

text \<open>A datagram is cut into segments in one way only, as far as the receiver can see.\<close>

lemma datagram_unique:
  assumes "concat (map seg_bytes xs) = concat (map seg_bytes ys)"
    and "\<forall>s \<in> set xs \<union> set ys. length (sg_data s) < 2 ^ 32"
  shows "map on_wire xs = map on_wire ys"
  using assms
proof (induction xs arbitrary: ys)
  case Nil
  then have "length (concat (map seg_bytes ys)) = 0" by simp
  then have "ys = []" by (cases ys) (simp_all add: length_seg_bytes del: length_0_conv length_concat)
  then show ?case by simp
next
  case (Cons x xs)
  obtain y zs where ys: "ys = y # zs"
    using Cons.prems(1) length_seg_bytes[of x] by (cases ys) auto
  have eq: "seg_bytes x @ concat (map seg_bytes xs) = seg_bytes y @ concat (map seg_bytes zs)"
    using Cons.prems(1) ys by simp
  have len: "length (sg_data x) < 2 ^ 32" "length (sg_data y) < 2 ^ 32" using Cons.prems(2) ys by simp_all
  have "input_header (seg_bytes x @ concat (map seg_bytes xs)) = input_header (seg_bytes y @ concat (map seg_bytes zs))"
    using eq by simp
  then have h: "(on_wire x)\<lparr>sg_data := []\<rparr> = (on_wire y)\<lparr>sg_data := []\<rparr>" "length (sg_data x) = length (sg_data y)"
      "sg_data x @ concat (map seg_bytes xs) = sg_data y @ concat (map seg_bytes zs)"
    using len by (simp_all add: input_header_encode)
  then have d: "sg_data x = sg_data y" "concat (map seg_bytes xs) = concat (map seg_bytes zs)" by simp_all
  have "on_wire x = ((on_wire x)\<lparr>sg_data := []\<rparr>)\<lparr>sg_data := sg_data x\<rparr>" by (simp add: on_wire_def)
  also have "\<dots> = on_wire y" unfolding h(1) d(1) by (simp add: on_wire_def)
  finally have "on_wire x = on_wire y" .
  moreover have "map on_wire xs = map on_wire zs" using Cons.IH[OF d(2)] Cons.prems(2) ys by simp
  ultimately show ?case using ys by simp
qed

lemma flush_seg_wire:
  assumes "kcp_inv k'" and "k_conv k' = k_conv k" and "flush_seg k (snd_buf_list k') s"
  shows "sg_conv s = k_conv k \<and> cmd_known (sg_cmd s) \<and> length (sg_data s) < 2 ^ 32"
proof -
  have "length (sg_data x) < 2 ^ 32" if "x \<in> set (snd_buf_list k')" for x
  proof -
    have "length (sg_data x) \<le> unat (k_mss k')"
      using that assms(1) by (auto simp: snd_inv_def flight_seg_def dest!: kcp_invD(2))
    also have "unat (k_mss k') < 2 ^ 32" using unsigned_less[of "k_mss k'"] by simp
    finally show ?thesis .
  qed
  then show ?thesis using assms(3) by (auto simp: flush_seg_def same_payload_def cmd_known_def)
qed

text \<open>Every datagram of a flush parses, into segments the flush may send.\<close>

lemma flush_parses:
  assumes "sends_ok k k'" and "d \<in> set ds" and "k_output k' = k_output k @ ds"
  shows "\<exists>ss. d = concat (map seg_bytes ss) \<and> (\<forall>s \<in> set ss. flush_seg k (snd_buf_list k') s)
    \<and> input_parse (k_conv k) d = (map on_wire ss, 0)"
proof -
  have ok: "kcp_inv k'" "k_conv k' = k_conv k" "\<forall>d \<in> set ds. datagram_ok (unat (k_mtu k)) (flush_seg k (snd_buf_list k')) d"
    using assms(1,3) by (auto simp: sends_ok_def)
  then obtain ss where ss: "d = concat (map seg_bytes ss)" "\<forall>s \<in> set ss. flush_seg k (snd_buf_list k') s"
    using assms(2) by (auto simp: datagram_ok_def packed_def)
  then have "\<forall>s \<in> set ss. sg_conv s = k_conv k \<and> cmd_known (sg_cmd s) \<and> length (sg_data s) < 2 ^ 32"
    using flush_seg_wire[OF ok(1,2)] by blast
  from input_parse_packed[OF this] ss show ?thesis by blast
qed

lemma holds_parse:
  assumes "sends_ok k k'" and "d \<in> set ds" and "k_output k' = k_output k @ ds" and "holds d s"
  shows "on_wire s \<in> set (fst (input_parse (k_conv k) d))"
proof -
  obtain ss where ss: "d = concat (map seg_bytes ss)" "\<forall>s \<in> set ss. flush_seg k (snd_buf_list k') s"
      "input_parse (k_conv k) d = (map on_wire ss, 0)" using flush_parses[OF assms(1-3)] by blast
  obtain xs where xs: "d = concat (map seg_bytes xs)" "s \<in> set xs" using assms(4) by (auto simp: holds_def)
  have ok: "kcp_inv k'" "k_conv k' = k_conv k" "length d \<le> unat (k_mtu k)"
    using assms(1-3) by (auto simp: sends_ok_def datagram_ok_def)
  have "length (sg_data x) \<le> length d" if "x \<in> set xs" for x
  proof -
    have "length (sg_data x) \<le> length (seg_bytes x)" by (simp add: length_seg_bytes)
    also have "\<dots> \<le> length d" unfolding xs(1) using that by (induction xs) auto
    finally show ?thesis .
  qed
  then have "\<forall>x \<in> set xs. length (sg_data x) < 2 ^ 32"
    using ok(3) unsigned_less[of "k_mtu k"] by (fastforce intro: le_less_trans)
  then have "map on_wire xs = map on_wire ss"
    using datagram_unique[of xs ss] xs(1) ss(1,2) flush_seg_wire[OF ok(1,2)] by blast
  then show ?thesis using xs(2) unfolding ss(3) by (metis fst_conv image_eqI image_set)
qed

section \<open>Fields after a flush\<close>

lemma kcp_flush_fields:
  assumes "kcp_inv k" and "kcp_flush clk False k = Some (t, k')"
  shows "k_snd_una k' = k_snd_una k" and "k_snd_nxt k' = k_snd_nxt k + of_nat (flush_moved k)"
    and "snd_queue_list k' = drop (flush_moved k) (snd_queue_list k)"
    and "k_state k' = k_state k
      \<or> k_state k' = 0xFFFFFFFF \<and> (\<exists>x \<in> set (snd_buf_list k'). sg_acked x \<noteq> 1 \<and> k_dead_link k \<le> sg_xmit x)"
    and "k_nocwnd k = 0 \<longrightarrow> 1 \<le> k_cwnd k'" and "2 \<le> k_ssthresh k \<longrightarrow> 2 \<le> k_ssthresh k'"
    and "\<exists>mr. t = word_of_int mr \<and> mr \<le> sint (k_interval k) \<and> (0 < mr \<or> mr = sint (k_interval k))"
    and "k_ts_flush k' = k_ts_flush k" and "k_updated k' = k_updated k" and "k_interval k' = k_interval k"
proof -
  obtain mr k'' r pw tp q b st ds ss cw ic where f: "kcp_flush clk False k = Some (word_of_int mr, k'')"
     and k'': "k'' = k\<lparr>k_acklist := [], k_probe_wait := pw, k_ts_probe := tp, k_probe := 0,
              k_snd_queue := q, k_snd_nxt := k_snd_nxt k + of_nat (flush_moved k), k_snd_buf := b,
              k_state := st, k_reads := r, k_output := k_output k @ ds, k_ssthresh := ss, k_cwnd := cw, k_incr := ic\<rparr>"
     and facts: "rb_list q = drop (flush_moved k) (snd_queue_list k)"
       "st = k_state k \<or> st = 0xFFFFFFFF \<and> (\<exists>x \<in> set (rb_list b). sg_acked x \<noteq> 1 \<and> k_dead_link k \<le> sg_xmit x)"
       "k_nocwnd k = 0 \<longrightarrow> 1 \<le> cw" "2 \<le> k_ssthresh k \<longrightarrow> 2 \<le> ss"
       "mr \<le> sint (k_interval k)" "0 < mr \<or> mr = sint (k_interval k)"
    using kcp_flush_full[OF assms(1), of clk] by (elim exE conjE) (rule that; assumption)
  have eq: "t = word_of_int mr" "k' = k''" using f assms(2) by simp_all
  show "k_ts_flush k' = k_ts_flush k" "k_updated k' = k_updated k" "k_interval k' = k_interval k"
    by (simp_all add: eq k'')
  show "k_snd_una k' = k_snd_una k" "k_snd_nxt k' = k_snd_nxt k + of_nat (flush_moved k)"
    "snd_queue_list k' = drop (flush_moved k) (snd_queue_list k)"
    using facts(1) by (simp_all add: eq k'')
  show "k_state k' = k_state k
      \<or> k_state k' = 0xFFFFFFFF \<and> (\<exists>x \<in> set (snd_buf_list k'). sg_acked x \<noteq> 1 \<and> k_dead_link k \<le> sg_xmit x)"
    using facts(2) by (simp add: eq k'')
  show "k_nocwnd k = 0 \<longrightarrow> 1 \<le> k_cwnd k'" "2 \<le> k_ssthresh k \<longrightarrow> 2 \<le> k_ssthresh k'"
    using facts(3,4) by (simp_all add: eq k'')
  show "\<exists>mr. t = word_of_int mr \<and> mr \<le> sint (k_interval k) \<and> (0 < mr \<or> mr = sint (k_interval k))"
    using eq(1) facts(5,6) by blast
qed

end
