(* ===== verification/Kcp_Acknowledge.thy ===== *)
theory Kcp_Acknowledge
  imports Kcp_Transmit
begin

text \<open>
  From the arrival of a data segment to its acknowledgement: \<open>Input\<close> notes every data segment
  that lies before the end of the receive window, and the flush that follows, in the same call
  or later, sends what was noted.
\<close>

lemma input_segment_acks:
  assumes "input_segment regular seg (k, w) = Some (k', w')"
    and "kcp_inv k" and "length (sg_data seg) \<le> unat (k_mtu k)"
  shows "k_acklist k' = k_acklist k @
    (if sg_cmd seg = IKCP_CMD_PUSH \<and> itimediff (sg_sn seg) (k_rcv_nxt k + k_rcv_wnd k) < 0
     then [\<lparr>ack_sn = sg_sn seg, ack_ts = sg_ts seg\<rparr>] else [])"
proof -
  obtain flag latest slides where w: "w = (flag, latest, slides)" by (metis prod.collapse)
  obtain b u where una: "input_una regular seg k =
     k\<lparr>k_rmt_wnd := (if regular then ucast (sg_wnd seg) else k_rmt_wnd k), k_snd_buf := b, k_snd_una := u\<rparr>"
    using input_una_frame by blast
  let ?k1 = "input_una regular seg k" and ?k2 = "kcp_ack_push (sg_sn seg) (sg_ts seg) (input_una regular seg k)"
  have k1: "k_acklist ?k1 = k_acklist k" "k_rcv_nxt ?k1 = k_rcv_nxt k" "k_rcv_wnd ?k1 = k_rcv_wnd k"
    by (simp_all add: una)
  have k2: "k_acklist ?k2 = k_acklist k @ [\<lparr>ack_sn = sg_sn seg, ack_ts = sg_ts seg\<rparr>]"
    by (simp add: kcp_ack_push_def k1)
  have inv2: "kcp_inv ?k2" using input_una_inv[OF assms(2)] by (rule ack_push_inv)
  have data: "k_acklist k3 = k_acklist ?k2" if "kcp_parse_data seg ?k2 = Some (r, k3)" for r k3
  proof (cases "itimediff (sg_sn seg) (k_rcv_nxt ?k2 + k_rcv_wnd ?k2) \<ge> 0 \<or> itimediff (sg_sn seg) (k_rcv_nxt ?k2) < 0")
    case True
    then show ?thesis using that kcp_parse_data_outside[of seg ?k2] by simp
  next
    case False
    have "length (sg_data seg) \<le> unat (k_mtu ?k2)" using assms(3) by (simp add: una kcp_ack_push_def)
    from kcp_parse_data_inside[OF inv2 this False] that show ?thesis by auto
  qed
  have fast: "k_acklist (kcp_parse_fastack sn ts (kcp_parse_ack sn j)) = k_acklist j" for sn ts j
    by (simp add: kcp_parse_fastack_def kcp_parse_ack_def)
  note eq = assms(1)[unfolded w input_segment_eq Let_def]
  consider "sg_cmd seg = IKCP_CMD_PUSH" "itimediff (sg_sn seg) (k_rcv_nxt k + k_rcv_wnd k) < 0"
    | "sg_cmd seg = IKCP_CMD_PUSH" "\<not> itimediff (sg_sn seg) (k_rcv_nxt k + k_rcv_wnd k) < 0"
    | "sg_cmd seg \<noteq> IKCP_CMD_PUSH" by blast
  then show ?thesis
  proof cases
    case 1
    then have "k' = ?k2 \<or> (\<exists>r. kcp_parse_data seg ?k2 = Some (r, k'))"
      using eq k1 by (auto split: if_splits)
    then show ?thesis using 1 k2 data by auto
  next
    case 2
    then show ?thesis using eq k1 by auto
  next
    case 3
    then have "k' = kcp_parse_fastack (sg_sn seg) (sg_ts seg) (kcp_parse_ack (sg_sn seg) ?k1) \<or> k' = ?k1
        \<or> k' = ?k1\<lparr>k_probe := k_probe ?k1 OR IKCP_ASK_TELL\<rparr>"
      using eq by (simp split: if_splits)
    then show ?thesis using 3 fast k1 by auto
  qed
qed

text \<open>
  A segment before the end of the window, and less than a half-range behind it. The window moves
  while a datagram is processed, by at most the room in the receive queue.
\<close>

definition in_window :: "KCP \<Rightarrow> segment \<Rightarrow> bool" where
  "in_window k seg \<longleftrightarrow> itimediff (sg_sn seg) (k_rcv_nxt k + k_rcv_wnd k) < 0
     \<and> int (unat (k_rcv_wnd k)) - int (length (rcv_queue_list k)) - 2 ^ 31
         \<le> itimediff (sg_sn seg) (k_rcv_nxt k + k_rcv_wnd k)"

lemma in_window_grows:
  assumes "in_window k seg" and "rcv_grows P k k'" and "kcp_inv k'" and "k_rcv_wnd k' = k_rcv_wnd k"
  shows "in_window k' seg"
proof -
  let ?e = "k_rcv_nxt k + k_rcv_wnd k"
  obtain ms where ms: "rcv_queue_list k' = rcv_queue_list k @ ms" "k_rcv_nxt k' = k_rcv_nxt k + of_nat (length ms)"
    using assms(2) unfolding rcv_grows_def by blast
  have room: "length (rcv_queue_list k) + length ms \<le> unat (k_rcv_wnd k)"
    using assms(3,4) ms(1) by (auto simp: rcv_inv_def)
  define d where "d = itimediff (sg_sn seg) ?e"
  have d: "d < 0" "int (unat (k_rcv_wnd k)) - int (length (rcv_queue_list k)) - 2 ^ 31 \<le> d"
    using assms(1) by (simp_all add: in_window_def d_def)
  have sn: "sg_sn seg = ?e + word_of_int d"
    using word_of_itimediff[of "sg_sn seg" ?e] by (simp add: d_def)
  have "sg_sn seg = (k_rcv_nxt k' + k_rcv_wnd k') + word_of_int (d - int (length ms))"
    unfolding sn ms(2) assms(4) by (simp add: algebra_simps)
  moreover have "- (2 ^ 31) \<le> d - int (length ms)" "d - int (length ms) < 2 ^ 31"
    using d room by linarith+
  ultimately have "itimediff (sg_sn seg) (k_rcv_nxt k' + k_rcv_wnd k') = d - int (length ms)"
    using itimediff_of_int[of "d - int (length ms)"] by simp
  then show ?thesis using d ms(1) assms(4) by (simp add: in_window_def)
qed

text \<open>Every data segment of the datagram that lies in the window at its arrival is noted.\<close>

lemma input_segments_acks:
  assumes "input_segments regular segs (k, w) = Some (k', w')"
    and "kcp_inv k" and "\<forall>seg \<in> set segs. length (sg_data seg) \<le> unat (k_mtu k)"
  shows "set (k_acklist k) \<subseteq> set (k_acklist k')
    \<and> (\<forall>seg \<in> set segs. sg_cmd seg = IKCP_CMD_PUSH \<longrightarrow> in_window k seg
         \<longrightarrow> \<lparr>ack_sn = sg_sn seg, ack_ts = sg_ts seg\<rparr> \<in> set (k_acklist k'))"
  using assms
proof (induction segs arbitrary: k w)
  case Nil
  then show ?case by simp
next
  case (Cons seg segs)
  obtain k1 w1 where k1: "input_segment regular seg (k, w) = Some (k1, w1)" "input_ok (\<lambda>_. True) k k1"
    using input_segment_ok[of k seg "\<lambda>_. True" regular w] Cons.prems by auto
  then have inv1: "kcp_inv k1" and mtu1: "k_mtu k1 = k_mtu k" and wnd1: "k_rcv_wnd k1 = k_rcv_wnd k"
    and grows: "rcv_grows (\<lambda>_. True) k k1" by (simp_all add: input_ok_def input_frame_def)
  have "input_segments regular segs (k1, w1) = Some (k', w')" using Cons.prems(1) k1(1) by simp
  from Cons.IH[OF this inv1] Cons.prems(3) mtu1 have
    IH: "set (k_acklist k1) \<subseteq> set (k_acklist k')"
      "\<And>s. s \<in> set segs \<Longrightarrow> sg_cmd s = IKCP_CMD_PUSH \<Longrightarrow> in_window k1 s
         \<Longrightarrow> \<lparr>ack_sn = sg_sn s, ack_ts = sg_ts s\<rparr> \<in> set (k_acklist k')" by auto
  have acks: "k_acklist k1 = k_acklist k @
    (if sg_cmd seg = IKCP_CMD_PUSH \<and> itimediff (sg_sn seg) (k_rcv_nxt k + k_rcv_wnd k) < 0
     then [\<lparr>ack_sn = sg_sn seg, ack_ts = sg_ts seg\<rparr>] else [])"
    by (rule input_segment_acks[OF k1(1) Cons.prems(2)]) (use Cons.prems(3) in simp)
  have "\<lparr>ack_sn = sg_sn seg, ack_ts = sg_ts seg\<rparr> \<in> set (k_acklist k')"
    if "sg_cmd seg = IKCP_CMD_PUSH" "in_window k seg"
    using acks that IH(1) by (auto simp: in_window_def)
  moreover have "set (k_acklist k) \<subseteq> set (k_acklist k')"
    using IH(1) by (auto simp: acks)
  ultimately show ?case
    using IH(2) in_window_grows[OF _ grows inv1 wnd1] by auto
qed

text \<open>What is noted is acknowledged by a flush: by name, or by a cumulative number past it.\<close>

definition acknowledged :: "u32 \<Rightarrow> bytes list \<Rightarrow> u32 \<Rightarrow> u32 \<Rightarrow> bool" where
  "acknowledged conv ds sn ts \<longleftrightarrow> (\<exists>d \<in> set ds. \<exists>s \<in> set (fst (input_parse conv d)). sg_cmd s = IKCP_CMD_ACK
     \<and> (sg_sn s = sn \<and> sg_ts s = ts \<or> itimediff sn (sg_una s) < 0))"

lemma flush_acknowledged:
  assumes "kcp_inv k" and "kcp_flush clk ackOnly k = Some (t, k')" and "a \<in> set (k_acklist k)"
  shows "\<exists>ds. k_output k' = k_output k @ ds \<and> acknowledged (k_conv k) ds (ack_sn a) (ack_ts a)"
proof -
  have ok: "sends_ok k k'" using kcp_flush_sends[OF assms(1), of clk ackOnly] assms(2) by auto
  define b where "b = (if 0 \<le> itimediff (ack_sn a) (k_rcv_nxt k) then a else last (k_acklist k))"
  have "b \<in> set (k_acklist k)" "0 \<le> itimediff (ack_sn b) (k_rcv_nxt k) \<or> b = last (k_acklist k)"
    using assms(3) by (auto simp: b_def intro!: last_in_set)
  from kcp_flush_acks_owed[OF assms(1,2) this] obtain ds d where
    ds: "k_output k' = k_output k @ ds" "d \<in> set ds" "holds d (ack_seg k b)" by blast
  have "on_wire (ack_seg k b) \<in> set (fst (input_parse (k_conv k) d))"
    by (rule holds_parse[OF ok ds(2,1,3)])
  moreover have "0 \<le> itimediff (ack_sn a) (k_rcv_nxt k) \<longrightarrow> b = a" by (simp add: b_def)
  ultimately have "acknowledged (k_conv k) ds (ack_sn a) (ack_ts a)"
    unfolding acknowledged_def using ds(2)
    by (intro bexI[of _ d] bexI[of _ "on_wire (ack_seg k b)"]) (auto simp: ack_seg_def flush_base_def)
  then show ?thesis using ds(1) by blast
qed

lemma acknowledged_mono: "acknowledged conv ds sn ts \<Longrightarrow> set ds \<subseteq> set es \<Longrightarrow> acknowledged conv es sn ts"
  by (auto simp: acknowledged_def)

lemma input_acknowledged:
  assumes "kcp_inv k" and "kcp_Input clk data regular ackNoDelay k = Some (code, k1)" and "length data \<le> unat (k_mtu k)"
    and "seg \<in> set (fst (input_parse (k_conv k) data))" and "sg_cmd seg = IKCP_CMD_PUSH"
    and "itimediff (sg_sn seg) (k_rcv_nxt k + k_rcv_wnd k) < 0"
    and "int (unat (k_rcv_wnd k)) - 2 ^ 31 \<le> itimediff (sg_sn seg) (k_rcv_nxt k + k_rcv_wnd k)"
    and "kcp_flush clk' ackOnly k1 = Some (t, k2)"
  shows "\<exists>ds es. k_output k1 = k_output k @ ds \<and> k_output k2 = k_output k1 @ es
    \<and> acknowledged (k_conv k) (ds @ es) (sg_sn seg) (sg_ts seg)
    \<and> (code = 0 \<and> ackNoDelay \<longrightarrow> acknowledged (k_conv k) ds (sg_sn seg) (sg_ts seg))"
proof -
  let ?a = "\<lparr>ack_sn = sg_sn seg, ack_ts = sg_ts seg\<rparr>"
  have long: "IKCP_OVERHEAD \<le> length data"
  proof (rule ccontr)
    assume "\<not> IKCP_OVERHEAD \<le> length data"
    then have "fst (input_parse (k_conv k) data) = []" by (simp add: input_parse.simps)
    then show False using assms(4) by simp
  qed
  obtain j w m k' where j: "input_segments regular (fst (input_parse (k_conv k) data)) (k, False, 0, False) = Some (j, w)"
     and input: "kcp_Input clk data regular ackNoDelay k = Some (snd (input_parse (k_conv k) data), k')"
     and m: "only_estimates j m" and inv: "kcp_inv m"
     and fin': "k' = m \<and> \<not> (snd (input_parse (k_conv k) data) = 0 \<and> ackNoDelay \<and> k_acklist m \<noteq> [])
         \<or> (\<exists>b t. kcp_flush clk b m = Some (t, k'))"
    using kcp_Input_split[OF assms(1,3) long, of regular clk ackNoDelay] by (elim exE conjE) (rule that)
  have fin: "k1 = m \<and> \<not> (code = 0 \<and> ackNoDelay \<and> k_acklist m \<noteq> []) \<or> (\<exists>b t. kcp_flush clk b m = Some (t, k1))"
    using fin' input assms(2) by simp
  have len: "\<forall>s \<in> set (fst (input_parse (k_conv k) data)). length (sg_data s) \<le> unat (k_mtu k)"
    using input_parse_data[of "k_conv k" data] assms(3) by (auto intro: order_trans)
  have "input_ok (\<lambda>_. True) k j"
    using input_segments_ok[OF assms(1) len, of "\<lambda>_. True" regular "(False, 0, False)"] j by auto
  then have "k_conv m = k_conv k" "k_output m = k_output k"
    using only_estimates_same[OF m] by (simp_all add: input_ok_def input_frame_def)
  moreover have "in_window k seg" using assms(6,7) by (simp add: in_window_def)
  then have a: "?a \<in> set (k_acklist m)"
    using input_segments_acks[OF j assms(1) len] assms(4,5) only_estimates_same[OF m] by auto
  ultimately show ?thesis
    using fin
  proof (elim disjE)
    assume "k1 = m \<and> \<not> (code = 0 \<and> ackNoDelay \<and> k_acklist m \<noteq> [])"
      and m: "k_conv m = k_conv k" "k_output m = k_output k"
    then have "k1 = m" "\<not> (code = 0 \<and> ackNoDelay)" using a by auto
    then obtain es where "k_output k2 = k_output k1 @ es" "acknowledged (k_conv k) es (sg_sn seg) (sg_ts seg)"
      using flush_acknowledged[OF inv _ a, of clk' ackOnly t k2] assms(8) m by auto
    then show ?thesis using \<open>k1 = m\<close> \<open>\<not> (code = 0 \<and> ackNoDelay)\<close> m by (intro exI[of _ "[]"] exI[of _ es]) auto
  next
    assume "\<exists>b t. kcp_flush clk b m = Some (t, k1)"
      and m: "k_conv m = k_conv k" "k_output m = k_output k"
    then obtain b t' where fl: "kcp_flush clk b m = Some (t', k1)" by blast
    obtain ds where ds: "k_output k1 = k_output k @ ds" "acknowledged (k_conv k) ds (sg_sn seg) (sg_ts seg)"
      using flush_acknowledged[OF inv fl a] m by auto
    have "kcp_inv k1" using kcp_flush_sends[OF inv, of clk b] fl by (auto simp: sends_ok_def)
    then have "\<exists>es. k_output k2 = k_output k1 @ es"
      using kcp_flush_sends[of k1 clk' ackOnly] assms(8) by (auto simp: sends_ok_def)
    then show ?thesis using ds acknowledged_mono[OF ds(2)] by fastforce
  qed
qed

end
