(* ===== verification/Kcp_Properties.thy ===== *)
theory Kcp_Properties
  imports Kcp_Examples Kcp_Acknowledge
begin

text \<open>
  The properties of one KCP connection (\<open>kcp.go\<close>): what sending, flushing, taking in a datagram
  and receiving do on every branch, the bounds the protocol keeps, and its schedule.
\<close>

section \<open>Taking in datagrams\<close>



text \<open>
  C30: the loop of \<open>Input\<close> refines the specification that first parses the datagram into
  segments and an error code, without looking at the connection, and then processes them in
  order; an error keeps the effects of the segments before it.
\<close>

theorem input_parses_then_processes:
  assumes "kcp_inv k" and "length data \<le> unat (k_mtu k)"
  shows "input_loop regular data (k, flag, latest, slides) =
     map_option (\<lambda>w. if snd (input_parse (k_conv k) data) = 0 then Inr w
                     else Inl (snd (input_parse (k_conv k) data), fst w))
                (input_segments regular (fst (input_parse (k_conv k) data)) (k, flag, latest, slides))"
  using input_loop_parse[of "(k, flag, latest, slides)" data regular] assms by (simp cong: if_cong)

theorem input_parses_then_processes_witness:
  "input_loop True [7, 0, 0, 0, 83, 0, 9, 0, 0, 0, 0, 0, 0, 0, 0, 0, 0, 0, 0, 0, 0, 0, 0, 0] (NewKCP 7, False, 0, False)
     = map_option Inr (input_segment True (zero_seg\<lparr>sg_conv := 7, sg_cmd := 83, sg_wnd := 9\<rparr>) (NewKCP 7, False, 0, False))"
proof -
  let ?d = "[7, 0, 0, 0, 83, 0, 9, 0, 0, 0, 0, 0, 0, 0, 0, 0, 0, 0, 0, 0, 0, 0, 0, 0 :: byte]"
  have p: "input_parse 7 ?d = ([zero_seg\<lparr>sg_conv := 7, sg_cmd := 83, sg_wnd := 9\<rparr>], 0)" by code_simp
  have "k_conv (NewKCP 7) = 7" by (simp add: NewKCP_def)
  then show ?thesis
    using input_parses_then_processes[OF kcp_inv_New[of 7], of ?d True False 0 False] p
    by (cases "input_segment True (zero_seg\<lparr>sg_conv := 7, sg_cmd := 83, sg_wnd := 9\<rparr>) (NewKCP 7, False, 0, False)")
      (simp_all add: NewKCP_def)
qed

text \<open>
  C14: every datagram a flush hands to the output is decoded by any receiver of the same
  conversation into exactly the segments the flush put into it, with code 0.
\<close>

theorem flush_input_roundtrip:
  assumes "kcp_inv k" and "kcp_flush clk ackOnly k = Some (t, k')" and "k_output k = []" and "d \<in> set (k_output k')"
  shows "\<exists>ss. d = concat (map seg_bytes ss) \<and> (\<forall>s \<in> set ss. flush_seg k (snd_buf_list k') s)
    \<and> input_parse (k_conv k) d = (map on_wire ss, 0)"
proof -
  have "sends_ok k k'" using kcp_flush_sends[OF assms(1), of clk ackOnly] assms(2) by auto
  from flush_parses[OF this, of d "k_output k'"] show ?thesis using assms(3,4) by simp
qed

theorem flush_input_roundtrip_witness:
  "\<exists>ss. demo_datagram = concat (map seg_bytes ss) \<and> input_parse 7 demo_datagram = (map on_wire ss, 0)"
proof -
  have "k_conv demo_sent = 7" by (simp add: demo_sent_def demo_ready_def) code_simp
  then show ?thesis
    using flush_input_roundtrip[OF demo_sent_inv demo_flush demo_run(1) demo_output] by auto
qed

section \<open>Flushing\<close>

text \<open>
  C9: a flush leaves nothing owed behind. A segment in flight that was never sent, was skipped as
  often as the fast-retransmit threshold, or whose timer has expired is sent: the receiver of
  the same conversation reads it out of one of the datagrams, and its transmission is counted.
\<close>

theorem flush_sends_owed:
  assumes "kcp_inv k" and "kcp_flush clk False k = Some (t, k')" and "k_output k = []"
    and "x \<in> set (flush_flight k)" and "owed clk (fast_limit k) x"
  shows "\<exists>y \<in> set (snd_buf_list k'). same_payload x y \<and> sg_xmit y = sg_xmit x + 1
    \<and> (\<exists>d \<in> set (k_output k'). on_wire y \<in> set (fst (input_parse (k_conv k) d)))"
proof -
  have ok: "sends_ok k k'" using kcp_flush_sends[OF assms(1), of clk False] assms(2) by auto
  obtain ds where ds: "k_output k' = k_output k @ ds"
    "list_all2 (\<lambda>x y. owed clk (fast_limit k) x \<longrightarrow>
         same_payload x y \<and> (\<exists>d \<in> set ds. holds d y) \<and> sg_xmit y = sg_xmit x + 1
           \<and> (k_dead_link k \<le> sg_xmit x + 1 \<longrightarrow> k_state k' = 0xFFFFFFFF)) (flush_flight k) (snd_buf_list k')"
    using kcp_flush_owed[OF assms(1,2)] by blast
  obtain y d where y: "y \<in> set (snd_buf_list k')" "same_payload x y" "sg_xmit y = sg_xmit x + 1" "d \<in> set ds" "holds d y"
    using list_all2_left[OF ds(2) assms(4)] assms(5) by blast
  from holds_parse[OF ok y(4) ds(1) y(5)] show ?thesis using y ds(1) by auto
qed

theorem flush_sends_owed_witness:
  "\<exists>y \<in> set (snd_buf_list demo_flushed). sg_data y = [1, 2, 3] \<and> sg_xmit y = 1"
proof -
  have "map (\<lambda>x. (sg_data x, sg_xmit x, sg_acked x)) (flush_flight demo_sent) = [([1, 2, 3], 0, 0)]"
    unfolding demo_sent_def demo_ready_def by code_simp
  then obtain x where x: "x \<in> set (flush_flight demo_sent)" "sg_data x = [1, 2, 3]" "sg_xmit x = 0" "sg_acked x = 0"
    by auto
  then have "owed (\<lambda>_. 0) (fast_limit demo_sent) x" by (simp add: owed_def)
  from flush_sends_owed[OF demo_sent_inv demo_flush demo_run(1) x(1) this]
  show ?thesis using x by (auto simp: same_payload_def)
qed

text \<open>
  C10: a data segment that arrives is acknowledged. Whatever datagram \<open>Input\<close> takes in, and
  whichever flush comes next: for each data segment of the datagram that lies before the end of the
  receive window at its arrival, received before or not, the datagrams that \<open>Input\<close> and this
  flush put out contain an acknowledgement that names its sequence number and time stamp, or one
  whose cumulative number is past it. If the whole datagram is accepted and acknowledgements are
  not to be delayed, \<open>Input\<close> itself has sent it. (Sequence numbers are compared as in the code,
  within a half-range: the segment is less than that, less the window, behind the end of the window.
  A segment beyond the window is not acknowledged.)
\<close>

theorem received_acknowledged:
  assumes "kcp_inv k" and "length data \<le> unat (k_mtu k)"
    and "kcp_Input clk data regular ackNoDelay k = Some (code, k1)" and "kcp_flush clk' ackOnly k1 = Some (t, k2)"
    and "seg \<in> set (fst (input_parse (k_conv k) data))" and "sg_cmd seg = IKCP_CMD_PUSH"
    and "itimediff (sg_sn seg) (k_rcv_nxt k + k_rcv_wnd k) < 0"
    and "int (unat (k_rcv_wnd k)) - 2 ^ 31 \<le> itimediff (sg_sn seg) (k_rcv_nxt k + k_rcv_wnd k)"
  shows "\<exists>ds es. k_output k1 = k_output k @ ds \<and> k_output k2 = k_output k1 @ es
    \<and> acknowledged (k_conv k) (ds @ es) (sg_sn seg) (sg_ts seg)
    \<and> (code = 0 \<and> ackNoDelay \<longrightarrow> acknowledged (k_conv k) ds (sg_sn seg) (sg_ts seg))"
  by (rule input_acknowledged[OF assms(1,3,2,5,6,7,8,4)])

theorem received_acknowledged_witness:
  "\<exists>t k2. kcp_flush (\<lambda>_. 0) True demo_taken = Some (t, k2) \<and> acknowledged 7 (k_output k2) 0 0"
proof -
  have new: "k_conv (NewKCP 7) = 7" "k_mtu (NewKCP 7) = 1400" "k_output (NewKCP 7) = []" "k_rcv_nxt (NewKCP 7) = 0"
    "k_rcv_wnd (NewKCP 7) = 32" by (simp_all add: NewKCP_def)
  have len: "length demo_datagram \<le> unat (k_mtu (NewKCP 7))"
  proof -
    have "length demo_datagram = 27"
      unfolding demo_datagram_def demo_flushed_def demo_sent_def demo_ready_def by code_simp
    then show ?thesis by (simp add: new)
  qed
  have "map (\<lambda>s. (sg_cmd s, sg_sn s, sg_ts s)) (fst (input_parse 7 demo_datagram)) = [(81, 0, 0)]"
    unfolding demo_datagram_def demo_flushed_def demo_sent_def demo_ready_def by code_simp
  then obtain seg where seg: "seg \<in> set (fst (input_parse 7 demo_datagram))" "sg_cmd seg = IKCP_CMD_PUSH"
      "sg_sn seg = 0" "sg_ts seg = 0" by (auto simp: map_eq_Cons_conv)
  obtain k1 where "sends_ok k1 demo_taken"
    using kcp_Input_ok[where P = "\<lambda>_. True", OF kcp_inv_New[of 7] len, of "\<lambda>_. 0" True False] demo_taken by auto
  then have "kcp_inv demo_taken" by (simp add: sends_ok_def)
  then obtain t k2 where k2: "kcp_flush (\<lambda>_. 0) True demo_taken = Some (t, k2)"
    using kcp_flush_sends[of demo_taken "\<lambda>_. 0" True] by blast
  have "itimediff 0 (0 + 32) = - 32" by (simp add: itimediff_def)
  then show ?thesis
    using received_acknowledged[OF kcp_inv_New[of 7] len demo_taken k2, of seg] seg k2 by (auto simp: new)
qed

text \<open>
  C16: a flush takes queued segments into flight in order, as many as the windows leave room
  for: the room is what the smallest of the send window, the peer's window and (unless congestion
  control is off) the congestion window leaves beyond the segments not yet acknowledged.
\<close>

theorem flush_respects_window:
  assumes "kcp_inv k" and "kcp_flush clk False k = Some (t, k')"
  defines "w \<equiv> min (min (unat (k_snd_wnd k)) (unat (k_rmt_wnd k)))
             (if k_nocwnd k = 0 then unat (k_cwnd k) else unat (k_snd_wnd k))"
    and "inflight \<equiv> sn_off (k_snd_una k) (k_snd_nxt k)"
  shows "snd_queue_list k' = drop (w - inflight) (snd_queue_list k)
    \<and> k_snd_nxt k' = k_snd_nxt k + of_nat (length (snd_queue_list k) - length (snd_queue_list k'))
    \<and> sn_off (k_snd_una k') (k_snd_nxt k') \<le> max inflight w"
proof -
  let ?m = "flush_moved k"
  have w: "unat (flush_window k) = w"
    by (auto simp: flush_window_def w_def imin_def Let_def word_le_nat_alt min_def)
  have m: "?m = min (length (snd_queue_list k)) (w - inflight)" by (simp add: flush_moved_def w inflight_def)
  note k' = kcp_flush_fields[OF assms(1,2)]
  have q: "snd_queue_list k' = drop (w - inflight) (snd_queue_list k)"
    using k'(3) m by (cases "length (snd_queue_list k) \<le> w - inflight") simp_all
  have len: "length (snd_queue_list k) - length (snd_queue_list k') = ?m" using q m by auto
  have cfg: "cfg_inv k" and snd: "snd_inv k" using assms(1) by auto
  have "inflight \<le> unat (k_snd_wnd k)" "w \<le> unat (k_snd_wnd k)" "unat (k_snd_wnd k) < 2 ^ 31"
    using snd cfg by (simp_all add: snd_inv_def cfg_inv_def inflight_def w_def)
  then have "sn_off (k_snd_una k) (k_snd_nxt k + of_nat ?m) = inflight + ?m"
    unfolding inflight_def by (intro sn_off_forward) (simp add: m inflight_def)
  moreover have "inflight + ?m \<le> max inflight w" using m by arith
  ultimately show ?thesis using q len k'(1,2) by simp
qed

theorem flush_respects_window_witness:
  "snd_queue_list demo_flushed = [] \<and> k_snd_nxt demo_flushed = 1"
proof -
  have "length (snd_queue_list demo_sent) = 1 \<and> k_snd_nxt demo_sent = 0 \<and> k_snd_una demo_sent = 0
      \<and> k_snd_wnd demo_sent = 32 \<and> k_rmt_wnd demo_sent = 32 \<and> k_nocwnd demo_sent = 1"
    unfolding demo_sent_def demo_ready_def by code_simp
  then show ?thesis
    using flush_respects_window[OF demo_sent_inv demo_flush] by simp
qed

text \<open>
  A flush asks to be called again within one interval, after a positive time that is no
  later than the nearest retransmission timer it saw.
\<close>

theorem flush_timer:
  assumes "kcp_inv k" and "kcp_flush clk ackOnly k = Some (t, k')"
    and "0 < unat (k_interval k)" and "unat (k_interval k) < 2 ^ 31"
  shows "0 < unat t \<and> unat t \<le> unat (k_interval k)"
proof (cases ackOnly)
  case True
  then show ?thesis using kcp_flush_ackOnly[OF assms(1), of clk] assms by auto
next
  case False
  obtain mr where mr: "t = word_of_int mr" "mr \<le> sint (k_interval k)" "0 < mr \<or> mr = sint (k_interval k)"
    using kcp_flush_fields(7)[OF assms(1), of clk t k'] assms(2) False by auto
  have "uint (k_interval k) < 2 ^ 31" using assms(4) by (simp add: unat_eq_nat_uint nat_less_iff del: nat_uint_eq)
  moreover have "- (2 ^ 31) \<le> uint (k_interval k)" by (rule order_trans[of _ 0]) simp_all
  ultimately have i: "sint (k_interval k) = int (unat (k_interval k))"
    using sint_of_int32[of "uint (k_interval k)"] by simp
  then have "0 < mr" "mr \<le> int (unat (k_interval k))" using mr(2,3) assms(3) unfolding i by linarith+
  moreover have "mr < 2 ^ 32"
    using \<open>mr \<le> int (unat (k_interval k))\<close> \<open>uint (k_interval k) < 2 ^ 31\<close> by simp
  ultimately have "unat t = nat mr" unfolding mr(1) by (intro unat_word_of_int32) linarith+
  then show ?thesis using \<open>0 < mr\<close> \<open>mr \<le> int (unat (k_interval k))\<close> by linarith
qed

theorem flush_timer_witness: "0 < unat (10 :: u32) \<and> unat (10 :: u32) \<le> unat (k_interval demo_sent)"
proof -
  have "k_interval demo_sent = 10" unfolding demo_sent_def demo_ready_def by code_simp
  then show ?thesis using flush_timer[OF demo_sent_inv demo_flush] by simp
qed

text \<open>
  A link is declared dead exactly by a segment sent too often: a flush changes the state only
  when a segment without acknowledgement has been sent \<open>dead_link\<close> times, and sending one for
  the \<open>dead_link\<close>-th time does change it.
\<close>

theorem flush_dead_link:
  assumes "kcp_inv k" and "kcp_flush clk False k = Some (t, k')"
  shows "(k_state k' = k_state k \<or> k_state k' = 0xFFFFFFFF
           \<and> (\<exists>x \<in> set (snd_buf_list k'). sg_acked x \<noteq> 1 \<and> k_dead_link k \<le> sg_xmit x))
    \<and> ((\<exists>x \<in> set (flush_flight k). owed clk (fast_limit k) x \<and> k_dead_link k \<le> sg_xmit x + 1)
         \<longrightarrow> k_state k' = 0xFFFFFFFF)"
proof -
  have "k_state k' = k_state k \<or> k_state k' = 0xFFFFFFFF
           \<and> (\<exists>x \<in> set (snd_buf_list k'). sg_acked x \<noteq> 1 \<and> k_dead_link k \<le> sg_xmit x)"
    by (rule kcp_flush_fields(4)[OF assms])
  moreover have "k_state k' = 0xFFFFFFFF"
    if x: "x \<in> set (flush_flight k)" "owed clk (fast_limit k) x" "k_dead_link k \<le> sg_xmit x + 1" for x
    using kcp_flush_owed[OF assms] list_all2_left[OF _ x(1)] x(2,3) by blast
  ultimately show ?thesis by blast
qed

theorem flush_dead_link_witness: "k_state (snd (the (kcp_flush (\<lambda>_. 0) False (demo_sent\<lparr>k_dead_link := 1\<rparr>)))) = 0xFFFFFFFF"
proof -
  let ?k = "demo_sent\<lparr>k_dead_link := 1\<rparr>"
  have inv: "kcp_inv ?k" using demo_sent_inv by (simp add: kcp_inv_def)
  obtain t k' where k': "kcp_flush (\<lambda>_. 0) False ?k = Some (t, k')"
    using kcp_flush_sends[OF inv, of "\<lambda>_. 0" False] by blast
  have "map (\<lambda>x. (sg_xmit x, sg_acked x)) (flush_flight ?k) = [(0, 0)]"
    unfolding demo_sent_def demo_ready_def by code_simp
  then obtain x where "x \<in> set (flush_flight ?k)" "sg_xmit x = 0" "sg_acked x = 0" by auto
  then have "\<exists>x \<in> set (flush_flight ?k). owed (\<lambda>_. 0) (fast_limit ?k) x \<and> k_dead_link ?k \<le> sg_xmit x + 1"
    by (intro bexI[of _ x]) (simp_all add: owed_def)
  then show ?thesis using flush_dead_link[OF inv k'] k' by simp
qed

text \<open>
  The congestion window stays open: after a flush under congestion control it admits at least
  one segment, and the slow-start threshold never falls below two.
\<close>

theorem flush_congestion_bounds:
  assumes "kcp_inv k" and "kcp_flush clk False k = Some (t, k')" and "k_nocwnd k = 0"
  shows "1 \<le> k_cwnd k' \<and> (2 \<le> k_ssthresh k \<longrightarrow> 2 \<le> k_ssthresh k')"
  using kcp_flush_fields(5,6)[OF assms(1,2)] assms(3) by blast

theorem flush_congestion_bounds_witness:
  "\<exists>t k'. kcp_flush (\<lambda>_. 0) False (NewKCP 7) = Some (t, k') \<and> 1 \<le> k_cwnd k' \<and> 2 \<le> k_ssthresh k'"
proof -
  obtain t k' where k': "kcp_flush (\<lambda>_. 0) False (NewKCP 7) = Some (t, k')"
    using kcp_flush_sends[OF kcp_inv_New[of 7], of "\<lambda>_. 0" False] by blast
  then show ?thesis using flush_congestion_bounds[OF kcp_inv_New k'] by (auto simp: NewKCP_def)
qed

end
