(* ===== verification/Kcp_Transfer.thy ===== *)
theory Kcp_Transfer
  imports Kcp_Examples Kcp_Transmit
begin

text \<open>
  The properties of one KCP connection's data transfer: what \<open>Send\<close> cuts, \<open>Recv\<close>
  reassembles, \<open>parse_data\<close> orders, acknowledgements remove; the bounds of the timers, and the
  schedule.
\<close>

lemma demo_taken_inv: "kcp_inv demo_taken"
proof -
  have dg: "datagram_ok (unat (k_mtu demo_sent)) (flush_seg demo_sent (snd_buf_list demo_flushed)) demo_datagram"
    using demo_flushed_ok demo_run(1) demo_output by (auto simp: sends_ok_def)
  have "k_mtu demo_sent = k_mtu (NewKCP 7)" unfolding demo_sent_def demo_ready_def by code_simp
  then have len: "length demo_datagram \<le> unat (k_mtu (NewKCP 7))" using dg by (simp add: datagram_ok_def)
  obtain k1 where "sends_ok k1 demo_taken"
    using kcp_Input_ok[where P = "\<lambda>_. True", OF kcp_inv_New[of 7] len, of "\<lambda>_. 0" True False] demo_taken by auto
  then show ?thesis by (simp add: sends_ok_def)
qed

lemma demo_taken_queue: "map (\<lambda>s. (sg_frg s, sg_data s)) (rcv_queue_list demo_taken) = [(0, [1, 2, 3])]"
  unfolding demo_taken_def demo_datagram_def demo_flushed_def demo_sent_def demo_ready_def by code_simp


section \<open>Sending and receiving\<close>

text \<open>
  C32: in message mode \<open>Send\<close> refuses an empty message (-1) and one that takes more than 255
  segments (-2), without effect; it queues any other message as fragments of at most one segment
  size that together are exactly the message.
\<close>

theorem send_message:
  assumes "kcp_inv k" and "k_stream k = 0"
  shows "if msg = [] then kcp_Send msg k = Some (-1, k)
    else if 255 * unat (k_mss k) < length msg then kcp_Send msg k = Some (-2, k)
    else \<exists>q fs. kcp_Send msg k = Some (0, k\<lparr>k_snd_queue := q\<rparr>) \<and> kcp_inv (k\<lparr>k_snd_queue := q\<rparr>)
      \<and> rb_list q = snd_queue_list k @ fs \<and> msg_bytes fs = msg \<and> next_msg fs = fs
      \<and> (\<forall>s \<in> set fs. length (sg_data s) \<le> unat (k_mss k))"
proof -
  let ?mss = "unat (k_mss k)" and ?n = "frag_count (unat (k_mss k)) msg"
  have pos: "0 < ?mss" using cfg_inv_mss_pos[of k] assms(1) by auto
  have "msg_bytes (fragments ?mss ?n msg) = msg" "next_msg (fragments ?mss ?n msg) = fragments ?mss ?n msg"
    if "msg \<noteq> []" "length msg \<le> 255 * ?mss"
  proof -
    have n: "0 < ?n" "length msg \<le> ?n * ?mss" "?n \<le> 256"
      using frag_count_bounds[OF pos, of msg] frag_count_le_iff[OF pos, of msg 255] that by auto
    then show "msg_bytes (fragments ?mss ?n msg) = msg" by (simp add: msg_bytes_fragments)
    show "next_msg (fragments ?mss ?n msg) = fragments ?mss ?n msg"
      using next_msg_fragments[OF refl n(1,3), where rest = "[]"] by simp
  qed
  moreover have "\<forall>s \<in> set (fragments ?mss ?n msg). length (sg_data s) \<le> ?mss"
    by (auto dest: fragments_data_le)
  ultimately show ?thesis
    using kcp_Send_empty[of k] kcp_Send_message[OF assms, of msg] by (auto simp: not_less)
qed

theorem send_message_witness:
  "kcp_Send [] demo_ready = Some (-1, demo_ready)
   \<and> kcp_Send (replicate 400000 1) demo_ready = Some (-2, demo_ready)"
  using send_message[OF demo_ready_inv demo_ready_fields(1), of "[]"]
    send_message[OF demo_ready_inv demo_ready_fields(1), of "replicate 400000 1"]
  by (simp add: demo_ready_fields)

text \<open>
  In stream mode \<open>Send\<close> appends the bytes to what is queued, filling up the last queued
  segment first: the bytes queued afterwards are the bytes queued before followed by the new ones.
\<close>

theorem send_stream:
  assumes "kcp_inv k" and "k_stream k \<noteq> 0" and "0 < length buffer" and "length buffer \<le> 255 * unat (k_mss k)"
  shows "\<exists>q. kcp_Send buffer k = Some (0, k\<lparr>k_snd_queue := q\<rparr>) \<and> kcp_inv (k\<lparr>k_snd_queue := q\<rparr>)
    \<and> msg_bytes (rb_list q) = msg_bytes (snd_queue_list k) @ buffer"
  by (rule kcp_Send_stream[OF assms])

theorem send_stream_witness:
  "\<exists>q. kcp_Send [4, 5] (demo_sent\<lparr>k_stream := 1\<rparr>) = Some (0, demo_sent\<lparr>k_stream := 1, k_snd_queue := q\<rparr>)
     \<and> msg_bytes (rb_list q) = [1, 2, 3, 4, 5]"
proof -
  have inv: "kcp_inv (demo_sent\<lparr>k_stream := 1\<rparr>)" using demo_sent_inv by (simp add: kcp_inv_def)
  have d: "msg_bytes (snd_queue_list demo_sent) = [1, 2, 3]" "k_mss demo_sent = 1376"
    unfolding demo_sent_def demo_ready_def by code_simp+
  show ?thesis using send_stream[OF inv, of "[4, 5]"] d by auto
qed




text \<open>
  C18: cut and reassembly are inverse: a receiver whose queue starts with the fragments that
  \<open>Send\<close> made of a message, as far as fragment counters and data go, reads back exactly that
  message.
\<close>

theorem cut_and_reassemble:
  assumes "kcp_inv k" and "k_stream k = 0" and "kcp_Send msg k = Some (0, k')"
    and "kcp_inv r" and "rcv_queue_list r = ss @ rest"
    and "map sg_frg ss = map sg_frg (drop (length (snd_queue_list k)) (snd_queue_list k'))"
    and "map sg_data ss = map sg_data (drop (length (snd_queue_list k)) (snd_queue_list k'))"
    and "length msg \<le> length buffer"
  shows "\<exists>r'. kcp_Recv buffer r = Some (int (length msg), msg @ drop (length msg) buffer, r') \<and> kcp_inv r'"
proof -
  let ?mss = "unat (k_mss k)" and ?n = "frag_count (unat (k_mss k)) msg"
  have pos: "0 < ?mss" using cfg_inv_mss_pos[of k] assms(1) by auto
  have ne: "msg \<noteq> []" using assms(3) kcp_Send_empty[of k] by auto
  have len: "length msg \<le> 255 * ?mss"
    using kcp_Send_message(1)[OF assms(1,2), of msg] ne assms(3) by fastforce
  obtain q where "k' = k\<lparr>k_snd_queue := q\<rparr>" "rb_list q = snd_queue_list k @ fragments ?mss ?n msg"
    using kcp_Send_message(2)[OF assms(1,2), of msg] ne len assms(3) by auto
  then have fs: "drop (length (snd_queue_list k)) (snd_queue_list k') = fragments ?mss ?n msg" by simp
  have n: "0 < ?n" "?n \<le> 255" "length msg \<le> ?n * ?mss"
    using frag_count_bounds[OF pos, of msg] frag_count_le_iff[OF pos, of msg 255] ne len by auto
  show ?thesis
    using recv_fragments[OF assms(4,5) _ _ n assms(8)] assms(6,7) unfolding fs by blast
qed

theorem cut_and_reassemble_witness: "\<exists>r'. kcp_Recv [0, 0, 0, 0] demo_taken = Some (3, [1, 2, 3, 0], r')"
proof -
  have q: "map (\<lambda>s. (sg_frg s, sg_data s)) (snd_queue_list demo_sent) = [(0, [1, 2, 3])]" "snd_queue_list demo_ready = []"
    unfolding demo_sent_def demo_ready_def by code_simp+
  then obtain a b where ab: "rcv_queue_list demo_taken = [a]" "snd_queue_list demo_sent = [b]"
      "sg_frg a = sg_frg b" "sg_data a = sg_data b" using demo_taken_queue by (auto simp: map_eq_Cons_conv)
  show ?thesis
    using cut_and_reassemble[OF demo_ready_inv demo_ready_fields(1) demo_sent demo_taken_inv, of "[a]" "[]" "[0, 0, 0, 0]"] ab q(2)
    by auto
qed

section \<open>Ordering\<close>

text \<open>
  C19: a data segment of the receive window is taken in once, whatever order segments arrive in:
  what becomes deliverable is appended to the queue, in the order of consecutive sequence numbers;
  nothing is lost or duplicated; and when the queue has room, what stays buffered waits for the next
  number.
\<close>

theorem parse_data_in_order:
  assumes "kcp_inv k" and "length (sg_data seg) \<le> unat (k_mtu k)"
    and "sn_off (k_rcv_nxt k) (sg_sn seg) < unat (k_rcv_wnd k)"
  shows "\<exists>k' ms. kcp_parse_data seg k = Some (False, k') \<and> kcp_inv k'
     \<and> rcv_queue_list k' = rcv_queue_list k @ ms \<and> map sg_sn ms = sn_run (k_rcv_nxt k) (length ms)
     \<and> k_rcv_nxt k' = k_rcv_nxt k + of_nat (length ms)
     \<and> rcv_buf_items k' + mset ms =
         (if sg_sn seg \<in> sg_sn ` set_mset (rcv_buf_items k) then rcv_buf_items k else add_mset seg (rcv_buf_items k))
     \<and> (length (rcv_queue_list k') < unat (k_rcv_wnd k) \<longrightarrow> k_rcv_nxt k' \<notin> sg_sn ` set_mset (rcv_buf_items k'))"
proof -
  have wnd: "unat (k_rcv_wnd k) < 2 ^ 31" and heap: "heap_inv (k_rcv_nxt k) (k_rcv_buf k)"
    using assms(1) by (auto simp: cfg_inv_def rcv_inv_def)
  have "\<not> (itimediff (sg_sn seg) (k_rcv_nxt k + k_rcv_wnd k) \<ge> 0 \<or> itimediff (sg_sn seg) (k_rcv_nxt k) < 0)"
  proof -
    have "sn_off (k_rcv_nxt k) (k_rcv_nxt k + k_rcv_wnd k) = unat (k_rcv_wnd k)" by (simp add: sn_off_def)
    then show ?thesis
      using itimediff_off[of "k_rcv_nxt k" "sg_sn seg" "k_rcv_nxt k + k_rcv_wnd k"]
        itimediff_base[of "k_rcv_nxt k" "sg_sn seg"] wnd assms(3) by linarith
  qed
  from kcp_parse_data_inside[OF assms(1,2) this] obtain k' ms where k':
     "kcp_parse_data seg k = Some (False, k')" "kcp_inv k'" "rcv_queue_list k' = rcv_queue_list k @ ms"
     "(if heap_Has (k_rcv_buf k) (sg_sn seg) then rcv_buf_items k else add_mset seg (rcv_buf_items k))
         = rcv_buf_items k' + mset ms" "k_rcv_nxt k' = k_rcv_nxt k + of_nat (length ms)"
     "length (rcv_queue_list k') < unat (k_rcv_wnd k) \<longrightarrow> k_rcv_nxt k' \<notin> sg_sn ` set_mset (rcv_buf_items k')" by blast
  have "map sg_sn (rcv_queue_list k') = sn_run (k_rcv_nxt k' - of_nat (length (rcv_queue_list k'))) (length (rcv_queue_list k'))"
    using k'(2) by (auto simp: rcv_inv_def)
  then have "drop (length (rcv_queue_list k)) (map sg_sn (rcv_queue_list k'))
      = sn_run (k_rcv_nxt k' - of_nat (length (rcv_queue_list k')) + of_nat (length (rcv_queue_list k))) (length ms)"
    by (simp add: sn_run_drop k'(3))
  then have "map sg_sn ms = sn_run (k_rcv_nxt k) (length ms)" by (simp add: k'(3,5))
  then show ?thesis using k' heap_Has_iff[OF heap] by (intro exI[of _ k'] exI[of _ ms]) auto
qed

theorem parse_data_in_order_witness:
  "\<exists>k' ms. kcp_parse_data (zero_seg\<lparr>sg_sn := 0, sg_data := [8]\<rparr>) (NewKCP 7) = Some (False, k') \<and> rcv_queue_list k' = ms
     \<and> map sg_sn ms = sn_run 0 (length ms)"
proof -
  have new: "rcv_queue_list (NewKCP 7) = []" "k_rcv_nxt (NewKCP 7) = 0" "k_mtu (NewKCP 7) = 1400" "k_rcv_wnd (NewKCP 7) = 32"
    by (simp_all add: NewKCP_def rb_list_New)
  show ?thesis
    using parse_data_in_order[OF kcp_inv_New[of 7], of "zero_seg\<lparr>sg_sn := 0, sg_data := [8]\<rparr>"] by (auto simp: new)
qed

section \<open>Acknowledgements\<close>

text \<open>
  A cumulative acknowledgement of the first \<open>m\<close> segments in flight removes exactly those and
  moves \<open>snd_una\<close> to it.
\<close>

theorem cumulative_ack:
  assumes "kcp_inv k" and "m \<le> length (snd_buf_list k)"
  defines "una \<equiv> k_snd_nxt k - of_nat (length (snd_buf_list k)) + of_nat m"
  shows "fst (kcp_parse_una una k) = int m
    \<and> snd_buf_list (kcp_shrink_buf (snd (kcp_parse_una una k))) = drop m (snd_buf_list k)
    \<and> k_snd_una (kcp_shrink_buf (snd (kcp_parse_una una k))) = una"
  using parse_una_shrink[OF assms(1,2), of una] by (simp add: una_def)

theorem cumulative_ack_witness:
  "snd_buf_list (kcp_shrink_buf (snd (kcp_parse_una 1 demo_flushed))) = []"
proof -
  have f: "length (snd_buf_list demo_flushed) = 1" "k_snd_nxt demo_flushed = 1"
    unfolding demo_flushed_def demo_sent_def demo_ready_def by code_simp+
  have inv: "kcp_inv demo_flushed" using demo_flushed_ok by (simp add: sends_ok_def)
  show ?thesis using cumulative_ack[OF inv, of 1] f by simp
qed

text \<open>
  A selective acknowledgement marks exactly the segment it names and counts one skip for every
  earlier segment in flight that was sent no later than the acknowledged one.
\<close>

theorem selective_ack:
  assumes "kcp_inv k" and "k_snd_una k = k_snd_nxt k - of_nat (length (snd_buf_list k))"
    and "i < length (snd_buf_list k)"
  shows "snd_buf_list (kcp_parse_ack (k_snd_una k + of_nat i) k)
      = (snd_buf_list k)[i := (snd_buf_list k ! i)\<lparr>sg_acked := 1, sg_data := []\<rparr>]
    \<and> snd_buf_list (kcp_parse_fastack (k_snd_una k + of_nat i) ts k)
      = map (\<lambda>s. if itimediff (sg_ts s) ts \<le> 0 then s\<lparr>sg_fastack := sg_fastack s + 1\<rparr> else s) (take i (snd_buf_list k))
        @ drop i (snd_buf_list k)"
proof -
  have "recycleSegment (x\<lparr>sg_acked := 1\<rparr>) = x\<lparr>sg_acked := 1, sg_data := []\<rparr>" for x
    by (simp add: recycleSegment_def)
  then show ?thesis using parse_ack_marks[OF assms] parse_fastack_counts[OF assms, of ts] by simp
qed

theorem selective_ack_witness: "map sg_acked (snd_buf_list (kcp_parse_ack 0 demo_flushed)) = [1]"
proof -
  have f: "length (snd_buf_list demo_flushed) = 1" "k_snd_nxt demo_flushed = 1" "k_snd_una demo_flushed = 0"
    unfolding demo_flushed_def demo_sent_def demo_ready_def by code_simp+
  have inv: "kcp_inv demo_flushed" using demo_flushed_ok by (simp add: sends_ok_def)
  then obtain x where "snd_buf_list demo_flushed = [x]" using f(1) by (cases "snd_buf_list demo_flushed") auto
  then show ?thesis using selective_ack[OF inv, of 0] f by simp
qed

section \<open>Timers\<close>

text \<open>
  With a configured minimum of at most one minute, the retransmission timeout stays between that
  minimum and one minute, and the smoothed round-trip time moves towards the sample without passing it.
\<close>

theorem rto_bounds:
  assumes "k_rx_minrto k \<le> IKCP_RTO_MAX"
  shows "k_rx_minrto k \<le> k_rx_rto (kcp_update_ack rtt k) \<and> k_rx_rto (kcp_update_ack rtt k) \<le> IKCP_RTO_MAX
    \<and> (0 \<le> sint rtt \<and> 0 < sint (k_rx_srtt k) \<longrightarrow>
        min (sint rtt) (sint (k_rx_srtt k)) \<le> sint (k_rx_srtt (kcp_update_ack rtt k))
        \<and> sint (k_rx_srtt (kcp_update_ack rtt k)) \<le> max (sint rtt) (sint (k_rx_srtt k)))"
  using update_ack_rto[OF assms] update_ack_srtt_between by blast

theorem rto_bounds_witness: "100 \<le> k_rx_rto (kcp_update_ack 3 (NewKCP 7)) \<and> k_rx_rto (kcp_update_ack 3 (NewKCP 7)) \<le> 60000"
  using rto_bounds[of "NewKCP 7" 3] by (simp add: NewKCP_def)

text \<open>
  While the peer's window is closed, the probe timer starts at 7 seconds, grows by half
  each time it expires, up to two minutes, and then asks for the window; an open window stops it.
\<close>

theorem probe_backoff:
  assumes "k_probe_wait k = 0 \<or> 7000 \<le> k_probe_wait k \<and> k_probe_wait k \<le> 120000"
  shows "if k_rmt_wnd k \<noteq> 0 then k_probe_wait (flush_probe_wait clk k) = 0
    else if k_probe_wait k = 0 then k_probe_wait (flush_probe_wait clk k) = 7000
    else if itimediff (clk (k_reads k)) (k_ts_probe k) < 0 then k_probe_wait (flush_probe_wait clk k) = k_probe_wait k
    else unat (k_probe_wait (flush_probe_wait clk k)) = min 120000 (unat (k_probe_wait k) + unat (k_probe_wait k) div 2)
      \<and> k_probe (flush_probe_wait clk k) AND IKCP_ASK_SEND \<noteq> 0"
proof -
  let ?w = "k_probe_wait k"
  have "unat (if 120000 < ?w + ?w div 2 then 120000 else ?w + ?w div 2) = min 120000 (unat ?w + unat ?w div 2)"
    if "7000 \<le> ?w" "?w \<le> 120000"
  proof -
    have "unat (?w + ?w div 2) = unat ?w + unat ?w div 2"
      using that by (simp add: word_le_nat_alt unat_word_ariths unat_div)
    then show ?thesis by (simp add: word_less_nat_alt)
  qed
  moreover have "(x OR 1) AND 1 \<noteq> 0" for x :: u32
  proof
    assume "(x OR 1) AND 1 = 0"
    then have "bit ((x OR 1) AND 1) 0 = bit (0 :: u32) 0" by simp
    then show False by (simp add: bit_simps)
  qed
  ultimately show ?thesis
    using assms by (auto simp: flush_probe_wait_def currentMs_def Let_def not_less split: if_splits)
qed

theorem probe_backoff_witness:
  "unat (k_probe_wait (flush_probe_wait (\<lambda>_. 9000) ((NewKCP 7)\<lparr>k_rmt_wnd := 0, k_probe_wait := 100000, k_ts_probe := 8000\<rparr>))) = 120000"
  using probe_backoff[of "(NewKCP 7)\<lparr>k_rmt_wnd := 0, k_probe_wait := 100000, k_ts_probe := 8000\<rparr>" "\<lambda>_. 9000"]
  by (simp add: itimediff_def)

section \<open>Schedule\<close>

text \<open>
  C35: with an interval between 1 and 2^31 - 1 ms, \<open>Update\<close> flushes when a flush is due: at its first
  call, when the clock has reached the time of the next flush (across the clock's wrap-around) and
  when that time is off by more than ten seconds. It flushes the state as it was, with the new
  schedule, so every pending acknowledgement goes out, and the next flush then lies ahead of the
  clock by at least 1 ms and at most one interval. Otherwise it changes nothing, and the next flush
  lies ahead of the clock by ten seconds at most.
\<close>

theorem update_schedule:
  fixes clk :: clock
  assumes "kcp_inv k" and "0 < unat (k_interval k)" and "unat (k_interval k) < 2 ^ 31"
  defines "current \<equiv> clk (k_reads k)"
  shows "\<exists>k'. kcp_Update clk k = Some k' \<and> kcp_inv k' \<and> 0 < itimediff (k_ts_flush k') current
    \<and> (if k_updated k = 0 \<or> itimediff current (k_ts_flush k) \<ge> 0 \<or> itimediff current (k_ts_flush k) < - 10000
       then itimediff (k_ts_flush k') current \<le> int (unat (k_interval k)) \<and> k_acklist k' = []
         \<and> (\<exists>t. kcp_flush clk False (k\<lparr>k_reads := k_reads k + 1, k_updated := (if k_updated k = 0 then 1 else k_updated k),
               k_ts_flush := k_ts_flush k'\<rparr>) = Some (t, k'))
       else k' = k\<lparr>k_reads := k_reads k + 1\<rparr> \<and> itimediff (k_ts_flush k') current \<le> 10000)"
proof (cases "update_due current k")
  case False
  then have "k_updated k \<noteq> 0" "itimediff current (k_ts_flush k) < 0" "- 10000 \<le> itimediff current (k_ts_flush k)"
    by (auto simp: update_due_def)
  moreover from this have "itimediff (k_ts_flush k) current = - itimediff current (k_ts_flush k)"
    by (intro itimediff_minus) simp
  moreover have "update_start clk k = k\<lparr>k_reads := k_reads k + 1\<rparr>"
    using False \<open>k_updated k \<noteq> 0\<close> by (simp add: update_start_def current_def Let_def)
  ultimately show ?thesis
    using False assms(1) unfolding update_due_def[symmetric] by (simp add: kcp_Update_eq current_def kcp_inv_def)
next
  case True
  define ts where "ts = (if k_updated k = 0 then current else k_ts_flush k)"
  have due: "0 \<le> itimediff current ts \<or> itimediff current ts < - 10000"
    using True by (auto simp: ts_def update_due_def)
  have st: "k_ts_flush (update_start clk k) = next_flush current ts (k_interval k)"
    using True by (simp add: update_start_def Let_def current_def ts_def)
  have inv: "kcp_inv (update_start clk k)" using assms(1) by (simp add: update_start_def Let_def kcp_inv_def)
  obtain t k' where k': "kcp_flush clk False (update_start clk k) = Some (t, k')" "sends_ok (update_start clk k) k'"
      "k_acklist k' = []"
    using kcp_flush_sends[OF inv, of clk False] by blast
  have nf: "k_ts_flush k' = next_flush current ts (k_interval k)" "kcp_inv k'"
    using kcp_flush_fields(8)[OF inv k'(1)] st k'(2) by (simp_all add: sends_ok_def)
  then have "update_start clk k = k\<lparr>k_reads := k_reads k + 1, k_updated := (if k_updated k = 0 then 1 else k_updated k),
      k_ts_flush := k_ts_flush k'\<rparr>"
    using True by (simp add: update_start_def Let_def current_def ts_def)
  then have "\<exists>t. kcp_flush clk False (k\<lparr>k_reads := k_reads k + 1, k_updated := (if k_updated k = 0 then 1 else k_updated k),
      k_ts_flush := k_ts_flush k'\<rparr>) = Some (t, k')" using k'(1) by metis
  then show ?thesis
    using True k'(1,3) nf next_flush_ahead[OF due assms(2,3)] unfolding update_due_def[symmetric]
    by (simp add: kcp_Update_eq current_def)
qed

theorem update_schedule_witness:
  "\<exists>k'. kcp_Update (\<lambda>_. 4294967290) (NewKCP 7) = Some k' \<and> 0 < itimediff (k_ts_flush k') 4294967290"
proof -
  have "k_interval (NewKCP 7) = 100" by (simp add: NewKCP_def)
  then show ?thesis using update_schedule[OF kcp_inv_New[of 7], of "\<lambda>_. 4294967290"] by auto
qed

text \<open>
  C33: \<open>Check\<close> names the earliest of the next flush, the nearest retransmission timer and one
  interval from now, and says now when a flush or a timer is due.
\<close>

theorem check_earliest:
  fixes clk :: clock
  assumes "kcp_inv k" and "unat (k_interval k) < 2 ^ 31"
  defines "current \<equiv> clk (k_reads k)"
  shows "fst (kcp_Check clk k) =
     (if update_due current k \<or> 10000 \<le> itimediff current (k_ts_flush k)
         \<or> (\<exists>s \<in> set (snd_buf_list k). itimediff (sg_resendts s) current \<le> 0) then current
      else current + word_of_int (Min ({int (unat (k_interval k)), itimediff (k_ts_flush k) current}
             \<union> (\<lambda>s. itimediff (sg_resendts s) current) ` set (snd_buf_list k))))"
  unfolding current_def by (rule kcp_Check_correct[OF assms(1,2) refl])

theorem check_earliest_witness: "fst (kcp_Check (\<lambda>_. 20) ((NewKCP 7)\<lparr>k_updated := 1, k_ts_flush := 60\<rparr>)) = 60"
proof -
  let ?k = "(NewKCP 7)\<lparr>k_updated := 1, k_ts_flush := 60\<rparr>"
  have inv: "kcp_inv ?k" using kcp_inv_New[of 7] by (simp add: kcp_inv_def)
  have d: "itimediff 20 60 = - 40" "itimediff 60 20 = 40" by (simp_all add: itimediff_def)
  have f: "k_interval ?k = 100" "snd_buf_list (NewKCP 7) = []" by (simp_all add: NewKCP_def rb_list_New)
  show ?thesis using check_earliest[OF inv, of "\<lambda>_. 20"] by (simp add: f d update_due_def)
qed

section \<open>Configuration\<close>

text \<open>
  C34: what the configuration calls keep. \<open>SetMtu\<close> refuses less than 50 bytes without effect; before
  anything is queued or in flight, and below 2 to the 32, any other value keeps the invariants and
  leaves 24 bytes of it for the segment header. \<open>WndSize\<close> keeps them before anything is in flight or
  received, for windows below 2 to the 31, and sets those windows that are positive. \<open>NoDelay\<close> keeps
  them at any time, and forces an interval that is not negative into 10 to 5000 milliseconds.
\<close>

theorem configure_keeps_inv:
  assumes "kcp_inv k"
  shows "(mtu < 50 \<longrightarrow> kcp_SetMtu mtu k = (-1, k))
    \<and> (50 \<le> mtu \<and> mtu < 2 ^ 32 \<and> snd_queue_list k = [] \<and> snd_buf_list k = []
        \<longrightarrow> kcp_inv (snd (kcp_SetMtu mtu k)) \<and> int (unat (k_mss (snd (kcp_SetMtu mtu k)))) = mtu - 24)
    \<and> kcp_inv (snd (kcp_NoDelay nodelay interval resend nc k))
    \<and> (0 \<le> interval \<longrightarrow> 10 \<le> unat (k_interval (snd (kcp_NoDelay nodelay interval resend nc k)))
          \<and> unat (k_interval (snd (kcp_NoDelay nodelay interval resend nc k))) \<le> 5000)
    \<and> (sndwnd < 2 ^ 31 \<and> rcvwnd < 2 ^ 31 \<and> k_snd_una k = k_snd_nxt k \<and> rcv_queue_list k = [] \<and> rcv_buf_items k = {#}
        \<longrightarrow> kcp_inv (snd (kcp_WndSize sndwnd rcvwnd k))
          \<and> int (unat (k_snd_wnd (snd (kcp_WndSize sndwnd rcvwnd k)))) = (if 0 < sndwnd then sndwnd else int (unat (k_snd_wnd k)))
          \<and> int (unat (k_rcv_wnd (snd (kcp_WndSize sndwnd rcvwnd k)))) = (if 0 < rcvwnd then rcvwnd else int (unat (k_rcv_wnd k))))"
proof -
  have wnd: "kcp_inv (snd (kcp_WndSize sndwnd rcvwnd k))
          \<and> int (unat (k_snd_wnd (snd (kcp_WndSize sndwnd rcvwnd k)))) = (if 0 < sndwnd then sndwnd else int (unat (k_snd_wnd k)))
          \<and> int (unat (k_rcv_wnd (snd (kcp_WndSize sndwnd rcvwnd k)))) = (if 0 < rcvwnd then rcvwnd else int (unat (k_rcv_wnd k)))"
    if "sndwnd < 2 ^ 31" "rcvwnd < 2 ^ 31" "k_snd_una k = k_snd_nxt k" "rcv_queue_list k = []" "rcv_buf_items k = {#}"
  proof -
    have w: "int (unat (word_of_int w :: u32)) = w" if "0 < w" "w < 2 ^ 31" for w :: int
      using that unat_word_of_int32[of w] by simp
    show ?thesis
      using kcp_WndSize_inv[OF assms that] that(1,2) w[of sndwnd] w[of rcvwnd]
      by (simp add: kcp_WndSize_def Let_def)
  qed
  have "int (unat (k_mss (snd (kcp_SetMtu mtu k)))) = mtu - 24"
    if "50 \<le> mtu" "mtu < 2 ^ 32" "kcp_inv (snd (kcp_SetMtu mtu k))"
  proof -
    have "unat (k_mss (snd (kcp_SetMtu mtu k))) = nat mtu - 24"
      using cfg_inv_mss[of "snd (kcp_SetMtu mtu k)"] that unat_word_of_int32[of mtu]
      by (auto simp: kcp_SetMtu_def)
    then show ?thesis using that(1) by simp
  qed
  moreover have "10 \<le> unat (k_interval (snd (kcp_NoDelay nodelay interval resend nc k)))
          \<and> unat (k_interval (snd (kcp_NoDelay nodelay interval resend nc k))) \<le> 5000" if "0 \<le> interval"
  proof -
    have "k_interval (snd (kcp_NoDelay nodelay interval resend nc k)) = word_of_int (max 10 (min 5000 interval))"
      using that by (simp add: kcp_NoDelay_def Let_def)
    then show ?thesis using unat_word_of_int32[of "max 10 (min 5000 interval)"] by (simp add: le_nat_iff nat_le_iff)
  qed
  ultimately show ?thesis
    using kcp_SetMtu_error[of mtu k] kcp_SetMtu_inv[OF assms, of mtu] kcp_NoDelay_inv[OF assms] wnd by blast
qed

theorem configure_keeps_inv_witness:
  "kcp_inv (snd (kcp_SetMtu 1395 (NewKCP 7))) \<and> unat (k_mss (snd (kcp_SetMtu 1395 (NewKCP 7)))) = 1371"
proof -
  have "snd_queue_list (NewKCP 7) = []" "snd_buf_list (NewKCP 7) = []" by (simp_all add: NewKCP_def rb_list_New)
  then have "kcp_inv (snd (kcp_SetMtu 1395 (NewKCP 7))) \<and> int (unat (k_mss (snd (kcp_SetMtu 1395 (NewKCP 7))))) = 1371"
    using configure_keeps_inv[OF kcp_inv_New[of 7], of 1395 0 0 0 0] by simp
  then show ?thesis by linarith
qed

text \<open>
  \<open>PeekSize\<close> adds one to the fragment counter on a byte, so a counter of 255, which no
  sender produces, passes for 0: a message of 256 fragments is reported readable when only some of
  them are there.
\<close>

theorem peek_counter_wraps:
  assumes "kcp_inv k" and "rcv_queue_list k = s # ss" and "sg_frg s = 255"
  shows "kcp_PeekSize k = int (length (msg_bytes (next_msg (s # ss))))"
  using kcp_PeekSize_correct[of k] assms by (simp add: kcp_inv_def rcv_inv_def)

theorem peek_counter_wraps_witness:
  "\<exists>k'. kcp_parse_data (zero_seg\<lparr>sg_frg := 255, sg_data := [8]\<rparr>) (NewKCP 7) = Some (False, k') \<and> kcp_PeekSize k' = 1"
proof -
  let ?s = "zero_seg\<lparr>sg_frg := 255, sg_data := [8]\<rparr>"
  have new: "rcv_queue_list (NewKCP 7) = []" by (simp add: NewKCP_def rb_list_New)
  obtain r k' where k': "kcp_parse_data ?s (NewKCP 7) = Some (r, k')" "kcp_inv k'"
    using parse_data_ok[OF kcp_inv_New[of 7], of ?s "\<lambda>_. True"] by (auto simp: NewKCP_def input_ok_def)
  have "map_option (\<lambda>(r, k). (r, map (\<lambda>s. (sg_frg s, sg_data s)) (rcv_queue_list k))) (kcp_parse_data ?s (NewKCP 7))
      = Some (False, [(255, [8])])" by code_simp
  then obtain x where "r = False" "rcv_queue_list k' = [x]" "sg_frg x = 255" "sg_data x = [8]"
    using k'(1) by (auto simp: map_eq_Cons_conv)
  then show ?thesis using peek_counter_wraps[OF k'(2), of x "[]"] k'(1) by simp
qed

end
