(* ===== verification/Kcp_Session.thy ===== *)
theory Kcp_Session
  imports Kcp_Update Kcp_Send "HOL-Library.Sublist"
begin

text \<open>
  Two connections and the network between them. Each end sends messages, receives, is fed
  datagrams, is updated or flushed, at any time and with any clock. The network may lose,
  repeat, delay and reorder: an end may be fed any datagram its peer ever handed to its output,
  any number of times. The theorem is the promise of the protocol: what a user receives is, at
  every moment, a prefix of what the other user sent, message by message.

  The bound: sequence numbers are 32-bit, so a duplicate that survives 2 to the 32 segments
  cannot be told from a new segment. The promise is for sessions shorter than that.
\<close>

section \<open>Logs\<close>

text \<open>What of a segment belongs to the user: the fragment counter and the data.\<close>

definition pl :: "segment \<Rightarrow> byte \<times> bytes" where
  "pl s = (sg_frg s, sg_data s)"

text \<open>The segments all the messages of a user are cut into; the position is the sequence number.\<close>

definition msg_log :: "nat \<Rightarrow> bytes list \<Rightarrow> (byte \<times> bytes) list" where
  "msg_log mss msgs = concat (map (\<lambda>m. map pl (fragments mss (frag_count mss m) m)) msgs)"

definition seg_in :: "(byte \<times> bytes) list \<Rightarrow> segment \<Rightarrow> bool" where
  "seg_in T x \<longleftrightarrow> (\<exists>i < length T. sg_sn x = of_nat i \<and> pl x = T ! i)"

definition snd_log :: "(byte \<times> bytes) list \<Rightarrow> KCP \<Rightarrow> bool" where
  "snd_log T k \<longleftrightarrow> (\<exists>n \<le> length T. k_snd_nxt k = of_nat n \<and> map pl (snd_queue_list k) = drop n T)
     \<and> (\<forall>x \<in> set (snd_buf_list k). sg_acked x \<noteq> 1 \<longrightarrow> seg_in T x)"

definition push_in :: "(byte \<times> bytes) list \<Rightarrow> segment \<Rightarrow> bool" where
  "push_in T s \<longleftrightarrow> (sg_cmd s = IKCP_CMD_PUSH \<longrightarrow> seg_in T s)"

definition out_log :: "(byte \<times> bytes) list \<Rightarrow> KCP \<Rightarrow> bool" where
  "out_log T k \<longleftrightarrow> (\<forall>d \<in> set (k_output k). datagram_ok (unat (k_mtu k)) (push_in T) d)"

definition rcv_log :: "(byte \<times> bytes) list \<Rightarrow> nat \<Rightarrow> u32 \<Rightarrow> segment list \<Rightarrow> segment multiset \<Rightarrow> bool" where
  "rcv_log U c nxt Q B \<longleftrightarrow> (\<forall>x. x \<in> set Q \<or> x \<in># B \<longrightarrow> seg_in U x) \<and> c + length Q \<le> length U
     \<and> nxt = of_nat (c + length Q) \<and> map pl Q = take (length Q) (drop c U)"

lemma msg_log_append [simp]: "msg_log mss (xs @ ys) = msg_log mss xs @ msg_log mss ys"
  by (simp add: msg_log_def)

lemma msg_log_simps [simp]: "msg_log mss [] = []"
  "msg_log mss (m # ms) = map pl (fragments mss (frag_count mss m) m) @ msg_log mss ms"
  by (simp_all add: msg_log_def)

lemma seg_in_append: "seg_in T x \<Longrightarrow> seg_in (T @ V) x"
  by (auto simp: seg_in_def nth_append)

lemma seg_in_same_payload: "same_payload x y \<Longrightarrow> seg_in T x \<Longrightarrow> seg_in T y"
  by (simp add: seg_in_def same_payload_def pl_def)

lemma seg_in_on_wire [simp]: "seg_in T (on_wire s) = seg_in T s"
  by (simp add: seg_in_def pl_def)

lemma out_log_append: "out_log T k \<Longrightarrow> out_log (T @ V) k"
  unfolding out_log_def
  using datagram_ok_mono[of "unat (k_mtu k)" "push_in T" _ "push_in (T @ V)"] seg_in_append
  by (auto simp: push_in_def)

text \<open>
  Consecutive segments that are all in the log are the log's next entries. This is where the
  bound on the session is used.
\<close>

lemma seg_in_run:
  assumes "length U < 2 ^ 32" and "p \<le> length U" and "map sg_sn ms = sn_run (of_nat p) (length ms)"
    and "\<forall>x \<in> set ms. seg_in U x"
  shows "p + length ms \<le> length U \<and> map pl ms = take (length ms) (drop p U)"
  using assms(2-)
proof (induction ms arbitrary: p)
  case Nil
  then show ?case by simp
next
  case (Cons x ms)
  have sn: "sg_sn x = of_nat p" "map sg_sn ms = sn_run (of_nat (p + 1)) (length ms)"
    using Cons.prems(2) by (simp_all add: add.commute)
  obtain i where i: "i < length U" "sg_sn x = of_nat i" "pl x = U ! i"
    using Cons.prems(3) by (auto simp: seg_in_def)
  have "(of_nat i :: u32) = of_nat p" using sn(1) i(2) by simp
  then have "i = p"
    using i(1) Cons.prems(1) assms(1) by (simp add: of_nat_inverse word_of_nat_eq_iff take_bit_nat_eq_self)
  then have p: "p < length U" "pl x = U ! p" using i by simp_all
  have "p + 1 + length ms \<le> length U \<and> map pl ms = take (length ms) (drop (p + 1) U)"
    using Cons.IH[OF _ sn(2)] p(1) Cons.prems(3) by simp
  then show ?case using p by (simp add: Cons_nth_drop_Suc[symmetric])
qed

lemma rcv_log_grow:
  assumes "length U < 2 ^ 32" and log: "rcv_log U c nxt Q B"
    and sns: "map sg_sn (Q @ ms) = sn_run (nxt + of_nat (length ms) - of_nat (length (Q @ ms))) (length (Q @ ms))"
    and new: "\<forall>x. x \<in> set ms \<or> x \<in># B' \<longrightarrow> x \<in># B \<or> seg_in U x"
  shows "rcv_log U c (nxt + of_nat (length ms)) (Q @ ms) B'"
proof -
  have q: "c + length Q \<le> length U" "nxt = of_nat (c + length Q)" "map pl Q = take (length Q) (drop c U)"
    and old: "\<forall>x. x \<in> set Q \<or> x \<in># B \<longrightarrow> seg_in U x"
    using log by (simp_all add: rcv_log_def)
  have base: "nxt + of_nat (length ms) - of_nat (length (Q @ ms)) = of_nat c" by (simp add: q(2))
  have "map sg_sn ms = drop (length Q) (map sg_sn (Q @ ms))" by simp
  also have "\<dots> = sn_run (of_nat c + of_nat (length Q)) (length ms)"
    unfolding sns base by (simp add: sn_run_drop)
  finally have run: "map sg_sn ms = sn_run (of_nat (c + length Q)) (length ms)" by simp
  have all: "\<forall>x. x \<in> set ms \<or> x \<in># B' \<longrightarrow> seg_in U x" using new old by blast
  have "c + length Q + length ms \<le> length U \<and> map pl ms = take (length ms) (drop (c + length Q) U)"
    using seg_in_run[OF assms(1) q(1) run] all by blast
  then show ?thesis
    using q old all by (auto simp: rcv_log_def take_add add.commute)
qed

section \<open>The sender's log\<close>

text \<open>Flushing moves log entries into flight under their positions and sends only such segments.\<close>

lemma seg_in_stamp:
  assumes "map pl (take m q) = take m (drop n T)" and "n + m \<le> length T" and "m \<le> length q"
    and "y \<in> set (map2 (stamp c) (take m q) (sn_run (of_nat n) m))"
  shows "seg_in T y"
proof -
  obtain j where j: "j < m" "y = stamp c (take m q ! j) (sn_run (of_nat n) m ! j)"
    using assms(3,4) by (auto simp: set_zip)
  have "pl (take m q ! j) = map pl (take m q) ! j" using j(1) assms(3) by simp
  also have "\<dots> = T ! (n + j)" unfolding assms(1) using j(1) assms(2) by simp
  finally have "pl y = T ! (n + j)" using j(2) by (simp add: stamp_def pl_def)
  moreover have "sg_sn y = of_nat (n + j)" using j by (simp add: stamp_def nth_sn_run)
  ultimately show ?thesis using j(1) assms(2) unfolding seg_in_def by (intro exI[of _ "n + j"]) simp
qed

lemma snd_log_sends:
  assumes log: "snd_log T k" and out: "out_log T k" and step: "sends_ok k k'"
  shows "snd_log T k'" and "out_log T k'"
proof -
  obtain n where n: "n \<le> length T" "k_snd_nxt k = of_nat n" "map pl (snd_queue_list k) = drop n T"
    and fl: "\<forall>x \<in> set (snd_buf_list k). sg_acked x \<noteq> 1 \<longrightarrow> seg_in T x"
    using log unfolding snd_log_def by blast
  obtain m ds where m: "m \<le> length (snd_queue_list k)" "snd_queue_list k' = drop m (snd_queue_list k)"
      "k_snd_nxt k' = k_snd_nxt k + of_nat m"
      "list_all2 same_payload
              (snd_buf_list k @ map2 (stamp (k_conv k)) (take m (snd_queue_list k)) (sn_run (k_snd_nxt k) m))
              (snd_buf_list k')"
      "k_output k' = k_output k @ ds"
      "\<forall>d \<in> set ds. datagram_ok (unat (k_mtu k)) (flush_seg k (snd_buf_list k')) d"
    and mtu: "k_mtu k' = k_mtu k"
    using step unfolding sends_ok_def by blast
  have len: "length (snd_queue_list k) = length T - n" using arg_cong[OF n(3), of length] by simp
  have tk: "map pl (take m (snd_queue_list k)) = take m (drop n T)" using n(3) by (metis take_map)
  have nm: "n + m \<le> length T" using m(1) len n(1) by linarith
  have fl': "seg_in T y" if y: "y \<in> set (snd_buf_list k')" "sg_acked y \<noteq> 1" for y
  proof -
    obtain x where x: "x \<in> set (snd_buf_list k @ map2 (stamp (k_conv k)) (take m (snd_queue_list k)) (sn_run (k_snd_nxt k) m))"
      "same_payload x y" using list_all2_right[OF m(4) y(1)] by blast
    have "seg_in T x"
    proof (cases "x \<in> set (snd_buf_list k)")
      case True
      then show ?thesis using fl x(2) y(2) by (simp add: same_payload_def)
    next
      case False
      then have "x \<in> set (map2 (stamp (k_conv k)) (take m (snd_queue_list k)) (sn_run (of_nat n) m))"
        using x(1) n(2) by (simp del: set_map)
      then show ?thesis by (rule seg_in_stamp[OF tk nm m(1)])
    qed
    then show ?thesis using x(2) seg_in_same_payload by blast
  qed
  have "map pl (snd_queue_list k') = drop (n + m) T"
    using m(2) n(3) by (simp add: drop_map[symmetric] add.commute)
  moreover have "k_snd_nxt k' = of_nat (n + m)" using m(3) n(2) by simp
  ultimately show "snd_log T k'" unfolding snd_log_def using nm fl' by blast
  have "flush_seg k (snd_buf_list k') s \<Longrightarrow> push_in T s" for s
    using fl' seg_in_same_payload by (auto simp: flush_seg_def push_in_def)
  then have "\<forall>d \<in> set ds. datagram_ok (unat (k_mtu k)) (push_in T) d"
    using m(6) datagram_ok_mono by blast
  then show "out_log T k'" using out m(5) mtu by (auto simp: out_log_def)
qed

text \<open>Taking in acknowledgements only removes segments from flight.\<close>

lemma snd_log_input:
  assumes "snd_log T k" and "input_ok P k k'"
  shows "snd_log T k'"
proof -
  have fr: "snd_queue_list k' = snd_queue_list k" "k_snd_nxt k' = k_snd_nxt k"
    and fl: "flight_sub (snd_buf_list k) (snd_buf_list k')"
    using assms(2) by (simp_all add: input_ok_def input_frame_def)
  have "seg_in T y" if "y \<in> set (snd_buf_list k')" "sg_acked y \<noteq> 1" for y
    using fl that assms(1) seg_in_same_payload unfolding flight_sub_def snd_log_def by blast
  then show ?thesis using assms(1) unfolding snd_log_def fr by blast
qed

lemma out_log_input: "out_log T k \<Longrightarrow> input_ok P k k' \<Longrightarrow> out_log T k'"
  by (simp add: out_log_def input_ok_def input_frame_def)

section \<open>The receiver's log\<close>

lemma rcv_run:
  "kcp_inv k \<Longrightarrow> map sg_sn (rcv_queue_list k)
     = sn_run (k_rcv_nxt k - of_nat (length (rcv_queue_list k))) (length (rcv_queue_list k))"
  by (auto simp: rcv_inv_def)

lemma rcv_log_input:
  assumes "length U < 2 ^ 32" and log: "rcv_log U c (k_rcv_nxt k) (rcv_queue_list k) (rcv_buf_items k)"
    and step: "input_ok (seg_in U) k k'"
  shows "rcv_log U c (k_rcv_nxt k') (rcv_queue_list k') (rcv_buf_items k')"
proof -
  obtain ms where ms: "rcv_queue_list k' = rcv_queue_list k @ ms" "k_rcv_nxt k' = k_rcv_nxt k + of_nat (length ms)"
      "\<forall>x. x \<in> set ms \<or> x \<in># rcv_buf_items k' \<longrightarrow> x \<in># rcv_buf_items k \<or> seg_in U x"
    and inv: "kcp_inv k'" using step unfolding input_ok_def rcv_grows_def by blast
  show ?thesis
    using rcv_log_grow[OF assms(1) log _ ms(3)] rcv_run[OF inv] unfolding ms(1,2) by blast
qed

lemma rcv_log_consume:
  assumes "rcv_log U c nxt Q B" and "l \<le> length Q"
  shows "rcv_log U (c + l) nxt (drop l Q) B"
  using assms unfolding rcv_log_def
  by (auto simp: drop_map[symmetric] drop_take add.commute dest: in_set_dropD)

text \<open>A readable queue starts with all the fragments of the next message.\<close>

definition msg_valid :: "nat \<Rightarrow> bytes \<Rightarrow> bool" where
  "msg_valid mss m \<longleftrightarrow> 0 < length m \<and> length m \<le> 255 * mss"

lemma next_msg_whole:
  assumes log: "map pl Q = take (length Q) (map pl (fragments mss n m) @ T)"
    and n: "0 < n" "n \<le> 255" "n \<le> length Q" and len: "length m \<le> n * mss"
  shows "length (next_msg Q) = n" and "msg_bytes (next_msg Q) = m"
proof -
  let ?ss = "take n Q"
  have "map pl ?ss = take n (map pl Q)" by (simp add: take_map)
  also have "\<dots> = take n (take (length Q) (map pl (fragments mss n m) @ T))" using log by simp
  also have "\<dots> = map pl (fragments mss n m)" using n(3) by (simp add: min_absorb1)
  finally have pls: "map pl ?ss = map pl (fragments mss n m)" .
  have "map fst (map pl ?ss) = map fst (map pl (fragments mss n m))"
    "map snd (map pl ?ss) = map snd (map pl (fragments mss n m))" using pls by simp_all
  then have frg: "map sg_frg ?ss = map sg_frg (fragments mss n m)"
    and data: "map sg_data ?ss = map sg_data (fragments mss n m)"
    by (simp_all add: pl_def comp_def)
  have nm: "next_msg Q = ?ss"
    using next_msg_fragments[OF frg n(1), of "drop n Q"] n(2) by simp
  show "length (next_msg Q) = n" using nm n(3) by simp
  have "msg_bytes ?ss = msg_bytes (fragments mss n m)" using data by (simp add: msg_bytes_def)
  then show "msg_bytes (next_msg Q) = m" using nm len by (simp add: msg_bytes_fragments)
qed

lemma next_message:
  assumes inv: "kcp_inv k" and readable: "0 \<le> kcp_PeekSize k" and mss: "0 < mss"
    and sent: "\<forall>m \<in> set (got @ rs). msg_valid mss m"
    and log: "rcv_log (msg_log mss (got @ rs)) (length (msg_log mss got)) nxt (rcv_queue_list k) B"
  shows "\<exists>m rest. rs = m # rest \<and> msg_bytes (next_msg (rcv_queue_list k)) = m
    \<and> length (next_msg (rcv_queue_list k)) = frag_count mss m"
proof -
  let ?Q = "rcv_queue_list k"
  have rb: "rb_inv (k_rcv_queue k)" using inv by (auto simp: rcv_inv_def)
  note peek = kcp_PeekSize_correct[OF rb]
  obtain s ss where Q: "?Q = s # ss" using peek readable by (cases ?Q) auto
  have pls: "map pl ?Q = take (length ?Q) (msg_log mss rs)" using log by (simp add: rcv_log_def)
  obtain m rest where rs: "rs = m # rest" using pls Q by (cases rs) auto
  let ?n = "frag_count mss m"
  have valid: "0 < length m" "length m \<le> 255 * mss" using sent rs by (simp_all add: msg_valid_def)
  have n: "0 < ?n" "?n \<le> 255" "length m \<le> ?n * mss"
    using frag_count_bounds(1,2)[OF mss valid(1)] frag_count_le_iff[OF mss valid(1), of 255] valid(2) by auto
  obtain n' where n': "?n = Suc n'" using n(1) gr0_implies_Suc by blast
  have "pl s = pl (hd (fragments mss ?n m))" using pls Q rs n' by simp
  then have frg: "sg_frg s = of_nat n'" by (simp add: pl_def n')
  have "uint (sg_frg s + 1) = int ?n" using frg n(2) n' by (simp add: uint_nat unat_word_ariths unat_of_nat)
  moreover have "sg_frg s = 0 \<Longrightarrow> n' = 0"
    using frg n(2) n' nat_dvd_not_less[of n' 256] by (auto simp: word_of_nat_eq_0_iff)
  ultimately have le: "?n \<le> length ?Q"
    using peek readable Q n' by (cases "sg_frg s = 0") (auto split: if_splits)
  have pls': "map pl ?Q = take (length ?Q) (map pl (fragments mss ?n m) @ msg_log mss rest)"
    using pls rs by simp
  show ?thesis
    using next_msg_whole[OF pls' n(1,2) le n(3)] rs by blast
qed

section \<open>Two ends\<close>

record endpoint =
  e_k :: KCP
  e_sent :: "bytes list"
  e_got :: "bytes list"

text \<open>
  One step of an end whose peer has put the datagrams \<open>net\<close> on the wire: the user sends a message
  (\<open>Send\<close> may refuse it), receives into a buffer, a datagram arrives, or the connection is
  updated, flushed or reconfigured.
\<close>

inductive ep_step :: "bytes set \<Rightarrow> endpoint \<Rightarrow> endpoint \<Rightarrow> bool" for net where
  ep_send: "kcp_Send msg (e_k e) = Some (code, k) \<Longrightarrow>
     ep_step net e (e\<lparr>e_k := k, e_sent := (if code = 0 then e_sent e @ [msg] else e_sent e)\<rparr>)"
| ep_recv: "kcp_Recv buf (e_k e) = Some (n, buf', k) \<Longrightarrow>
     ep_step net e (e\<lparr>e_k := k, e_got := (if n \<ge> 0 then e_got e @ [take (nat n) buf'] else e_got e)\<rparr>)"
| ep_input: "d \<in> net \<Longrightarrow> kcp_Input clk d regular ackNoDelay (e_k e) = Some (code, k) \<Longrightarrow>
     ep_step net e (e\<lparr>e_k := k\<rparr>)"
| ep_update: "kcp_Update clk (e_k e) = Some k \<Longrightarrow> ep_step net e (e\<lparr>e_k := k\<rparr>)"
| ep_flush: "kcp_flush clk ackOnly (e_k e) = Some (t, k) \<Longrightarrow> ep_step net e (e\<lparr>e_k := k\<rparr>)"
| ep_nodelay: "ep_step net e (e\<lparr>e_k := snd (kcp_NoDelay nodelay interval resend nc (e_k e))\<rparr>)"

text \<open>A session: either end takes a step; the datagrams on the wire are all ever handed to the output.\<close>

inductive session :: "endpoint \<times> endpoint \<Rightarrow> endpoint \<times> endpoint \<Rightarrow> bool" for start where
  session_start: "session start start"
| session_left: "session start (a, b) \<Longrightarrow> ep_step (set (k_output (e_k b))) a a' \<Longrightarrow> session start (a', b)"
| session_right: "session start (a, b) \<Longrightarrow> ep_step (set (k_output (e_k a))) b b' \<Longrightarrow> session start (a, b')"

text \<open>The log of an end, and when it is short enough for 32-bit sequence numbers.\<close>

definition e_log :: "endpoint \<Rightarrow> (byte \<times> bytes) list" where
  "e_log e = msg_log (unat (k_mss (e_k e))) (e_sent e)"

definition ep_ok :: "endpoint \<Rightarrow> bool" where
  "ep_ok e \<longleftrightarrow> kcp_inv (e_k e) \<and> k_stream (e_k e) = 0
     \<and> (\<forall>m \<in> set (e_sent e). msg_valid (unat (k_mss (e_k e))) m)
     \<and> snd_log (e_log e) (e_k e) \<and> out_log (e_log e) (e_k e)"

definition delivers :: "endpoint \<Rightarrow> endpoint \<Rightarrow> bool" where
  "delivers p e \<longleftrightarrow> prefix (e_got e) (e_sent p)
     \<and> rcv_log (e_log p) (length (msg_log (unat (k_mss (e_k p))) (e_got e)))
         (k_rcv_nxt (e_k e)) (rcv_queue_list (e_k e)) (rcv_buf_items (e_k e))"

definition session_ok :: "endpoint \<Rightarrow> endpoint \<Rightarrow> bool" where
  "session_ok a b \<longleftrightarrow> ep_ok a \<and> ep_ok b \<and> delivers a b \<and> delivers b a \<and> k_mtu (e_k a) = k_mtu (e_k b)"

section \<open>Every step keeps the session\<close>

lemma session_ok_sym: "session_ok a b \<Longrightarrow> session_ok b a"
  by (simp add: session_ok_def)

text \<open>A change of the connection that keeps the invariants and what the peer relies on.\<close>

lemma session_ok_conn:
  assumes ok: "session_ok e p" and inv: "kcp_inv k'"
    and same: "k_mss k' = k_mss (e_k e)" "k_mtu k' = k_mtu (e_k e)" "k_stream k' = k_stream (e_k e)"
    and snd: "snd_log (e_log e) k'" and out: "out_log (e_log e) k'"
    and rcv: "rcv_log (e_log p) (length (msg_log (unat (k_mss (e_k p))) (e_got e)))
         (k_rcv_nxt k') (rcv_queue_list k') (rcv_buf_items k')"
  shows "session_ok (e\<lparr>e_k := k'\<rparr>) p"
proof -
  have log: "e_log (e\<lparr>e_k := k'\<rparr>) = e_log e" by (simp add: e_log_def same)
  show ?thesis
    using ok inv same snd out rcv unfolding session_ok_def ep_ok_def delivers_def log by simp
qed

lemma session_sends:
  assumes ok: "session_ok e p" and step: "sends_ok (e_k e) k'"
  shows "session_ok (e\<lparr>e_k := k'\<rparr>) p"
proof (rule session_ok_conn[OF ok])
  have logs: "snd_log (e_log e) (e_k e)" "out_log (e_log e) (e_k e)"
    using ok by (simp_all add: session_ok_def ep_ok_def)
  show "snd_log (e_log e) k'" "out_log (e_log e) k'" using snd_log_sends[OF logs step] by simp_all
  show "kcp_inv k'" "k_mss k' = k_mss (e_k e)" "k_mtu k' = k_mtu (e_k e)" "k_stream k' = k_stream (e_k e)"
    using step by (simp_all add: sends_ok_def)
  show "rcv_log (e_log p) (length (msg_log (unat (k_mss (e_k p))) (e_got e)))
         (k_rcv_nxt k') (rcv_queue_list k') (rcv_buf_items k')"
    using ok step by (simp add: sends_ok_def session_ok_def delivers_def)
qed

lemma datagram_parse:
  assumes "datagram_ok mtu Q d" and "mtu < 2 ^ 32" and "seg \<in> set (fst (input_parse conv d))"
  shows "\<exists>s. Q s \<and> seg = on_wire s"
proof -
  obtain ss where ss: "d = concat (map seg_bytes ss)" "\<forall>s \<in> set ss. Q s"
    using assms(1) by (auto simp: datagram_ok_def packed_def)
  have "length (sg_data s) < 2 ^ 32" if "s \<in> set ss" for s
  proof -
    have "length (sg_data s) \<le> length (seg_bytes s)" by (simp add: length_seg_bytes)
    also have "\<dots> \<le> length (concat (map seg_bytes ss))"
      using that by (induction ss) auto
    also have "\<dots> \<le> mtu" using assms(1) ss(1) by (simp add: datagram_ok_def)
    finally show ?thesis using assms(2) by simp
  qed
  then obtain s where "s \<in> set ss" "seg = on_wire s"
    using input_parse_subset[of ss conv] assms(3) ss(1) by auto
  then show ?thesis using ss(2) by blast
qed

lemma packed_parse:
  assumes "datagram_ok mtu (push_in T) d" and "mtu < 2 ^ 32"
    and "seg \<in> set (fst (input_parse conv d))" and "sg_cmd seg = IKCP_CMD_PUSH"
  shows "seg_in T seg"
  using datagram_parse[OF assms(1-3)] assms(4) by (auto simp: push_in_def)

text \<open>The data segments in a datagram of the peer are in its log.\<close>

lemma session_pushes:
  assumes ok: "session_ok e p" and d: "d \<in> set (k_output (e_k p))"
    and "seg \<in> set (fst (input_parse conv d))" and "sg_cmd seg = IKCP_CMD_PUSH"
  shows "seg_in (e_log p) seg"
proof -
  have dg: "datagram_ok (unat (k_mtu (e_k p))) (push_in (e_log p)) d"
    using ok d by (auto simp: session_ok_def ep_ok_def out_log_def)
  have "unat (k_mtu (e_k p)) < 2 ^ 32" using unsigned_less[of "k_mtu (e_k p)"] by simp
  from packed_parse[OF dg this assms(3,4)] show ?thesis .
qed

lemma session_datagram_length:
  "session_ok e p \<Longrightarrow> d \<in> set (k_output (e_k p)) \<Longrightarrow> length d \<le> unat (k_mtu (e_k e))"
  by (auto simp: session_ok_def ep_ok_def out_log_def datagram_ok_def)

lemma session_takes:
  assumes ok: "session_ok e p" and short: "length (e_log p) < 2 ^ 32"
    and k1: "input_ok (seg_in (e_log p)) (e_k e) k1" "sends_ok k1 k'"
  shows "session_ok (e\<lparr>e_k := k'\<rparr>) p"
proof -
  have logs: "snd_log (e_log e) (e_k e)" "out_log (e_log e) (e_k e)"
      "rcv_log (e_log p) (length (msg_log (unat (k_mss (e_k p))) (e_got e)))
         (k_rcv_nxt (e_k e)) (rcv_queue_list (e_k e)) (rcv_buf_items (e_k e))"
    using ok by (auto simp: session_ok_def ep_ok_def delivers_def)
  have inv1: "kcp_inv k1" and fr: "k_mss k1 = k_mss (e_k e)" "k_mtu k1 = k_mtu (e_k e)" "k_stream k1 = k_stream (e_k e)"
    using k1(1) by (simp_all add: input_ok_def input_frame_def)
  have "session_ok (e\<lparr>e_k := k1\<rparr>) p"
    by (rule session_ok_conn[OF ok inv1 fr snd_log_input[OF logs(1) k1(1)] out_log_input[OF logs(2) k1(1)]
        rcv_log_input[OF short logs(3) k1(1)]])
  from session_sends[OF this] k1(2) show ?thesis by simp
qed

lemma session_input:
  assumes ok: "session_ok e p" and d: "d \<in> set (k_output (e_k p))" and short: "length (e_log p) < 2 ^ 32"
    and step: "kcp_Input clk d regular ackNoDelay (e_k e) = Some (code, k')"
  shows "session_ok (e\<lparr>e_k := k'\<rparr>) p"
proof -
  have inv: "kcp_inv (e_k e)" using ok by (simp add: session_ok_def ep_ok_def)
  obtain k1 where "input_ok (seg_in (e_log p)) (e_k e) k1" "sends_ok k1 k'"
    using kcp_Input_ok[where P = "seg_in (e_log p)", OF inv session_datagram_length[OF ok d],
        of clk regular ackNoDelay] session_pushes[OF ok d] step by auto
  then show ?thesis by (rule session_takes[OF ok short])
qed

lemma session_nodelay:
  assumes ok: "session_ok e p"
  shows "session_ok (e\<lparr>e_k := snd (kcp_NoDelay nodelay interval resend nc (e_k e))\<rparr>) p"
proof -
  obtain nd mr iv fr n where k': "snd (kcp_NoDelay nodelay interval resend nc (e_k e)) =
     (e_k e)\<lparr>k_nodelay := nd, k_rx_minrto := mr, k_interval := iv, k_fastresend := fr, k_nocwnd := n\<rparr>"
    using kcp_NoDelay_fields by blast
  have inv: "kcp_inv (e_k e)"
    and logs: "snd_log (e_log e) (e_k e)" "out_log (e_log e) (e_k e)"
      "rcv_log (e_log p) (length (msg_log (unat (k_mss (e_k p))) (e_got e)))
         (k_rcv_nxt (e_k e)) (rcv_queue_list (e_k e)) (rcv_buf_items (e_k e))"
    using ok by (auto simp: session_ok_def ep_ok_def delivers_def)
  show ?thesis
    unfolding k'
    by (rule session_ok_conn[OF ok])
       (use inv logs in \<open>simp_all add: kcp_inv_def snd_log_def out_log_def\<close>)
qed

lemma rcv_log_append: "rcv_log U c nxt Q B \<Longrightarrow> rcv_log (U @ V) c nxt Q B"
  by (auto simp: rcv_log_def seg_in_append)

text \<open>A message accepted by \<open>Send\<close> is appended to the log; a refused one leaves no trace.\<close>

lemma session_sent:
  assumes ok: "session_ok e p" and "msg_valid (unat (k_mss (e_k e))) msg"
    and q: "kcp_inv ((e_k e)\<lparr>k_snd_queue := q\<rparr>)"
      "rb_list q = snd_queue_list (e_k e)
         @ fragments (unat (k_mss (e_k e))) (frag_count (unat (k_mss (e_k e))) msg) msg"
  shows "session_ok (e\<lparr>e_k := (e_k e)\<lparr>k_snd_queue := q\<rparr>, e_sent := e_sent e @ [msg]\<rparr>) p"
proof -
  let ?k = "e_k e" and ?mss = "unat (k_mss (e_k e))"
  let ?fs = "fragments ?mss (frag_count ?mss msg) msg" and ?k' = "(e_k e)\<lparr>k_snd_queue := q\<rparr>"
  let ?e = "e\<lparr>e_k := ?k', e_sent := e_sent e @ [msg]\<rparr>"
  have stream: "k_stream ?k = 0"
    and logs: "snd_log (e_log e) ?k" "out_log (e_log e) ?k" and dl: "delivers e p" "delivers p e"
    and valid: "\<forall>m \<in> set (e_sent e). msg_valid ?mss m"
    and rest: "ep_ok p" "k_mtu ?k = k_mtu (e_k p)"
    using ok by (simp_all add: session_ok_def ep_ok_def)
  have log: "e_log ?e = e_log e @ map pl ?fs" by (simp add: e_log_def)
  obtain n where n: "n \<le> length (e_log e)" "k_snd_nxt ?k = of_nat n" "map pl (snd_queue_list ?k) = drop n (e_log e)"
    using logs(1) unfolding snd_log_def by blast
  have "snd_log (e_log ?e) ?k'"
    unfolding snd_log_def log
    using n logs(1) by (auto simp: q(2) snd_log_def seg_in_append intro!: exI[of _ n])
  moreover have "out_log (e_log ?e) ?k'"
    using out_log_append[OF logs(2)] unfolding log by (simp add: out_log_def)
  moreover have "\<forall>m \<in> set (e_sent ?e). msg_valid ?mss m"
    using valid assms(2) by simp
  ultimately have "ep_ok ?e" using q(1) stream by (simp add: ep_ok_def)
  moreover have "delivers ?e p"
    using dl(1) unfolding delivers_def log by (auto intro: rcv_log_append prefix_prefix)
  moreover have "delivers p ?e"
    using dl(2) by (simp add: delivers_def)
  ultimately show ?thesis using rest by (simp add: session_ok_def)
qed

lemma session_send:
  assumes ok: "session_ok e p" and step: "kcp_Send msg (e_k e) = Some (code, k')"
  shows "session_ok (e\<lparr>e_k := k', e_sent := (if code = 0 then e_sent e @ [msg] else e_sent e)\<rparr>) p"
proof -
  let ?k = "e_k e" and ?mss = "unat (k_mss (e_k e))"
  have inv: "kcp_inv ?k" and stream: "k_stream ?k = 0"
    using ok by (simp_all add: session_ok_def ep_ok_def)
  show ?thesis
  proof (cases "msg_valid ?mss msg")
    case False
    then have "code \<noteq> 0 \<and> k' = ?k"
      using step kcp_Send_empty kcp_Send_message(1)[OF inv stream, of msg]
      by (cases "msg = []") (auto simp: msg_valid_def)
    then show ?thesis using ok by simp
  next
    case True
    then obtain q where "code = 0" "k' = ?k\<lparr>k_snd_queue := q\<rparr>" "kcp_inv (?k\<lparr>k_snd_queue := q\<rparr>)"
      "rb_list q = snd_queue_list ?k @ fragments ?mss (frag_count ?mss msg) msg"
      using step kcp_Send_message(2)[OF inv stream, of msg] by (auto simp: msg_valid_def)
    then show ?thesis using session_sent[OF ok True] by simp
  qed
qed

text \<open>A message received is the next one of the peer, whole.\<close>

lemma session_received:
  assumes ok: "session_ok e p" and short: "length (e_log p) < 2 ^ 32" and readable: "0 \<le> kcp_PeekSize (e_k e)"
    and inv': "kcp_inv k'"
    and q': "rcv_queue_list k' = drop (length (next_msg (rcv_queue_list (e_k e)))) (rcv_queue_list (e_k e)) @ ms"
      "rcv_buf_items (e_k e) = rcv_buf_items k' + mset ms" "k_rcv_nxt k' = k_rcv_nxt (e_k e) + of_nat (length ms)"
    and fr: "\<exists>q h n p. k' = (e_k e)\<lparr>k_rcv_queue := q, k_rcv_buf := h, k_rcv_nxt := n, k_probe := p\<rparr>"
  shows "session_ok (e\<lparr>e_k := k', e_got := e_got e @ [msg_bytes (next_msg (rcv_queue_list (e_k e)))]\<rparr>) p"
proof -
  let ?k = "e_k e" and ?mss = "unat (k_mss (e_k p))"
  let ?Q = "rcv_queue_list ?k" and ?msg = "msg_bytes (next_msg (rcv_queue_list ?k))"
  have inv: "kcp_inv ?k" and dl: "delivers p e" and okp: "ep_ok p" using ok by (simp_all add: session_ok_def ep_ok_def)
  obtain rs where rs: "e_sent p = e_got e @ rs" using dl by (auto simp: delivers_def prefix_def)
  have mss: "0 < ?mss" using okp cfg_inv_mss_pos[of "e_k p"] by (auto simp: ep_ok_def)
  have log: "rcv_log (msg_log ?mss (e_got e @ rs)) (length (msg_log ?mss (e_got e))) (k_rcv_nxt ?k) ?Q (rcv_buf_items ?k)"
    using dl by (simp add: delivers_def e_log_def rs)
  have "\<forall>m \<in> set (e_got e @ rs). msg_valid ?mss m" using okp rs by (simp add: ep_ok_def)
  from next_message[OF inv readable mss this log] obtain m rest where
    m: "rs = m # rest" "?msg = m" "length (next_msg ?Q) = frag_count ?mss m" by auto
  let ?got = "e_got e @ [m]"
  have c: "length (msg_log ?mss ?got) = length (msg_log ?mss (e_got e)) + length (next_msg ?Q)"
    using m(3) by simp
  have "rcv_log (e_log p) (length (msg_log ?mss ?got)) (k_rcv_nxt ?k) (drop (length (next_msg ?Q)) ?Q) (rcv_buf_items ?k)"
    unfolding c using rcv_log_consume[OF _ length_next_msg] log by (simp add: e_log_def rs)
  from rcv_log_grow[OF short this, of ms "rcv_buf_items k'"] rcv_run[OF inv'] q'
  have new: "rcv_log (e_log p) (length (msg_log ?mss ?got)) (k_rcv_nxt k') (rcv_queue_list k') (rcv_buf_items k')"
    by auto
  let ?e = "e\<lparr>e_k := k', e_got := ?got\<rparr>"
  have "ep_ok ?e" "e_log ?e = e_log e" "k_mtu k' = k_mtu ?k"
    using ok inv' fr by (auto simp: session_ok_def ep_ok_def e_log_def snd_log_def out_log_def)
  moreover have "delivers p ?e" using new rs m(1) by (simp add: delivers_def prefix_def)
  moreover have "delivers ?e p"
    using ok fr calculation(2) by (auto simp: session_ok_def delivers_def)
  ultimately show ?thesis using ok okp m(2) by (simp add: session_ok_def)
qed

lemma session_recv:
  assumes ok: "session_ok e p" and short: "length (e_log p) < 2 ^ 32"
    and step: "kcp_Recv buf (e_k e) = Some (n, buf', k')"
  shows "session_ok (e\<lparr>e_k := k', e_got := (if n \<ge> 0 then e_got e @ [take (nat n) buf'] else e_got e)\<rparr>) p"
proof (cases "0 \<le> kcp_PeekSize (e_k e) \<and> kcp_PeekSize (e_k e) \<le> int (length buf)")
  case False
  then have "n < 0 \<and> k' = e_k e"
    using step kcp_Recv_errors[of "e_k e" buf] by (cases "kcp_PeekSize (e_k e) < 0") auto
  then show ?thesis using ok by simp
next
  case True
  let ?k = "e_k e"
  have inv: "kcp_inv ?k" using ok by (simp add: session_ok_def ep_ok_def)
  then have rb: "rb_inv (k_rcv_queue ?k)" by (auto simp: rcv_inv_def)
  obtain k'' ms where recv: "kcp_Recv buf ?k = Some (kcp_PeekSize ?k,
        msg_bytes (next_msg (rcv_queue_list ?k)) @ drop (nat (kcp_PeekSize ?k)) buf, k'')"
      "kcp_inv k''" "rcv_queue_list k'' = drop (length (next_msg (rcv_queue_list ?k))) (rcv_queue_list ?k) @ ms"
      "rcv_buf_items ?k = rcv_buf_items k'' + mset ms" "k_rcv_nxt k'' = k_rcv_nxt ?k + of_nat (length ms)"
      "\<exists>q h n p. k'' = ?k\<lparr>k_rcv_queue := q, k_rcv_buf := h, k_rcv_nxt := n, k_probe := p\<rparr>"
    using kcp_Recv_correct[OF inv, of buf] True by blast
  have "kcp_PeekSize ?k = int (length (msg_bytes (next_msg (rcv_queue_list ?k))))"
    using kcp_PeekSize_correct[OF rb] True by (auto split: list.splits if_splits)
  then have "k'' = k'" "n = kcp_PeekSize ?k" "take (nat n) buf' = msg_bytes (next_msg (rcv_queue_list ?k))"
    using recv(1) step by auto
  then show ?thesis
    using session_received[OF ok short _ recv(2-6)] True by simp
qed

lemma session_step:
  assumes step: "ep_step (set (k_output (e_k p))) e e'" and ok: "session_ok e p"
    and short: "length (e_log p) < 2 ^ 32"
  shows "session_ok e' p"
  using step
proof cases
  case (ep_send msg code k)
  then show ?thesis using session_send[OF ok] by simp
next
  case (ep_recv buf n buf' k)
  then show ?thesis using session_recv[OF ok short] by simp
next
  case (ep_input d clk regular ackNoDelay code k)
  then show ?thesis using session_input[OF ok _ short] by simp
next
  case (ep_update clk k)
  have "kcp_inv (e_k e)" using ok by (simp add: session_ok_def ep_ok_def)
  then have "sends_ok (e_k e) k" using kcp_Update_ok[of "e_k e" clk] ep_update(2) by auto
  then show ?thesis using session_sends[OF ok] ep_update(1) by simp
next
  case (ep_flush clk ackOnly t k)
  have "kcp_inv (e_k e)" using ok by (simp add: session_ok_def ep_ok_def)
  then have "sends_ok (e_k e) k" using kcp_flush_sends[of "e_k e" clk ackOnly] ep_flush(2) by auto
  then show ?thesis using session_sends[OF ok] ep_flush(1) by simp
next
  case (ep_nodelay nodelay interval resend nc)
  then show ?thesis using session_nodelay[OF ok] by simp
qed

section \<open>The promise of the protocol\<close>

definition fresh :: "endpoint \<Rightarrow> bool" where
  "fresh e \<longleftrightarrow> kcp_inv (e_k e) \<and> k_stream (e_k e) = 0 \<and> k_snd_nxt (e_k e) = 0 \<and> k_rcv_nxt (e_k e) = 0
     \<and> snd_queue_list (e_k e) = [] \<and> snd_buf_list (e_k e) = [] \<and> rcv_queue_list (e_k e) = []
     \<and> rcv_buf_items (e_k e) = {#} \<and> k_acklist (e_k e) = [] \<and> k_output (e_k e) = [] \<and> e_sent e = [] \<and> e_got e = []"

text \<open>The number of segments a user's messages take.\<close>

definition seg_total :: "nat \<Rightarrow> bytes list \<Rightarrow> nat" where
  "seg_total mss msgs = sum_list (map (frag_count mss) msgs)"

lemma length_msg_log: "length (msg_log mss msgs) = seg_total mss msgs"
  by (induction msgs) (simp_all add: seg_total_def)

lemma seg_total_append [simp]: "seg_total mss (xs @ ys) = seg_total mss xs + seg_total mss ys"
  by (simp add: seg_total_def)

lemma ep_step_sent: "ep_step net e e' \<Longrightarrow> seg_total M (e_sent e) \<le> seg_total M (e_sent e')"
  by (cases rule: ep_step.cases) auto

lemma fresh_ok:
  assumes "fresh a" and "fresh b" and "k_mtu (e_k a) = k_mtu (e_k b)"
  shows "session_ok a b"
  using assms
  by (simp add: session_ok_def ep_ok_def delivers_def fresh_def snd_log_def out_log_def rcv_log_def e_log_def)

lemma session_ok_mss: "session_ok a b \<Longrightarrow> k_mss (e_k a) = k_mss (e_k b)"
  by (auto simp: session_ok_def ep_ok_def cfg_inv_def dest!: kcp_invD(1))

lemma session_left_step:
  assumes "ep_step (set (k_output (e_k p))) e e'" and "session_ok e p" and "unat (k_mss (e_k e)) = M"
    and "seg_total M (e_sent p) < 2 ^ 32"
  shows "session_ok e' p \<and> unat (k_mss (e_k e')) = M"
proof -
  have mp: "unat (k_mss (e_k p)) = M" using session_ok_mss[OF assms(2)] assms(3) by simp
  have "length (e_log p) < 2 ^ 32" using assms(4) mp by (simp add: e_log_def length_msg_log)
  from session_step[OF assms(1,2) this] show ?thesis
    using session_ok_mss[of e' p] mp by simp
qed

lemma session_reach_ok:
  assumes "session (a0, b0) s" and "fresh a0" and "fresh b0" and "k_mtu (e_k a0) = k_mtu (e_k b0)"
  defines "M \<equiv> unat (k_mss (e_k a0))"
  shows "seg_total M (e_sent (fst s)) < 2 ^ 32 \<longrightarrow> seg_total M (e_sent (snd s)) < 2 ^ 32 \<longrightarrow>
    session_ok (fst s) (snd s) \<and> unat (k_mss (e_k (fst s))) = M"
  using assms(1)
proof (induction rule: session.induct)
  case session_start
  then show ?case using fresh_ok[OF assms(2-4)] by (simp add: M_def)
next
  case (session_left a b a')
  then show ?case
    using ep_step_sent[OF session_left(2), of M] session_left_step[OF session_left(2), of M] by auto
next
  case (session_right a b b')
  show ?case
  proof (intro impI)
    assume "seg_total M (e_sent (fst (a, b'))) < 2 ^ 32" "seg_total M (e_sent (snd (a, b'))) < 2 ^ 32"
    then have ok: "session_ok a b" "unat (k_mss (e_k a)) = M"
      using session_right(3) ep_step_sent[OF session_right(2), of M] by auto
    then have "unat (k_mss (e_k b)) = M" using session_ok_mss by metis
    with session_left_step[OF session_right(2) session_ok_sym[OF ok(1)]]
    have "session_ok b' a \<and> unat (k_mss (e_k b')) = M"
      using \<open>seg_total M (e_sent (fst (a, b'))) < 2 ^ 32\<close> by simp
    then show "session_ok (fst (a, b')) (snd (a, b')) \<and> unat (k_mss (e_k (fst (a, b')))) = M"
      using ok(2) session_ok_sym by simp
  qed
qed

text \<open>Any freshly configured connection is a fresh end.\<close>

lemma fresh_New: "fresh \<lparr>e_k = NewKCP conv, e_sent = [], e_got = []\<rparr>"
  using kcp_inv_New[of conv] by (simp add: fresh_def NewKCP_def rb_list_New heap_items_New)

end
