(* ===== verification/Kcp_Sync.thy ===== *)
theory Kcp_Sync
  imports Kcp_Session
begin

text \<open>
  The other half of the promise of a session: acknowledgements are sound. Each end keeps a segment
  until the other has taken it in, and no end is ahead of what the other has sent. Sequence numbers
  are compared by their distance around a circle of 2 to the 32, so the theorem is for sessions of
  fewer than 2 to the 31 segments, in which no comparison of numbers that occur wraps around.
\<close>

section \<open>What an end has taken in, and what it still keeps\<close>

definition got :: "KCP \<Rightarrow> u32 \<Rightarrow> bool" where
  "got k sn \<longleftrightarrow> sn < k_rcv_nxt k \<or> sn \<in> sg_sn ` set_mset (rcv_buf_items k)"

text \<open>The first sequence number in flight.\<close>

definition snd_start :: "KCP \<Rightarrow> u32" where
  "snd_start k = k_snd_nxt k - of_nat (length (snd_buf_list k))"

lemma snd_start_frame [simp]:
  "snd_start (k\<lparr>k_acklist := al\<rparr>) = snd_start k" "snd_start (k\<lparr>k_probe := p\<rparr>) = snd_start k"
  "snd_start (k\<lparr>k_rcv_queue := q\<rparr>) = snd_start k" "snd_start (k\<lparr>k_rcv_buf := h\<rparr>) = snd_start k"
  "snd_start (k\<lparr>k_rcv_nxt := n\<rparr>) = snd_start k" "snd_start (k\<lparr>k_snd_queue := q\<rparr>) = snd_start k"
  by (simp_all add: snd_start_def)

text \<open>When there is room, no segment that is next waits in the out-of-order buffer.\<close>

definition rcv_gap :: "KCP \<Rightarrow> bool" where
  "rcv_gap k \<longleftrightarrow> (length (rcv_queue_list k) < unat (k_rcv_wnd k) \<longrightarrow> k_rcv_nxt k \<notin> sg_sn ` set_mset (rcv_buf_items k))"

definition ack_in :: "KCP \<Rightarrow> segment \<Rightarrow> bool" where
  "ack_in k s \<longleftrightarrow> sg_una s \<le> k_rcv_nxt k \<and> (sg_cmd s = IKCP_CMD_ACK \<longrightarrow> got k (sg_sn s))"

definition push_below :: "u32 \<Rightarrow> segment \<Rightarrow> bool" where
  "push_below n s \<longleftrightarrow> (sg_cmd s = IKCP_CMD_PUSH \<longrightarrow> sg_sn s < n)"

text \<open>An end as a receiver, whose peer has put numbers below \<open>N\<close> in flight.\<close>

definition rcv_part :: "u32 \<Rightarrow> KCP \<Rightarrow> bool" where
  "rcv_part N k \<longleftrightarrow> k_rcv_nxt k \<le> N \<and> (\<forall>x \<in># rcv_buf_items k. sg_sn x < N) \<and> rcv_gap k
     \<and> (\<forall>a \<in> set (k_acklist k). got k (ack_sn a))
     \<and> (\<forall>d \<in> set (k_output k). datagram_ok (unat (k_mtu k)) (ack_in k) d)"

text \<open>An end as a sender, whose peer expects \<open>R\<close> next and has taken in the numbers of \<open>G\<close>.\<close>

definition snd_part :: "u32 \<Rightarrow> (u32 \<Rightarrow> bool) \<Rightarrow> KCP \<Rightarrow> bool" where
  "snd_part R G k \<longleftrightarrow> snd_start k \<le> R
     \<and> (\<forall>x \<in> set (snd_buf_list k). sg_acked x = 1 \<longrightarrow> G (sg_sn x))
     \<and> (\<forall>x \<in> set (snd_queue_list k). sg_acked x \<noteq> 1)
     \<and> (\<forall>d \<in> set (k_output k). datagram_ok (unat (k_mtu k)) (push_below (k_snd_nxt k)) d)"

definition in_step :: "u32 \<Rightarrow> u32 \<Rightarrow> (u32 \<Rightarrow> bool) \<Rightarrow> KCP \<Rightarrow> bool" where
  "in_step N R G k \<longleftrightarrow> kcp_inv k \<and> rcv_part N k \<and> snd_part R G k"

definition grows :: "KCP \<Rightarrow> KCP \<Rightarrow> bool" where
  "grows k k' \<longleftrightarrow> k_snd_nxt k \<le> k_snd_nxt k' \<and> k_rcv_nxt k \<le> k_rcv_nxt k' \<and> (\<forall>sn. got k sn \<longrightarrow> got k' sn)
     \<and> snd_start k \<le> snd_start k' \<and> k_mtu k' = k_mtu k \<and> k_conv k' = k_conv k \<and> k_rcv_wnd k' = k_rcv_wnd k"

lemma grows_refl [simp]: "grows k k"
  by (simp add: grows_def)

lemma grows_trans: "grows k1 k2 \<Longrightarrow> grows k2 k3 \<Longrightarrow> grows k1 k3"
  by (auto simp: grows_def)

section \<open>Sequence numbers of a short session\<close>

lemma itimediff_small:
  "unat x < 2 ^ 31 \<Longrightarrow> unat y < 2 ^ 31 \<Longrightarrow> itimediff x y = int (unat x) - int (unat y)"
  using itimediff_off[of 0 x y] by (simp add: sn_off_def)

lemma unat_plus_small: "unat x + n < 2 ^ 32 \<Longrightarrow> unat (x + of_nat n :: u32) = unat x + n"
  by (simp add: unat_word_ariths unat_of_nat)

lemma run_bounds:
  assumes "map sg_sn xs = sn_run a (length xs)" and "unat a + length xs < 2 ^ 32" and "x \<in> set xs"
  shows "a \<le> sg_sn x \<and> unat (sg_sn x) < unat a + length xs"
proof -
  have "sg_sn x \<in> set (sn_run a (length xs))" using assms(1,3) by (metis image_eqI image_set)
  then obtain i where i: "i < length xs" "sg_sn x = a + of_nat i" by (auto simp: in_sn_run_iff)
  then show ?thesis using unat_plus_small[of a i] assms(2) by (simp add: word_le_nat_alt)
qed

lemma flight_run:
  assumes "kcp_inv k"
  shows "map sg_sn (snd_buf_list k) = sn_run (snd_start k) (length (snd_buf_list k))"
    and "length (snd_buf_list k) < 2 ^ 31"
proof -
  have snd: "snd_inv k" and cfg: "cfg_inv k" using assms by auto
  show "map sg_sn (snd_buf_list k) = sn_run (snd_start k) (length (snd_buf_list k))"
    "length (snd_buf_list k) < 2 ^ 31"
    using snd cfg by (auto simp: snd_start_def snd_inv_def cfg_inv_def)
qed

lemma start_nat:
  assumes "kcp_inv k" and "snd_start k \<le> R" and "unat R < 2 ^ 31"
  shows "unat (snd_start k) + length (snd_buf_list k) = unat (k_snd_nxt k)"
    and "x \<in> set (snd_buf_list k) \<Longrightarrow> snd_start k \<le> sg_sn x \<and> sg_sn x < k_snd_nxt k"
proof -
  have lt: "unat (snd_start k) + length (snd_buf_list k) < 2 ^ 32"
    using assms flight_run(2)[OF assms(1)] by (simp add: word_le_nat_alt)
  have "snd_start k + of_nat (length (snd_buf_list k)) = k_snd_nxt k" by (simp add: snd_start_def)
  then show eq: "unat (snd_start k) + length (snd_buf_list k) = unat (k_snd_nxt k)"
    using unat_plus_small[OF lt] by simp
  show "x \<in> set (snd_buf_list k) \<Longrightarrow> snd_start k \<le> sg_sn x \<and> sg_sn x < k_snd_nxt k"
    using run_bounds[OF flight_run(1)[OF assms(1)] lt] eq by (simp add: word_less_nat_alt)
qed

text \<open>Segments that have become deliverable carry the numbers from the one expected next on.\<close>

lemma grown_run:
  assumes "kcp_inv k" and "rcv_queue_list k = Q @ ms" and "k_rcv_nxt k = n + of_nat (length ms)"
  shows "map sg_sn ms = sn_run n (length ms)" and "length ms < 2 ^ 31"
proof -
  have r: "map sg_sn (rcv_queue_list k) = sn_run (k_rcv_nxt k - of_nat (length (rcv_queue_list k))) (length (rcv_queue_list k))"
    "length (rcv_queue_list k) \<le> unat (k_rcv_wnd k)" "unat (k_rcv_wnd k) < 2 ^ 31"
    using assms(1) by (auto simp: rcv_inv_def cfg_inv_def)
  show "length ms < 2 ^ 31" using r(2,3) assms(2) by simp
  have "map sg_sn ms = drop (length Q) (map sg_sn (rcv_queue_list k))" using assms(2) by simp
  also have "\<dots> = sn_run (k_rcv_nxt k - of_nat (length (rcv_queue_list k)) + of_nat (length Q)) (length ms)"
    unfolding r(1) by (simp add: sn_run_drop assms(2))
  also have "k_rcv_nxt k - of_nat (length (rcv_queue_list k)) + of_nat (length Q) = n"
    using assms(2,3) by simp
  finally show "map sg_sn ms = sn_run n (length ms)" .
qed

lemma grown_below:
  assumes "kcp_inv k'" and "rcv_queue_list k' = Q @ ms" and "k_rcv_nxt k' = k_rcv_nxt k + of_nat (length ms)"
    and "unat N < 2 ^ 31" and "k_rcv_nxt k \<le> N" and "\<And>x. x \<in> set ms \<Longrightarrow> sg_sn x < N"
    and old: "\<And>x. x \<in># rcv_buf_items k \<Longrightarrow> x \<in> set ms \<or> x \<in># rcv_buf_items k'"
  shows "k_rcv_nxt k \<le> k_rcv_nxt k'" and "k_rcv_nxt k' \<le> N" and "\<And>x. x \<in> set ms \<Longrightarrow> got k' (sg_sn x)"
    and "got k sn \<Longrightarrow> got k' sn"
proof -
  note run = grown_run[OF assms(1-3)]
  have lt: "unat (k_rcv_nxt k) + length ms < 2 ^ 32"
    using run(2) assms(4,5) by (simp add: word_le_nat_alt)
  have eq: "unat (k_rcv_nxt k') = unat (k_rcv_nxt k) + length ms" using unat_plus_small[OF lt] assms(3) by simp
  then show mono: "k_rcv_nxt k \<le> k_rcv_nxt k'" by (simp add: word_le_nat_alt)
  show "k_rcv_nxt k' \<le> N"
  proof (cases "ms = []")
    case True
    then show ?thesis using assms(3,5) by simp
  next
    case False
    then have "sg_sn (last ms) = map sg_sn ms ! (length ms - 1)" by (simp add: last_conv_nth)
    also have "\<dots> = k_rcv_nxt k + of_nat (length ms - 1)" using False by (simp add: run(1) nth_sn_run)
    finally have "unat (sg_sn (last ms)) = unat (k_rcv_nxt k) + (length ms - 1)"
      using unat_plus_small[of "k_rcv_nxt k" "length ms - 1"] lt by simp
    moreover have "sg_sn (last ms) < N" using assms(6) False by simp
    ultimately show ?thesis using eq False by (cases ms) (auto simp: word_le_nat_alt word_less_nat_alt)
  qed
  show ms: "got k' (sg_sn x)" if "x \<in> set ms" for x
    using run_bounds[OF run(1) lt that] eq by (simp add: got_def word_less_nat_alt)
  show "got k sn \<Longrightarrow> got k' sn"
    using old ms mono unfolding got_def by (metis (no_types, lifting) imageE image_eqI order_less_le_trans)
qed

section \<open>Taking in one segment\<close>

text \<open>What the segment has to satisfy: the peer put it on the wire in good faith.\<close>

definition fair_seg :: "u32 \<Rightarrow> u32 \<Rightarrow> (u32 \<Rightarrow> bool) \<Rightarrow> segment \<Rightarrow> bool" where
  "fair_seg N R G s \<longleftrightarrow> sg_una s \<le> R \<and> (sg_cmd s = IKCP_CMD_ACK \<longrightarrow> G (sg_sn s)) \<and> (sg_cmd s = IKCP_CMD_PUSH \<longrightarrow> sg_sn s < N)"

lemma rcv_part_frame [simp]:
  "rcv_part N (k\<lparr>k_rmt_wnd := w\<rparr>) = rcv_part N k" "rcv_part N (k\<lparr>k_snd_buf := b\<rparr>) = rcv_part N k"
  "rcv_part N (k\<lparr>k_snd_una := u\<rparr>) = rcv_part N k" "rcv_part N (k\<lparr>k_probe := p\<rparr>) = rcv_part N k"
  by (simp_all add: rcv_part_def rcv_gap_def ack_in_def[abs_def] got_def)

text \<open>How far an acknowledgement moves the start of what is in flight.\<close>

lemma una_start:
  fixes k una
  defines "P \<equiv> \<lambda>s. itimediff una (sg_sn s) > 0"
  defines "start \<equiv> k_snd_nxt k - of_nat (length (dropWhile P (snd_buf_list k)))"
  assumes inv: "kcp_inv k" and st: "snd_start k \<le> R" and R: "unat R < 2 ^ 31" and nxt: "unat (k_snd_nxt k) < 2 ^ 31"
    and una: "una \<le> R"
  shows "start \<le> R" and "snd_start k \<le> start" and "R \<le> k_snd_nxt k \<Longrightarrow> una \<le> start"
proof -
  let ?buf = "snd_buf_list k" and ?l = "length (takeWhile P (snd_buf_list k))"
  have "length ?buf = ?l + length (dropWhile P ?buf)"
    using length_append[of "takeWhile P ?buf" "dropWhile P ?buf"] by (simp only: takeWhile_dropWhile_id)
  then have len: "length (dropWhile P ?buf) = length ?buf - ?l" by simp
  have le: "?l \<le> length ?buf" by (rule length_takeWhile_le)
  note nat = start_nat[OF inv st R]
  have sn: "unat (sg_sn (?buf ! i)) = unat (snd_start k) + i" if i: "i < length ?buf" for i
  proof -
    have "sg_sn (?buf ! i) = map sg_sn ?buf ! i" using nth_map[OF i, of sg_sn] by (rule sym)
    also have "\<dots> = snd_start k + of_nat i" unfolding flight_run(1)[OF inv] using i by (rule nth_sn_run)
    finally show ?thesis using unat_plus_small[of "snd_start k" i] nat(1) nxt i by simp
  qed
  have cmp: "itimediff una (sg_sn (?buf ! i)) = int (unat una) - int (unat (snd_start k) + i)" if i: "i < length ?buf" for i
  proof -
    have "unat una < 2 ^ 31" "unat (sg_sn (?buf ! i)) < 2 ^ 31"
      using una R sn[OF i] nat(1) nxt i by (simp_all add: word_le_nat_alt)
    from itimediff_small[OF this] show ?thesis unfolding sn[OF i] .
  qed
  have "start = snd_start k + of_nat ?l" using le len by (simp add: start_def snd_start_def of_nat_diff)
  then have start: "unat start = unat (snd_start k) + ?l"
    using unat_plus_small[of "snd_start k" ?l] nat(1) nxt le by simp
  then show "snd_start k \<le> start" by (simp add: word_le_nat_alt)
  show "start \<le> R"
  proof (cases "?l = 0")
    case True
    then show ?thesis using st start by (simp add: word_le_nat_alt)
  next
    case False
    have i: "?l - 1 < length ?buf" "?l - 1 < ?l" using False le by linarith+
    have "P (?buf ! (?l - 1))"
      using nth_mem[OF i(2)] takeWhile_nth[OF i(2)] set_takeWhileD by metis
    then have "unat (snd_start k) + (?l - 1) < unat una" using cmp[OF i(1)] unfolding P_def by linarith
    moreover have "unat una \<le> unat R" using una by (simp add: word_le_nat_alt)
    ultimately show ?thesis using start i(2) unfolding word_le_nat_alt by linarith
  qed
  show "una \<le> start" if R': "R \<le> k_snd_nxt k"
  proof (cases "?l < length ?buf")
    case True
    then have "\<not> P (?buf ! ?l)" using nth_length_takeWhile by blast
    then show ?thesis using cmp[OF True] start unfolding P_def word_le_nat_alt by linarith
  next
    case False
    then have "unat start = unat (k_snd_nxt k)" using start nat(1) le by simp
    then show ?thesis using una R' unfolding word_le_nat_alt by linarith
  qed
qed

lemma input_una_step:
  assumes step: "in_step N R G k" and R: "unat R < 2 ^ 31" and nxt: "unat (k_snd_nxt k) < 2 ^ 31"
    and una: "sg_una seg \<le> R"
  shows "in_step N R G (input_una regular seg k) \<and> grows k (input_una regular seg k)
    \<and> k_snd_nxt (input_una regular seg k) = k_snd_nxt k
    \<and> (R \<le> k_snd_nxt k \<longrightarrow> sg_una seg \<le> snd_start (input_una regular seg k))"
proof -
  have inv: "kcp_inv k" and rcv: "rcv_part N k" and snd: "snd_part R G k" using step by (simp_all add: in_step_def)
  let ?k = "if regular then k\<lparr>k_rmt_wnd := ucast (sg_wnd seg)\<rparr> else k"
  let ?buf = "dropWhile (\<lambda>s. itimediff (sg_una seg) (sg_sn s) > 0) (snd_buf_list k)"
  have sinv: "snd_inv ?k" using inv by auto
  obtain b where b: "snd (kcp_parse_una (sg_una seg) ?k) = ?k\<lparr>k_snd_buf := b\<rparr>" "rb_list b = ?buf"
    using parse_una_correct(2)[OF sinv, of "sg_una seg"] by auto
  obtain u where u: "kcp_shrink_buf (?k\<lparr>k_snd_buf := b\<rparr>) = ?k\<lparr>k_snd_buf := b, k_snd_una := u\<rparr>"
    using shrink_buf_frame[of "?k\<lparr>k_snd_buf := b\<rparr>"] by auto
  have k': "input_una regular seg k = ?k\<lparr>k_snd_buf := b, k_snd_una := u\<rparr>" by (simp add: input_una_def b(1) u)
  have "rcv_part N (input_una regular seg k)" using rcv unfolding k' by simp
  moreover have st: "snd_start k \<le> R" using snd by (simp add: snd_part_def)
  have start: "snd_start (input_una regular seg k) = k_snd_nxt k - of_nat (length ?buf)"
    unfolding k' by (simp add: snd_start_def b(2))
  note us = una_start[OF inv st R nxt una]
  moreover have "snd_part R G (input_una regular seg k)"
    using snd us(1) unfolding k'
    by (auto simp: snd_part_def snd_start_def b(2) dest: set_dropWhileD)
  moreover have "grows k (input_una regular seg k)" "k_snd_nxt (input_una regular seg k) = k_snd_nxt k"
    using us(2) start unfolding k' by (simp_all add: grows_def got_def)
  moreover have "R \<le> k_snd_nxt k \<longrightarrow> sg_una seg \<le> snd_start (input_una regular seg k)"
    using us(3) unfolding start by blast
  moreover have "kcp_inv (input_una regular seg k)" using inv by (rule input_una_inv)
  ultimately show ?thesis by (simp add: in_step_def)
qed

text \<open>An acknowledgement marks no segment but the one it names.\<close>

definition acked_by :: "u32 \<Rightarrow> segment \<Rightarrow> segment \<Rightarrow> bool" where
  "acked_by sn x y \<longleftrightarrow> sg_sn y = sg_sn x \<and> (sg_acked y = 1 \<longrightarrow> sg_acked x = 1 \<or> sg_sn x = sn)"

lemma list_each_rel:
  assumes "\<And>x. Rel x x" and "\<And>x s. Rel x (fst (snd (fn x s)))"
  shows "list_all2 Rel xs (fst (snd (list_each fn xs s)))"
  using assms
  by (induction xs arbitrary: s) (auto simp: list_each_Cons list.rel_refl simp del: list_each.simps(2))

lemma parse_acks_marked:
  assumes "kcp_inv k"
  shows "list_all2 (acked_by sn) (snd_buf_list k) (snd_buf_list (kcp_parse_ack sn k))"
    and "list_all2 (acked_by sn) (snd_buf_list k) (snd_buf_list (kcp_parse_fastack sn ts k))"
proof -
  have rb: "rb_inv (k_snd_buf k)" using assms by (auto simp: snd_inv_def)
  have refl: "acked_by sn x x" for x by (simp add: acked_by_def)
  have "list_all2 (acked_by sn) (snd_buf_list k) (fst (snd (list_each (ack_visit sn) (snd_buf_list k) ())))"
    by (rule list_each_rel[OF refl]) (simp add: acked_by_def ack_visit_def recycleSegment_def)
  then show "list_all2 (acked_by sn) (snd_buf_list k) (snd_buf_list (kcp_parse_ack sn k))"
    using refl by (simp add: kcp_parse_ack_def rb_ForEach_list[OF rb] list.rel_refl)
  have "list_all2 (acked_by sn) (snd_buf_list k) (fst (snd (list_each (fastack_visit sn ts) (snd_buf_list k) ())))"
    by (rule list_each_rel[OF refl]) (simp add: acked_by_def fastack_visit_def)
  then show "list_all2 (acked_by sn) (snd_buf_list k) (snd_buf_list (kcp_parse_fastack sn ts k))"
    using refl by (simp add: kcp_parse_fastack_def rb_ForEach_list[OF rb] list.rel_refl)
qed

lemma snd_part_marked:
  assumes snd: "snd_part R G k" and all: "list_all2 (acked_by sn) (snd_buf_list k) (rb_list b)" and G: "G sn"
  shows "snd_part R G (k\<lparr>k_snd_buf := b\<rparr>)"
proof -
  have "G (sg_sn y)" if "y \<in> set (rb_list b)" "sg_acked y = 1" for y
    using list_all2_right[OF all that(1)] that(2) snd G by (auto simp: acked_by_def snd_part_def)
  moreover have "length (rb_list b) = length (snd_buf_list k)" using list_all2_lengthD[OF all] by simp
  ultimately show ?thesis using snd by (simp add: snd_part_def snd_start_def)
qed

lemma acks_step:
  assumes step: "in_step N R G k" and G: "G sn"
  shows "in_step N R G (kcp_parse_fastack sn ts (kcp_parse_ack sn k))
    \<and> grows k (kcp_parse_fastack sn ts (kcp_parse_ack sn k))
    \<and> k_snd_nxt (kcp_parse_fastack sn ts (kcp_parse_ack sn k)) = k_snd_nxt k"
proof -
  have inv: "kcp_inv k" and rcv: "rcv_part N k" and snd: "snd_part R G k" using step by (simp_all add: in_step_def)
  have inv1: "kcp_inv (kcp_parse_ack sn k)" using inv by (rule parse_ack_inv)
  obtain b where b: "kcp_parse_ack sn k = k\<lparr>k_snd_buf := b\<rparr>" using parse_ack_frame by blast
  let ?k1 = "k\<lparr>k_snd_buf := b\<rparr>"
  have snd1: "snd_part R G ?k1"
    using snd_part_marked[OF snd _ G, of b] parse_acks_marked(1)[OF inv, of sn] by (simp add: b)
  obtain c where c: "kcp_parse_fastack sn ts ?k1 = ?k1\<lparr>k_snd_buf := c\<rparr>"
    using parse_fastack_frame by blast
  have "snd_part R G (?k1\<lparr>k_snd_buf := c\<rparr>)"
    using snd_part_marked[OF snd1 _ G, of c] parse_acks_marked(2)[OF inv1, of sn ts] by (simp add: b c)
  moreover have "length (rb_list c) = length (snd_buf_list k)"
    using list_all2_lengthD[OF parse_acks_marked(1)[OF inv, of sn]] list_all2_lengthD[OF parse_acks_marked(2)[OF inv1, of sn ts]]
    by (simp add: b c)
  ultimately have "snd_part R G (kcp_parse_fastack sn ts ?k1)" "rcv_part N (kcp_parse_fastack sn ts ?k1)"
      "grows k (kcp_parse_fastack sn ts ?k1)" "k_snd_nxt (kcp_parse_fastack sn ts ?k1) = k_snd_nxt k"
    using rcv by (simp_all only: c) (simp_all add: grows_def got_def snd_start_def)
  then show ?thesis using parse_fastack_inv[OF inv1, of sn ts] by (simp add: in_step_def b)
qed

lemma parse_data_step:
  assumes inv: "kcp_inv k" and len: "length (sg_data seg) \<le> unat (k_mtu k)"
    and win: "\<not> (itimediff (sg_sn seg) (k_rcv_nxt k + k_rcv_wnd k) \<ge> 0 \<or> itimediff (sg_sn seg) (k_rcv_nxt k) < 0)"
    and N: "unat N < 2 ^ 31" "k_rcv_nxt k \<le> N" "\<forall>x \<in># rcv_buf_items k. sg_sn x < N" "sg_sn seg < N"
  shows "\<exists>k'. kcp_parse_data seg k = Some (False, k') \<and> kcp_inv k'
    \<and> (\<exists>q h n. k' = k\<lparr>k_rcv_queue := q, k_rcv_buf := h, k_rcv_nxt := n\<rparr>) \<and> grows k k' \<and> k_rcv_nxt k' \<le> N
    \<and> (\<forall>x \<in># rcv_buf_items k'. sg_sn x < N) \<and> rcv_gap k' \<and> got k' (sg_sn seg)"
proof -
  obtain k' ms where k': "kcp_parse_data seg k = Some (False, k')" "kcp_inv k'" "rcv_queue_list k' = rcv_queue_list k @ ms"
     "(if heap_Has (k_rcv_buf k) (sg_sn seg) then rcv_buf_items k else add_mset seg (rcv_buf_items k))
         = rcv_buf_items k' + mset ms"
     "k_rcv_nxt k' = k_rcv_nxt k + of_nat (length ms)"
     "length (rcv_queue_list k') < unat (k_rcv_wnd k) \<longrightarrow> k_rcv_nxt k' \<notin> sg_sn ` set_mset (rcv_buf_items k')"
     "\<exists>q h n. k' = k\<lparr>k_rcv_queue := q, k_rcv_buf := h, k_rcv_nxt := n\<rparr>"
    using kcp_parse_data_inside[OF inv len win] by blast
  let ?new = "if heap_Has (k_rcv_buf k) (sg_sn seg) then rcv_buf_items k else add_mset seg (rcv_buf_items k)"
  have mem: "x \<in># ?new \<longleftrightarrow> x \<in> set ms \<or> x \<in># rcv_buf_items k'" for x unfolding k'(4) by auto
  have new: "sg_sn x < N" if "x \<in> set ms \<or> x \<in># rcv_buf_items k'" for x
    using that[folded mem] N(3,4) by (auto split: if_splits)
  have old: "x \<in> set ms \<or> x \<in># rcv_buf_items k'" if "x \<in># rcv_buf_items k" for x
    using that unfolding mem[symmetric] by simp
  note gb = grown_below[OF k'(2,3,5) N(1,2)]
  have mono: "k_rcv_nxt k \<le> k_rcv_nxt k'" "k_rcv_nxt k' \<le> N" "\<And>sn. got k sn \<Longrightarrow> got k' sn"
      "\<And>x. x \<in> set ms \<Longrightarrow> got k' (sg_sn x)"
    using gb new old by blast+
  have heap: "heap_inv (k_rcv_nxt k) (k_rcv_buf k)" using inv by (auto simp: rcv_inv_def)
  have "got k' (sg_sn seg)"
  proof (cases "heap_Has (k_rcv_buf k) (sg_sn seg)")
    case True
    then have "got k (sg_sn seg)" using heap_Has_iff[OF heap] by (simp add: got_def)
    then show ?thesis by (rule mono(3))
  next
    case False
    then have "seg \<in> set ms \<or> seg \<in># rcv_buf_items k'" unfolding mem[symmetric] by simp
    then show ?thesis using mono(4) by (auto simp: got_def)
  qed
  moreover have "grows k k'" "rcv_gap k'"
    using mono(1,3) k'(6,7) by (auto simp: grows_def rcv_gap_def)
  ultimately show ?thesis using k'(1,2,7) mono(2) new by blast
qed

lemma ack_in_mono: "grows k k' \<Longrightarrow> ack_in k s \<Longrightarrow> ack_in k' s"
  by (auto simp: grows_def ack_in_def)

lemma rcv_part_grow:
  assumes rcv: "rcv_part N k" and gr: "grows k k'" and "k_rcv_nxt k' \<le> N" and "\<forall>x \<in># rcv_buf_items k'. sg_sn x < N"
    and "rcv_gap k'" and "\<And>a. a \<in> set (k_acklist k') \<Longrightarrow> a \<in> set (k_acklist k) \<or> got k' (ack_sn a)"
    and out: "k_output k' = k_output k @ ds" "\<And>d. d \<in> set ds \<Longrightarrow> datagram_ok (unat (k_mtu k)) (ack_in k') d"
  shows "rcv_part N k'"
proof -
  have "datagram_ok (unat (k_mtu k')) (ack_in k') d" if "d \<in> set (k_output k')" for d
  proof (cases "d \<in> set ds")
    case False
    then have "datagram_ok (unat (k_mtu k)) (ack_in k) d" using that out(1) rcv by (simp add: rcv_part_def)
    then show ?thesis using datagram_ok_mono ack_in_mono[OF gr] gr by (simp add: grows_def)
  qed (use out(2) gr in \<open>simp add: grows_def\<close>)
  moreover have "got k' (ack_sn a)" if "a \<in> set (k_acklist k')" for a
    using assms(6)[OF that] rcv gr by (auto simp: rcv_part_def grows_def)
  ultimately show ?thesis using assms(3-5) by (simp add: rcv_part_def)
qed

lemma snd_part_frame [simp]:
  "snd_part R G (k\<lparr>k_rcv_queue := q, k_rcv_buf := h, k_rcv_nxt := n\<rparr>) = snd_part R G k"
  "snd_part R G (k\<lparr>k_acklist := as\<rparr>) = snd_part R G k" "snd_part R G (k\<lparr>k_probe := p\<rparr>) = snd_part R G k"
  by (simp_all add: snd_part_def snd_start_def)

lemma push_step:
  assumes step: "in_step N R G k" and N: "unat N < 2 ^ 31" and sn: "sg_sn seg < N"
    and len: "length (sg_data seg) \<le> unat (k_mtu k)" and win: "itimediff (sg_sn seg) (k_rcv_nxt k + k_rcv_wnd k) < 0"
  shows "\<exists>k'. (let k2 = kcp_ack_push (sg_sn seg) ts k
       in if itimediff (sg_sn seg) (k_rcv_nxt k2) \<ge> 0 then map_option snd (kcp_parse_data seg k2) else Some k2) = Some k'
    \<and> in_step N R G k' \<and> grows k k' \<and> k_snd_nxt k' = k_snd_nxt k \<and> got k' (sg_sn seg)"
proof -
  let ?k2 = "kcp_ack_push (sg_sn seg) ts k"
  have inv: "kcp_inv k" and rcv: "rcv_part N k" and snd: "snd_part R G k" using step by (simp_all add: in_step_def)
  have inv2: "kcp_inv ?k2" using inv by (rule ack_push_inv)
  have g2: "grows k ?k2" "got ?k2 = got k" by (auto simp: kcp_ack_push_def grows_def got_def)
  show ?thesis
  proof (cases "itimediff (sg_sn seg) (k_rcv_nxt k) \<ge> 0")
    case True
    have "\<exists>k'. kcp_parse_data seg ?k2 = Some (False, k') \<and> kcp_inv k'
      \<and> (\<exists>q h n. k' = ?k2\<lparr>k_rcv_queue := q, k_rcv_buf := h, k_rcv_nxt := n\<rparr>) \<and> grows ?k2 k' \<and> k_rcv_nxt k' \<le> N
      \<and> (\<forall>x \<in># rcv_buf_items k'. sg_sn x < N) \<and> rcv_gap k' \<and> got k' (sg_sn seg)"
      by (rule parse_data_step[OF inv2 _ _ N _ _ sn])
        (use len win True rcv in \<open>auto simp: kcp_ack_push_def rcv_part_def\<close>)
    then obtain k' q h n where k': "kcp_parse_data seg ?k2 = Some (False, k')" "kcp_inv k'"
       "k' = ?k2\<lparr>k_rcv_queue := q, k_rcv_buf := h, k_rcv_nxt := n\<rparr>" "grows ?k2 k'" "k_rcv_nxt k' \<le> N"
       "\<forall>x \<in># rcv_buf_items k'. sg_sn x < N" "rcv_gap k'" "got k' (sg_sn seg)" by blast
    have gr: "grows k k'" by (rule grows_trans[OF g2(1) k'(4)])
    have same: "k_snd_nxt k' = k_snd_nxt k" "k_output k' = k_output k @ []"
      "k_acklist k' = k_acklist k @ [\<lparr>ack_sn = sg_sn seg, ack_ts = ts\<rparr>]"
      by (simp_all add: k'(3) kcp_ack_push_def)
    have "rcv_part N k'"
      by (rule rcv_part_grow[OF rcv gr k'(5-7) _ same(2)]) (use same(3) k'(8) in auto)
    moreover have "snd_part R G k'" using snd by (simp add: k'(3) kcp_ack_push_def)
    ultimately have "in_step N R G k'" using k'(2) by (simp add: in_step_def)
    then show ?thesis using True k'(1,8) gr same(1) by (simp add: kcp_ack_push_def Let_def)
  next
    case False
    have "unat (sg_sn seg) < 2 ^ 31" "unat (k_rcv_nxt k) < 2 ^ 31"
      using sn rcv N by (simp_all add: rcv_part_def word_less_nat_alt word_le_nat_alt)
    from itimediff_small[OF this] False have "got k (sg_sn seg)" by (simp add: got_def word_less_def)
    then have "got ?k2 (sg_sn seg)" by (simp add: g2(2))
    moreover have "rcv_part N ?k2"
      by (rule rcv_part_grow[OF rcv g2(1), where ds = "[]"])
        (use rcv \<open>got k (sg_sn seg)\<close> in \<open>auto simp: kcp_ack_push_def rcv_part_def rcv_gap_def got_def\<close>)
    ultimately show ?thesis
      using False inv2 snd g2(1) by (simp add: in_step_def kcp_ack_push_def Let_def)
  qed
qed

lemma input_segment_step:
  assumes step: "in_step N R G k" and bounds: "unat N < 2 ^ 31" "unat R < 2 ^ 31" "unat (k_snd_nxt k) < 2 ^ 31"
    and fair: "fair_seg N R G seg" and len: "length (sg_data seg) \<le> unat (k_mtu k)"
  shows "\<exists>k' v. input_segment regular seg (k, w) = Some (k', v) \<and> in_step N R G k' \<and> grows k k'
    \<and> k_snd_nxt k' = k_snd_nxt k
    \<and> (sg_cmd seg = IKCP_CMD_PUSH \<longrightarrow> itimediff (sg_sn seg) (k_rcv_nxt k + k_rcv_wnd k) < 0 \<longrightarrow> got k' (sg_sn seg))
    \<and> (R \<le> k_snd_nxt k \<longrightarrow> sg_una seg \<le> snd_start k')"
proof -
  obtain flag latest slides where w: "w = (flag, latest, slides)" by (metis prod.collapse)
  let ?k1 = "input_una regular seg k"
  have f: "sg_una seg \<le> R" "sg_cmd seg = IKCP_CMD_ACK \<Longrightarrow> G (sg_sn seg)" "sg_cmd seg = IKCP_CMD_PUSH \<Longrightarrow> sg_sn seg < N"
    using fair by (simp_all add: fair_seg_def)
  note k1 = input_una_step[OF step bounds(2,3) f(1), of regular]
  then have s1: "in_step N R G ?k1" and g1: "grows k ?k1" by simp_all
  have una: "sg_una seg \<le> snd_start k'" if "grows ?k1 k'" "R \<le> k_snd_nxt k" for k'
    using k1 that by (auto simp: grows_def)
  obtain b u where fr: "?k1 = k\<lparr>k_rmt_wnd := (if regular then ucast (sg_wnd seg) else k_rmt_wnd k), k_snd_buf := b, k_snd_una := u\<rparr>"
    using input_una_frame by blast
  have same: "k_rcv_nxt ?k1 = k_rcv_nxt k" "k_rcv_wnd ?k1 = k_rcv_wnd k" "k_mtu ?k1 = k_mtu k" by (simp_all add: fr)
  consider (ack) "sg_cmd seg = IKCP_CMD_ACK"
    | (push) "sg_cmd seg = IKCP_CMD_PUSH" "itimediff (sg_sn seg) (k_rcv_nxt k + k_rcv_wnd k) < 0"
    | (other) "sg_cmd seg \<noteq> IKCP_CMD_ACK" "\<not> (sg_cmd seg = IKCP_CMD_PUSH \<and> itimediff (sg_sn seg) (k_rcv_nxt k + k_rcv_wnd k) < 0)"
    by blast
  then show ?thesis
  proof cases
    case ack
    then show ?thesis
      unfolding w input_segment_eq Let_def
      using acks_step[OF s1 f(2)[OF ack], of "sg_ts seg"] k1 grows_trans[OF g1] una ack by auto
  next
    case push
    obtain k' where k': "(let k2 = kcp_ack_push (sg_sn seg) (sg_ts seg) ?k1
         in if itimediff (sg_sn seg) (k_rcv_nxt k2) \<ge> 0 then map_option snd (kcp_parse_data seg k2) else Some k2) = Some k'"
        "in_step N R G k'" "grows ?k1 k'" "k_snd_nxt k' = k_snd_nxt ?k1" "got k' (sg_sn seg)"
      using push_step[OF s1 bounds(1) f(3)[OF push(1)], of "sg_ts seg"] len push(2) same by auto
    have "\<exists>v. input_segment regular seg (k, w) = Some (k', v)"
      unfolding w input_segment_eq Let_def using k'(1) push same by (auto simp: Let_def split: if_splits)
    then show ?thesis using k' k1 grows_trans[OF g1 k'(3)] una[OF k'(3)] by auto
  next
    case other
    have probe: "in_step N R G (?k1\<lparr>k_probe := p\<rparr>)" "grows k (?k1\<lparr>k_probe := p\<rparr>)" for p
      using s1 g1 by (simp_all add: in_step_def kcp_inv_def grows_def got_def)
    moreover have "grows ?k1 (?k1\<lparr>k_probe := p\<rparr>)" for p by (simp add: grows_def got_def)
    ultimately show ?thesis
      unfolding w input_segment_eq Let_def using k1 other same una by auto
  qed
qed

section \<open>Taking in a datagram\<close>

lemma in_window:
  assumes "unat sn < unat nxt + unat wnd" and "unat sn < 2 ^ 31" and "unat nxt < 2 ^ 31" and "unat wnd < 2 ^ 31"
  shows "itimediff sn (nxt + wnd) < 0 \<or> sn < nxt"
proof (cases "sn < nxt")
  case False
  then have "sn_off nxt sn = unat sn - unat nxt" by (simp add: sn_off_def unat_sub not_less)
  moreover have "sn_off nxt (nxt + wnd) = unat wnd" by (simp add: sn_off_def)
  ultimately have "itimediff sn (nxt + wnd) = int (unat sn - unat nxt) - int (unat wnd)"
    using itimediff_off[of nxt sn "nxt + wnd"] assms by (simp del: of_nat_diff)
  moreover have "unat sn - unat nxt < unat wnd" using assms(1) False by (simp add: word_less_nat_alt)
  ultimately show ?thesis by linarith
qed simp

lemma input_segments_step:
  assumes "in_step N R G k" and bounds: "unat N < 2 ^ 31" "unat R < 2 ^ 31" "unat (k_snd_nxt k) < 2 ^ 31"
    and "\<forall>seg \<in> set segs. fair_seg N R G seg \<and> length (sg_data seg) \<le> unat (k_mtu k)"
  shows "\<exists>k' w'. input_segments regular segs (k, w) = Some (k', w') \<and> in_step N R G k' \<and> grows k k'
    \<and> k_snd_nxt k' = k_snd_nxt k
    \<and> (\<forall>seg \<in> set segs. sg_cmd seg = IKCP_CMD_PUSH \<longrightarrow> unat (sg_sn seg) < unat (k_rcv_nxt k) + unat (k_rcv_wnd k)
         \<longrightarrow> got k' (sg_sn seg))
    \<and> (R \<le> k_snd_nxt k \<longrightarrow> (\<forall>seg \<in> set segs. sg_una seg \<le> snd_start k'))"
  using assms(1,4,5)
proof (induction segs arbitrary: k w)
  case Nil
  then show ?case by (cases w rule: prod_cases3) simp
next
  case (Cons seg segs)
  have fair: "fair_seg N R G seg" "length (sg_data seg) \<le> unat (k_mtu k)" using Cons.prems(3) by simp_all
  obtain k1 v where k1: "input_segment regular seg (k, w) = Some (k1, v)" "in_step N R G k1" "grows k k1"
      "k_snd_nxt k1 = k_snd_nxt k"
      "sg_cmd seg = IKCP_CMD_PUSH \<longrightarrow> itimediff (sg_sn seg) (k_rcv_nxt k + k_rcv_wnd k) < 0 \<longrightarrow> got k1 (sg_sn seg)"
      "R \<le> k_snd_nxt k \<longrightarrow> sg_una seg \<le> snd_start k1"
    using input_segment_step[OF Cons.prems(1) bounds(1,2) Cons.prems(2) fair, of regular w] by blast
  obtain k' w' where k': "input_segments regular segs (k1, v) = Some (k', w')" "in_step N R G k'" "grows k1 k'"
      "k_snd_nxt k' = k_snd_nxt k1"
      "\<forall>seg \<in> set segs. sg_cmd seg = IKCP_CMD_PUSH \<longrightarrow> unat (sg_sn seg) < unat (k_rcv_nxt k1) + unat (k_rcv_wnd k1)
         \<longrightarrow> got k' (sg_sn seg)"
      "R \<le> k_snd_nxt k1 \<longrightarrow> (\<forall>seg \<in> set segs. sg_una seg \<le> snd_start k')"
    using Cons.IH[OF k1(2), of v] Cons.prems(2,3) k1(3,4) by (auto simp: grows_def)
  have "got k' (sg_sn seg)"
    if "sg_cmd seg = IKCP_CMD_PUSH" "unat (sg_sn seg) < unat (k_rcv_nxt k) + unat (k_rcv_wnd k)"
  proof -
    have "unat (sg_sn seg) < 2 ^ 31" "unat (k_rcv_nxt k) < 2 ^ 31" "unat (k_rcv_wnd k) < 2 ^ 31"
      using fair(1) that(1) bounds(1) Cons.prems(1)
      by (auto simp: fair_seg_def in_step_def rcv_part_def word_less_nat_alt word_le_nat_alt cfg_inv_def)
    from in_window[OF that(2) this] consider "itimediff (sg_sn seg) (k_rcv_nxt k + k_rcv_wnd k) < 0"
      | "got k (sg_sn seg)" by (auto simp: got_def)
    then show ?thesis using k1(3,5) that(1) k'(3) by cases (auto simp: grows_def)
  qed
  moreover have "got k' (sg_sn s)" if "s \<in> set segs" "sg_cmd s = IKCP_CMD_PUSH"
      "unat (sg_sn s) < unat (k_rcv_nxt k) + unat (k_rcv_wnd k)" for s
    using k'(5) that k1(3) by (auto simp: grows_def word_le_nat_alt)
  moreover have "sg_una s \<le> snd_start k'" if "s \<in> set (seg # segs)" "R \<le> k_snd_nxt k" for s
    using that k1(4,6) k'(6) k'(3) by (auto simp: grows_def)
  ultimately show ?case
    using k1(1,4) k'(1,2,4) grows_trans[OF k1(3) k'(3)] by (intro exI[of _ k'] exI[of _ w']) auto
qed

lemma sends_step:
  assumes step: "in_step N R G k" and R: "unat R < 2 ^ 31" and s: "sends_ok k k'"
    and small: "unat (k_snd_nxt k) + length (snd_queue_list k) < 2 ^ 31"
  shows "in_step N R G k' \<and> grows k k'"
proof -
  have inv: "kcp_inv k" and rcv: "rcv_part N k" and snd: "snd_part R G k" using step by (simp_all add: in_step_def)
  obtain m ds where m: "m \<le> length (snd_queue_list k)" "snd_queue_list k' = drop m (snd_queue_list k)"
      "k_snd_nxt k' = k_snd_nxt k + of_nat m"
      "list_all2 same_payload (snd_buf_list k @ map2 (stamp (k_conv k)) (take m (snd_queue_list k)) (sn_run (k_snd_nxt k) m))
         (snd_buf_list k')"
      "k_output k' = k_output k @ ds"
      "\<forall>d \<in> set ds. datagram_ok (unat (k_mtu k)) (flush_seg k (snd_buf_list k')) d"
    using s unfolding sends_ok_def by blast
  have inv': "kcp_inv k'" and fr: "k_rcv_queue k' = k_rcv_queue k" "k_rcv_buf k' = k_rcv_buf k" "k_rcv_nxt k' = k_rcv_nxt k"
      "k_conv k' = k_conv k" "k_mtu k' = k_mtu k" "k_rcv_wnd k' = k_rcv_wnd k" "set (k_acklist k') \<subseteq> set (k_acklist k)"
    using s by (simp_all add: sends_ok_def)
  have nxt: "unat (k_snd_nxt k') = unat (k_snd_nxt k) + m"
    using unat_plus_small[of "k_snd_nxt k" m] small m(1,3) by simp
  have got: "got k' = got k" by (simp add: got_def fun_eq_iff fr)
  have len: "length (snd_buf_list k') = length (snd_buf_list k) + m"
    using list_all2_lengthD[OF m(4)] m(1) by simp
  then have start: "snd_start k' = snd_start k" by (simp add: snd_start_def m(3))
  have gr: "grows k k'" using nxt fr by (simp add: grows_def got start word_le_nat_alt)
  have start': "snd_start k' \<le> R" using snd start by (simp add: snd_part_def)
  have acked: "G (sg_sn y)" if y: "y \<in> set (snd_buf_list k')" "sg_acked y = 1" for y
  proof -
    obtain x where x: "x \<in> set (snd_buf_list k @ map2 (stamp (k_conv k)) (take m (snd_queue_list k)) (sn_run (k_snd_nxt k) m))"
        "same_payload x y" using list_all2_right[OF m(4) y(1)] by blast
    have "x \<in> set (snd_buf_list k)"
    proof (rule ccontr)
      assume "x \<notin> set (snd_buf_list k)"
      then obtain q i where "q \<in> set (take m (snd_queue_list k))" "x = stamp (k_conv k) q i"
        using x(1) by (auto dest: set_zip_leftD)
      then show False using snd x(2) y(2) by (auto simp: snd_part_def stamp_def same_payload_def dest: in_set_takeD)
    qed
    then show ?thesis using snd x(2) y(2) by (simp add: snd_part_def same_payload_def)
  qed
  have sns: "sg_sn x < k_snd_nxt k'" if "x \<in> set (snd_buf_list k')" for x
    using start_nat(2)[OF inv' start' R that] by simp
  have dg: "datagram_ok (unat (k_mtu k)) (\<lambda>s. ack_in k' s \<and> push_below (k_snd_nxt k') s) d" if "d \<in> set ds" for d
  proof (rule datagram_ok_mono)
    show "datagram_ok (unat (k_mtu k)) (flush_seg k (snd_buf_list k')) d" using m(6) that by blast
    show "ack_in k' s \<and> push_below (k_snd_nxt k') s" if "flush_seg k (snd_buf_list k') s" for s
      using that rcv sns by (auto simp: flush_seg_def ack_in_def push_below_def fr(3) got rcv_part_def same_payload_def)
  qed
  have acks: "datagram_ok (unat (k_mtu k)) (ack_in k') d" if "d \<in> set ds" for d
    using datagram_ok_mono[OF dg[OF that]] by blast
  have "rcv_part N k'"
    by (rule rcv_part_grow[OF rcv gr _ _ _ _ m(5) acks])
      (use rcv fr in \<open>auto simp: rcv_part_def rcv_gap_def\<close>)
  moreover have "datagram_ok (unat (k_mtu k')) (push_below (k_snd_nxt k')) d" if "d \<in> set (k_output k')" for d
  proof (cases "d \<in> set ds")
    case True
    then show ?thesis using datagram_ok_mono[OF dg[OF True]] unfolding fr(5) by blast
  next
    case False
    then have "datagram_ok (unat (k_mtu k)) (push_below (k_snd_nxt k)) d" using that m(5) snd by (simp add: snd_part_def)
    moreover have "push_below (k_snd_nxt k) s \<Longrightarrow> push_below (k_snd_nxt k') s" for s
      using gr by (auto simp: push_below_def grows_def)
    ultimately show ?thesis unfolding fr(5) by (rule datagram_ok_mono)
  qed
  ultimately show ?thesis
    using inv' start' acked gr snd m(2) by (auto simp: in_step_def snd_part_def dest: in_set_dropD)
qed

lemma input_step:
  assumes step: "in_step N R G k" and bounds: "unat N < 2 ^ 31" "unat R < 2 ^ 31"
    and small: "unat (k_snd_nxt k) + length (snd_queue_list k) < 2 ^ 31" and len: "length d \<le> unat (k_mtu k)"
    and fair: "\<forall>seg \<in> set (fst (input_parse (k_conv k) d)). fair_seg N R G seg"
    and input: "kcp_Input clk d regular ackNoDelay k = Some (code, k')"
  shows "in_step N R G k' \<and> grows k k' \<and> (\<exists>ds. rcv_queue_list k' = rcv_queue_list k @ ds
      \<and> k_rcv_nxt k' = k_rcv_nxt k + of_nat (length ds))
    \<and> (\<forall>seg \<in> set (fst (input_parse (k_conv k) d)). sg_cmd seg = IKCP_CMD_PUSH
         \<longrightarrow> unat (sg_sn seg) < unat (k_rcv_nxt k) + unat (k_rcv_wnd k) \<longrightarrow> got k' (sg_sn seg))
    \<and> (R \<le> k_snd_nxt k \<longrightarrow> (\<forall>seg \<in> set (fst (input_parse (k_conv k) d)). sg_una seg \<le> snd_start k'))"
proof (cases "length d < IKCP_OVERHEAD")
  case True
  then have "k' = k" "fst (input_parse (k_conv k) d) = []"
    using input by (simp_all add: kcp_Input_short input_parse.simps[of _ d])
  then show ?thesis using step by simp
next
  case False
  have inv: "kcp_inv k" using step by (simp add: in_step_def)
  let ?segs = "fst (input_parse (k_conv k) d)"
  have long: "IKCP_OVERHEAD \<le> length d" using False by simp
  obtain k1 w k'' where k1: "input_segments regular ?segs (k, False, 0, False) = Some (k1, w)"
      "kcp_Input clk d regular ackNoDelay k = Some (snd (input_parse (k_conv k) d), k'')" "sends_ok k1 k''"
    using kcp_Input_segments[OF inv len long, of regular clk ackNoDelay] by blast
  have k'': "k'' = k'" using k1(2) input by simp
  have lens: "\<forall>seg \<in> set ?segs. length (sg_data seg) \<le> unat (k_mtu k)"
    using input_parse_data[of "k_conv k" d] len by (auto intro: order_trans)
  have nxt: "unat (k_snd_nxt k) < 2 ^ 31" using small by simp
  have s1: "in_step N R G k1" "grows k k1" "k_snd_nxt k1 = k_snd_nxt k"
      "\<forall>seg \<in> set ?segs. sg_cmd seg = IKCP_CMD_PUSH \<longrightarrow> unat (sg_sn seg) < unat (k_rcv_nxt k) + unat (k_rcv_wnd k)
         \<longrightarrow> got k1 (sg_sn seg)"
      "R \<le> k_snd_nxt k \<longrightarrow> (\<forall>seg \<in> set ?segs. sg_una seg \<le> snd_start k1)"
  proof -
    have "\<forall>seg \<in> set ?segs. fair_seg N R G seg \<and> length (sg_data seg) \<le> unat (k_mtu k)" using fair lens by blast
    from input_segments_step[OF step bounds nxt this, of regular "(False, 0, False)"]
    obtain kk ww where kk: "input_segments regular ?segs (k, False, 0, False) = Some (kk, ww)" "in_step N R G kk"
        "grows k kk" "k_snd_nxt kk = k_snd_nxt k"
        "\<forall>seg \<in> set ?segs. sg_cmd seg = IKCP_CMD_PUSH \<longrightarrow> unat (sg_sn seg) < unat (k_rcv_nxt k) + unat (k_rcv_wnd k)
           \<longrightarrow> got kk (sg_sn seg)"
        "R \<le> k_snd_nxt k \<longrightarrow> (\<forall>seg \<in> set ?segs. sg_una seg \<le> snd_start kk)" by blast
    have "kk = k1" using kk(1) k1(1) by simp
    then show "in_step N R G k1" "grows k k1" "k_snd_nxt k1 = k_snd_nxt k"
      "\<forall>seg \<in> set ?segs. sg_cmd seg = IKCP_CMD_PUSH \<longrightarrow> unat (sg_sn seg) < unat (k_rcv_nxt k) + unat (k_rcv_wnd k)
         \<longrightarrow> got k1 (sg_sn seg)"
      "R \<le> k_snd_nxt k \<longrightarrow> (\<forall>seg \<in> set ?segs. sg_una seg \<le> snd_start k1)" using kk by simp_all
  qed
  have ok: "input_ok (\<lambda>_. True) k k1"
  proof -
    obtain kk ww where kk: "input_segments regular ?segs (k, False, 0, False) = Some (kk, ww)" "input_ok (\<lambda>_. True) k kk"
      using input_segments_ok[OF inv lens, of "\<lambda>_. True" regular "(False, 0, False)"] by blast
    then show ?thesis using k1(1) by simp
  qed
  then have "k_snd_queue k1 = k_snd_queue k" by (simp add: input_ok_def input_frame_def)
  then have fin: "in_step N R G k'" "grows k1 k'"
    using sends_step[OF s1(1) bounds(2) k1(3)] small s1(3) k'' by simp_all
  obtain ds where ds: "rcv_queue_list k1 = rcv_queue_list k @ ds" "k_rcv_nxt k1 = k_rcv_nxt k + of_nat (length ds)"
    using ok unfolding input_ok_def rcv_grows_def by blast
  have "rcv_queue_list k' = rcv_queue_list k1" "k_rcv_nxt k' = k_rcv_nxt k1"
    using k1(3) k'' by (simp_all add: sends_ok_def)
  then have "rcv_queue_list k' = rcv_queue_list k @ ds \<and> k_rcv_nxt k' = k_rcv_nxt k + of_nat (length ds)"
    using ds by simp
  moreover have "\<forall>seg \<in> set ?segs. sg_cmd seg = IKCP_CMD_PUSH \<longrightarrow> unat (sg_sn seg) < unat (k_rcv_nxt k) + unat (k_rcv_wnd k)
         \<longrightarrow> got k' (sg_sn seg)"
    using s1(4) fin(2) unfolding grows_def by blast
  moreover have "R \<le> k_snd_nxt k \<longrightarrow> (\<forall>seg \<in> set ?segs. sg_una seg \<le> snd_start k')"
    using s1(5) fin(2) unfolding grows_def by (meson order_trans)
  ultimately show ?thesis using fin(1) grows_trans[OF s1(2) fin(2)] by blast
qed

section \<open>The other operations\<close>

text \<open>Reading moves segments that are in order from the out-of-order buffer to the queue.\<close>

lemma read_step:
  assumes step: "in_step N R G k" and N: "unat N < 2 ^ 31"
    and ms: "kcp_inv k'" "rcv_queue_list k' = drop l (rcv_queue_list k) @ ms"
      "rcv_buf_items k = rcv_buf_items k' + mset ms" "k_rcv_nxt k' = k_rcv_nxt k + of_nat (length ms)"
    and ex: "\<exists>q h n p. k' = k\<lparr>k_rcv_queue := q, k_rcv_buf := h, k_rcv_nxt := n, k_probe := p\<rparr>"
    and gap: "length (rcv_queue_list k') < unat (k_rcv_wnd k) \<longrightarrow> k_rcv_nxt k' \<notin> sg_sn ` set_mset (rcv_buf_items k')"
  shows "in_step N R G k' \<and> grows k k'"
proof -
  have rcv: "rcv_part N k" and snd: "snd_part R G k" using step by (simp_all add: in_step_def)
  obtain q h n p where fr: "k' = k\<lparr>k_rcv_queue := q, k_rcv_buf := h, k_rcv_nxt := n, k_probe := p\<rparr>"
    using ex by blast
  have items: "x \<in># rcv_buf_items k \<longleftrightarrow> x \<in> set ms \<or> x \<in># rcv_buf_items k'" for x unfolding ms(3) by auto
  have N': "k_rcv_nxt k \<le> N" "\<forall>x \<in># rcv_buf_items k. sg_sn x < N" using rcv by (simp_all add: rcv_part_def)
  have below: "sg_sn x < N" if "x \<in> set ms" for x using N'(2) items that by blast
  have old: "x \<in> set ms \<or> x \<in># rcv_buf_items k'" if "x \<in># rcv_buf_items k" for x using items that by blast
  note mono = grown_below[OF ms(1,2,4) N N'(1) below old]
  have "grows k k'" if "\<And>sn. got k sn \<Longrightarrow> got k' sn" "k_rcv_nxt k \<le> k_rcv_nxt k'"
    using that unfolding grows_def by (simp add: fr)
  then have gr: "grows k k'" using mono(1,4) by blast
  have "rcv_part N k'"
    by (rule rcv_part_grow[OF rcv gr mono(2) _ _ _, where ds = "[]"])
      (use N'(2) items gap fr in \<open>auto simp: rcv_gap_def\<close>)
  moreover have "snd_part R G k'" using snd unfolding fr by (simp add: snd_part_def snd_start_def)
  ultimately show ?thesis using ms(1) gr by (simp add: in_step_def)
qed

lemma recv_step:
  assumes step: "in_step N R G k" and N: "unat N < 2 ^ 31" and recv: "kcp_Recv buf k = Some (n, buf', k')"
  shows "in_step N R G k' \<and> grows k k'"
proof (cases "0 \<le> kcp_PeekSize k \<and> kcp_PeekSize k \<le> int (length buf)")
  case False
  then consider "kcp_PeekSize k < 0" | "0 \<le> kcp_PeekSize k" "int (length buf) < kcp_PeekSize k" by linarith
  then have "k' = k"
  proof cases
    case 1
    show ?thesis using kcp_Recv_errors(1)[OF 1, of buf] recv by simp
  next
    case 2
    show ?thesis using kcp_Recv_errors(2)[OF 2] recv by simp
  qed
  then show ?thesis using step by simp
next
  case True
  have inv: "kcp_inv k" using step by (simp add: in_step_def)
  obtain k'' ms where kk: "kcp_Recv buf k = Some (kcp_PeekSize k,
        msg_bytes (next_msg (rcv_queue_list k)) @ drop (nat (kcp_PeekSize k)) buf, k'')"
      "kcp_inv k''" "rcv_queue_list k'' = drop (length (next_msg (rcv_queue_list k))) (rcv_queue_list k) @ ms"
      "rcv_buf_items k = rcv_buf_items k'' + mset ms" "k_rcv_nxt k'' = k_rcv_nxt k + of_nat (length ms)"
      "\<exists>q h n p. k'' = k\<lparr>k_rcv_queue := q, k_rcv_buf := h, k_rcv_nxt := n, k_probe := p\<rparr>"
      "length (rcv_queue_list k'') < unat (k_rcv_wnd k) \<longrightarrow> k_rcv_nxt k'' \<notin> sg_sn ` set_mset (rcv_buf_items k'')"
    using kcp_Recv_correct[OF inv, of buf] True by blast
  have eq: "k'' = k'" using kk(1) recv by simp
  show ?thesis using read_step[OF step N kk(2-7)] unfolding eq .
qed

text \<open>Queueing a message.\<close>

lemma queue_step:
  assumes step: "in_step N R G k" and inv: "kcp_inv (k\<lparr>k_snd_queue := q\<rparr>)"
    and q: "rb_list q = snd_queue_list k @ fragments mss n msg"
  shows "in_step N R G (k\<lparr>k_snd_queue := q\<rparr>) \<and> grows k (k\<lparr>k_snd_queue := q\<rparr>)"
proof -
  have rcv: "rcv_part N k" and snd: "snd_part R G k" using step by (simp_all add: in_step_def)
  have "\<forall>x \<in> set (fragments mss n m). sg_acked x \<noteq> 1" for m
    by (induction mss n m rule: fragments.induct) (auto simp: zero_seg_def)
  then have "snd_part R G (k\<lparr>k_snd_queue := q\<rparr>)" using snd q by (auto simp: snd_part_def)
  moreover have "rcv_part N (k\<lparr>k_snd_queue := q\<rparr>)" "grows k (k\<lparr>k_snd_queue := q\<rparr>)"
    using rcv by (simp_all add: rcv_part_def rcv_gap_def ack_in_def[abs_def] got_def grows_def)
  ultimately show ?thesis using inv by (simp add: in_step_def)
qed

lemma send_step:
  assumes step: "in_step N R G k" and stream: "k_stream k = 0" and send: "kcp_Send msg k = Some (code, k')"
  shows "in_step N R G k' \<and> grows k k'"
proof (cases "code = 0")
  case False
  have inv: "kcp_inv k" using step by (simp add: in_step_def)
  have "k' = k"
  proof (cases "msg = []")
    case True
    then show ?thesis using send by (simp add: kcp_Send_empty)
  next
    case nonempty: False
    then show ?thesis
    proof (cases "255 * unat (k_mss k) < length msg")
      case True
      then show ?thesis using kcp_Send_message(1)[OF inv stream _ True] nonempty send by simp
    next
      case fits: False
      then obtain q where "kcp_Send msg k = Some (0, k\<lparr>k_snd_queue := q\<rparr>)"
        using kcp_Send_message(2)[OF inv stream] nonempty by force
      then show ?thesis using False send by simp
    qed
  qed
  then show ?thesis using step by simp
next
  case True
  have inv: "kcp_inv k" using step by (simp add: in_step_def)
  have msg: "0 < length msg" using True send kcp_Send_empty by (cases "msg = []") auto
  have "length msg \<le> 255 * unat (k_mss k)" using True send kcp_Send_message(1)[OF inv stream msg] by fastforce
  then obtain q where q0: "kcp_Send msg k = Some (0, k\<lparr>k_snd_queue := q\<rparr>)" "kcp_inv (k\<lparr>k_snd_queue := q\<rparr>)"
      "rb_list q = snd_queue_list k @ fragments (unat (k_mss k)) (frag_count (unat (k_mss k)) msg) msg"
    using kcp_Send_message(2)[OF inv stream msg] by blast
  have "k' = k\<lparr>k_snd_queue := q\<rparr>" using q0(1) send by simp
  then show ?thesis using queue_step[OF step q0(2,3)] by simp
qed

lemma nodelay_step:
  assumes "in_step N R G k"
  shows "in_step N R G (snd (kcp_NoDelay nodelay interval resend nc k)) \<and> grows k (snd (kcp_NoDelay nodelay interval resend nc k))"
proof -
  obtain nd mr iv fr n where k': "snd (kcp_NoDelay nodelay interval resend nc k) =
     k\<lparr>k_nodelay := nd, k_rx_minrto := mr, k_interval := iv, k_fastresend := fr, k_nocwnd := n\<rparr>"
    using kcp_NoDelay_fields by blast
  show ?thesis
    using assms
    by (simp add: k' in_step_def kcp_inv_def rcv_part_def snd_part_def snd_start_def rcv_gap_def ack_in_def[abs_def]
        got_def grows_def)
qed

section \<open>Both ends of a session\<close>

text \<open>The other end may only move on, and what is promised about an end then still holds.\<close>

lemma in_step_mono:
  assumes "in_step N R G k" and "N \<le> N'" and "R \<le> R'" and "\<And>sn. G sn \<Longrightarrow> G' sn"
  shows "in_step N' R' G' k"
  using assms by (auto simp: in_step_def rcv_part_def snd_part_def)

definition sync :: "KCP \<Rightarrow> KCP \<Rightarrow> bool" where
  "sync a b \<longleftrightarrow> in_step (k_snd_nxt b) (k_rcv_nxt b) (got b) a \<and> in_step (k_snd_nxt a) (k_rcv_nxt a) (got a) b"

lemma sync_sym: "sync a b \<Longrightarrow> sync b a"
  by (simp add: sync_def)

lemma sync_left:
  assumes "sync a b" and "in_step (k_snd_nxt b) (k_rcv_nxt b) (got b) a'" and "grows a a'"
  shows "sync a' b"
  using assms in_step_mono[of "k_snd_nxt a" "k_rcv_nxt a" "got a" b "k_snd_nxt a'" "k_rcv_nxt a'" "got a'"]
  by (simp add: sync_def grows_def)

lemma sync_fair:
  assumes sync: "sync a b" and d: "d \<in> set (k_output b)" and seg: "seg \<in> set (fst (input_parse conv d))"
  shows "fair_seg (k_snd_nxt b) (k_rcv_nxt b) (got b) seg"
proof -
  have mtu: "unat (k_mtu b) < 2 ^ 32" using unsigned_less[of "k_mtu b"] by simp
  have "datagram_ok (unat (k_mtu b)) (ack_in b) d" "datagram_ok (unat (k_mtu b)) (push_below (k_snd_nxt b)) d"
    using sync d by (auto simp: sync_def in_step_def rcv_part_def snd_part_def)
  then obtain s t where "ack_in b s" "seg = on_wire s" "push_below (k_snd_nxt b) t" "seg = on_wire t"
    using datagram_parse[OF _ mtu seg] by meson
  then show ?thesis
    by (cases s, cases t) (auto simp: fair_seg_def ack_in_def push_below_def on_wire_def)
qed

lemma log_bound:
  assumes "ep_ok e" and "length (e_log e) < 2 ^ 31"
  shows "unat (k_snd_nxt (e_k e)) + length (snd_queue_list (e_k e)) = length (e_log e)"
proof -
  obtain n where n: "n \<le> length (e_log e)" "k_snd_nxt (e_k e) = of_nat n" "map pl (snd_queue_list (e_k e)) = drop n (e_log e)"
    using assms(1) unfolding ep_ok_def snd_log_def by blast
  have "unat (of_nat n :: u32) = n" using n(1) assms(2) by (simp add: unat_of_nat)
  moreover have "length (snd_queue_list (e_k e)) = length (e_log e) - n" using arg_cong[OF n(3), of length] by simp
  ultimately show ?thesis using n(1,2) by simp
qed

text \<open>The numbers of a short session.\<close>

lemma sync_env:
  assumes ok: "session_ok e p" and sync: "sync (e_k e) (e_k p)"
    and short: "length (e_log e) < 2 ^ 31" "length (e_log p) < 2 ^ 31"
  shows "in_step (k_snd_nxt (e_k p)) (k_rcv_nxt (e_k p)) (got (e_k p)) (e_k e)" and "unat (k_snd_nxt (e_k p)) < 2 ^ 31"
    and "unat (k_rcv_nxt (e_k p)) < 2 ^ 31" and "unat (k_snd_nxt (e_k e)) + length (snd_queue_list (e_k e)) < 2 ^ 31"
    and "k_rcv_nxt (e_k p) \<le> k_snd_nxt (e_k e)"
proof -
  show "in_step (k_snd_nxt (e_k p)) (k_rcv_nxt (e_k p)) (got (e_k p)) (e_k e)" using sync by (simp add: sync_def)
  have inp: "in_step (k_snd_nxt (e_k e)) (k_rcv_nxt (e_k e)) (got (e_k e)) (e_k p)" and eps: "ep_ok e" "ep_ok p"
    using sync ok by (simp_all add: sync_def session_ok_def)
  show small: "unat (k_snd_nxt (e_k p)) < 2 ^ 31"
    "unat (k_snd_nxt (e_k e)) + length (snd_queue_list (e_k e)) < 2 ^ 31"
    using log_bound[OF eps(1) short(1)] log_bound[OF eps(2) short(2)] short by linarith+
  show le: "k_rcv_nxt (e_k p) \<le> k_snd_nxt (e_k e)" using inp by (simp add: in_step_def rcv_part_def)
  then show "unat (k_rcv_nxt (e_k p)) < 2 ^ 31" using small(2) unfolding word_le_nat_alt by linarith
qed

lemma sync_sends:
  assumes "session_ok e p" and "sync (e_k e) (e_k p)" and "length (e_log e) < 2 ^ 31" "length (e_log p) < 2 ^ 31"
    and "sends_ok (e_k e) k'"
  shows "sync k' (e_k p)"
  using sync_left[OF assms(2)] sends_step[OF sync_env(1,3)[OF assms(1-4)] assms(5) sync_env(4)[OF assms(1-4)]] by blast

lemma sync_queues:
  assumes "sync k p" and "kcp_inv (k\<lparr>k_snd_queue := q\<rparr>)" and "rb_list q = snd_queue_list k @ fragments mss n msg"
  shows "sync (k\<lparr>k_snd_queue := q\<rparr>) p"
  using sync_left[OF assms(1)] queue_step[OF _ assms(2,3)] assms(1) unfolding sync_def by blast

lemma sync_reads:
  assumes "session_ok e p" and "sync (e_k e) (e_k p)" and "length (e_log e) < 2 ^ 31" "length (e_log p) < 2 ^ 31"
    and "kcp_inv k'" and "rcv_queue_list k' = drop l (rcv_queue_list (e_k e)) @ ms"
    and "rcv_buf_items (e_k e) = rcv_buf_items k' + mset ms" and "k_rcv_nxt k' = k_rcv_nxt (e_k e) + of_nat (length ms)"
    and "\<exists>q h n p. k' = (e_k e)\<lparr>k_rcv_queue := q, k_rcv_buf := h, k_rcv_nxt := n, k_probe := p\<rparr>"
    and "length (rcv_queue_list k') < unat (k_rcv_wnd (e_k e)) \<longrightarrow> k_rcv_nxt k' \<notin> sg_sn ` set_mset (rcv_buf_items k')"
  shows "sync k' (e_k p)"
  using sync_left[OF assms(2)] read_step[OF sync_env(1,2)[OF assms(1-4)] assms(5-10)] by blast

text \<open>What a datagram achieves; nothing here depends on the datagrams sent before.\<close>

lemma sync_input:
  assumes ok: "session_ok e p" and sync: "sync (e_k e) (e_k p)"
    and short: "length (e_log e) < 2 ^ 31" "length (e_log p) < 2 ^ 31" and d: "d \<in> set (k_output (e_k p))"
    and input: "kcp_Input clk d regular ackNoDelay (e_k e) = Some (code, k')"
  shows "in_step (k_snd_nxt (e_k p)) (k_rcv_nxt (e_k p)) (got (e_k p)) k' \<and> grows (e_k e) k'
    \<and> (\<exists>ds. rcv_queue_list k' = rcv_queue_list (e_k e) @ ds \<and> k_rcv_nxt k' = k_rcv_nxt (e_k e) + of_nat (length ds))
    \<and> (\<forall>seg \<in> set (fst (input_parse (k_conv (e_k e)) d)). sg_cmd seg = IKCP_CMD_PUSH
         \<longrightarrow> unat (sg_sn seg) < unat (k_rcv_nxt (e_k e)) + unat (k_rcv_wnd (e_k e)) \<longrightarrow> got k' (sg_sn seg))
    \<and> (\<forall>seg \<in> set (fst (input_parse (k_conv (e_k e)) d)). sg_una seg \<le> snd_start k')"
proof -
  note env = sync_env[OF ok sync short]
  have "\<forall>seg \<in> set (fst (input_parse (k_conv (e_k e)) d)).
      fair_seg (k_snd_nxt (e_k p)) (k_rcv_nxt (e_k p)) (got (e_k p)) seg" using sync_fair[OF sync d] by blast
  from input_step[OF env(1-4) session_datagram_length[OF ok d] this input] env(5) show ?thesis by simp
qed

text \<open>The same for an end whose datagrams are kept elsewhere.\<close>

lemma in_step_output:
  assumes "in_step N R G (k\<lparr>k_output := out\<rparr>)"
  shows "k_output k = [] \<Longrightarrow> in_step N R G k"
    and "in_step N R G k' \<Longrightarrow> grows k k' \<Longrightarrow> in_step N R G (k'\<lparr>k_output := out @ k_output k'\<rparr>)"
proof -
  have ack: "ack_in (k\<lparr>k_output := xs\<rparr>) = ack_in k" "got (k\<lparr>k_output := xs\<rparr>) = got k" for k :: KCP and xs
    by (simp_all add: ack_in_def fun_eq_iff got_def)
  have snd: "snd_start (k\<lparr>k_output := xs\<rparr>) = snd_start k" for k :: KCP and xs by (simp add: snd_start_def)
  have inv: "kcp_inv (k\<lparr>k_output := xs\<rparr>) = kcp_inv k" for k :: KCP and xs by (simp add: kcp_inv_def)
  note defs = in_step_def rcv_part_def snd_part_def rcv_gap_def ack snd inv
  show "k_output k = [] \<Longrightarrow> in_step N R G k" using assms by (simp add: defs)
  assume k': "in_step N R G k'" and gr: "grows k k'"
  have mtu: "k_mtu k' = k_mtu k" using gr by (simp add: grows_def)
  have "datagram_ok (unat (k_mtu k)) (ack_in k') d \<and> datagram_ok (unat (k_mtu k)) (push_below (k_snd_nxt k')) d"
    if "d \<in> set out" for d
  proof -
    have "datagram_ok (unat (k_mtu k)) (ack_in k) d" "datagram_ok (unat (k_mtu k)) (push_below (k_snd_nxt k)) d"
      using assms that by (simp_all add: defs)
    moreover have "ack_in k s \<Longrightarrow> ack_in k' s" "push_below (k_snd_nxt k) s \<Longrightarrow> push_below (k_snd_nxt k') s" for s
      using gr by (auto simp: grows_def ack_in_def push_below_def)
    ultimately show ?thesis using datagram_ok_mono by blast
  qed
  then show "in_step N R G (k'\<lparr>k_output := out @ k_output k'\<rparr>)" using k' by (auto simp: defs mtu)
qed

lemma sync_input_out:
  assumes ok: "session_ok e p" and sync: "sync (e_k e) (e_k p)"
    and short: "length (e_log e) < 2 ^ 31" "length (e_log p) < 2 ^ 31" and d: "d \<in> set (k_output (e_k p))"
    and e: "e_k e = k\<lparr>k_output := out\<rparr>" "k_output k = []"
    and input: "kcp_Input clk d regular ackNoDelay k = Some (code, k')"
  shows "sync (k'\<lparr>k_output := out @ k_output k'\<rparr>) (e_k p)"
proof -
  let ?N = "k_snd_nxt (e_k p)" and ?R = "k_rcv_nxt (e_k p)" and ?G = "got (e_k p)"
  note env = sync_env[OF ok sync short]
  have base: "in_step ?N ?R ?G (k\<lparr>k_output := out\<rparr>)" using env(1) unfolding e(1) .
  have k: "in_step ?N ?R ?G k" by (rule in_step_output(1)[OF base e(2)])
  have "\<forall>seg \<in> set (fst (input_parse (k_conv k) d)). fair_seg ?N ?R ?G seg" using sync_fair[OF sync d] by blast
  moreover have "unat (k_snd_nxt k) + length (snd_queue_list k) < 2 ^ 31" "length d \<le> unat (k_mtu k)"
    using env(4) session_datagram_length[OF ok d] unfolding e(1) by simp_all
  ultimately have "in_step ?N ?R ?G k' \<and> grows k k'" using input_step[OF k env(2,3)] input by blast
  then have k': "in_step ?N ?R ?G k'" "grows k k'" by blast+
  have "grows (e_k e) (k'\<lparr>k_output := out @ k_output k'\<rparr>)"
    using k'(2) unfolding e(1) by (simp add: grows_def got_def snd_start_def)
  from sync_left[OF sync in_step_output(2)[OF base k'] this] show ?thesis .
qed

lemma sync_step:
  assumes step: "ep_step (set (k_output (e_k p))) e e'" and ok: "session_ok e p" and sync: "sync (e_k e) (e_k p)"
    and short: "length (e_log e) < 2 ^ 31" "length (e_log p) < 2 ^ 31"
  shows "sync (e_k e') (e_k p)"
proof -
  note env = sync_env[OF ok sync short] and left = sync_left[OF sync]
  have inv: "kcp_inv (e_k e)" and stream: "k_stream (e_k e) = 0" using ok by (simp_all add: session_ok_def ep_ok_def)
  show ?thesis
    using step
  proof cases
    case (ep_send msg code k)
    then show ?thesis using left send_step[OF env(1) stream] by simp
  next
    case (ep_recv buf n buf' k)
    then show ?thesis using left recv_step[OF env(1,2)] by simp
  next
    case (ep_input d clk regular ackNoDelay code k)
    from sync_input[OF ok sync short ep_input(2,3)] left show ?thesis using ep_input(1) by simp
  next
    case (ep_update clk k)
    then have "sends_ok (e_k e) k" using kcp_Update_ok[OF inv, of clk] by auto
    then show ?thesis using sync_sends[OF ok sync short] ep_update(1) by simp
  next
    case (ep_flush clk ackOnly t k)
    then have "sends_ok (e_k e) k" using kcp_flush_sends[OF inv, of clk ackOnly] by auto
    then show ?thesis using sync_sends[OF ok sync short] ep_flush(1) by simp
  next
    case (ep_nodelay nodelay interval resend nc)
    then show ?thesis using left nodelay_step[OF env(1)] by simp
  qed
qed

lemma fresh_sync: "fresh a \<Longrightarrow> fresh b \<Longrightarrow> sync (e_k a) (e_k b)"
  by (simp add: fresh_def sync_def in_step_def rcv_part_def snd_part_def snd_start_def rcv_gap_def)

lemma session_sync:
  assumes "session (a0, b0) s" and "fresh a0" and "fresh b0" and "k_mtu (e_k a0) = k_mtu (e_k b0)"
  defines "M \<equiv> unat (k_mss (e_k a0))"
  shows "seg_total M (e_sent (fst s)) < 2 ^ 31 \<longrightarrow> seg_total M (e_sent (snd s)) < 2 ^ 31 \<longrightarrow>
    sync (e_k (fst s)) (e_k (snd s))"
  using assms(1)
proof (induction rule: session.induct)
  case session_start
  then show ?case using fresh_sync[OF assms(2,3)] by simp
next
  case (session_left a b a')
  show ?case
  proof (intro impI)
    assume "seg_total M (e_sent (fst (a', b))) < 2 ^ 31" "seg_total M (e_sent (snd (a', b))) < 2 ^ 31"
    then have t: "seg_total M (e_sent a) < 2 ^ 31" "seg_total M (e_sent b) < 2 ^ 31"
      using ep_step_sent[OF session_left(2), of M] by simp_all
    then have ok: "session_ok a b" "unat (k_mss (e_k a)) = M"
      using session_reach_ok[OF session_left(1) assms(2-4)] by (simp_all add: M_def)
    then have "unat (k_mss (e_k b)) = M" using session_ok_mss by metis
    then show "sync (e_k (fst (a', b))) (e_k (snd (a', b)))"
      using sync_step[OF session_left(2) ok(1)] session_left(3) t ok(2) by (simp add: e_log_def length_msg_log)
  qed
next
  case (session_right a b b')
  show ?case
  proof (intro impI)
    assume "seg_total M (e_sent (fst (a, b'))) < 2 ^ 31" "seg_total M (e_sent (snd (a, b'))) < 2 ^ 31"
    then have t: "seg_total M (e_sent a) < 2 ^ 31" "seg_total M (e_sent b) < 2 ^ 31"
      using ep_step_sent[OF session_right(2), of M] by simp_all
    then have ok: "session_ok a b" "unat (k_mss (e_k a)) = M"
      using session_reach_ok[OF session_right(1) assms(2-4)] by (simp_all add: M_def)
    then have "unat (k_mss (e_k b)) = M" using session_ok_mss by metis
    then have "sync (e_k b') (e_k a)"
      using sync_step[OF session_right(2) session_ok_sym[OF ok(1)] sync_sym] session_right(3) t ok(2)
      by (simp add: e_log_def length_msg_log)
    then show "sync (e_k (fst (a, b'))) (e_k (snd (a, b')))" using sync_sym by simp
  qed
qed

section \<open>When nothing is waiting\<close>

text \<open>A queue that holds all that is left of a log, and is not empty, can be read.\<close>

lemma whole_readable:
  assumes inv: "rb_inv (k_rcv_queue k)" and mss: "0 < mss" and valid: "\<forall>m \<in> set rs. msg_valid mss m"
    and Q: "map pl (rcv_queue_list k) = msg_log mss rs" and rs: "rs \<noteq> []"
  shows "0 \<le> kcp_PeekSize k"
proof -
  obtain m rest where m: "rs = m # rest" using rs by (cases rs) auto
  let ?n = "frag_count mss m" and ?Q = "rcv_queue_list k"
  have v: "0 < length m" "length m \<le> 255 * mss" using valid m by (simp_all add: msg_valid_def)
  have n: "0 < ?n" "?n \<le> 255"
    using frag_count_bounds(1)[OF mss v(1)] frag_count_le_iff[OF mss v(1), of 255] v(2) by auto
  obtain n' where n': "?n = Suc n'" using n(1) gr0_implies_Suc by blast
  have len: "?n \<le> length ?Q" using arg_cong[OF Q, of length] by (simp add: m)
  then obtain s ss where s: "?Q = s # ss" using n(1) by (cases ?Q) auto
  have "pl s = pl (hd (fragments mss ?n m))" using Q s n' m by simp
  then have frg: "sg_frg s = of_nat n'" by (simp add: pl_def n')
  have "uint (sg_frg s + 1) = int ?n" using frg n(2) n' by (simp add: uint_nat unat_word_ariths unat_of_nat)
  then show ?thesis using kcp_PeekSize_correct[OF inv] s len by simp
qed

lemma sync_drained:
  assumes ok: "session_ok a b" and sync: "sync (e_k a) (e_k b)" and short: "length (e_log a) < 2 ^ 31"
    and wait: "kcp_WaitSnd (e_k a) = 0" and read: "kcp_PeekSize (e_k b) < 0"
  shows "e_got b = e_sent a"
proof -
  have eps: "ep_ok a" "ep_ok b" and dl: "delivers a b" and inv: "kcp_inv (e_k a)" "kcp_inv (e_k b)"
    using ok by (simp_all add: session_ok_def ep_ok_def)
  let ?mss = "unat (k_mss (e_k a))" and ?Q = "rcv_queue_list (e_k b)"
  have rb: "rb_inv (k_snd_buf (e_k a))" "rb_inv (k_snd_queue (e_k a))" "rb_inv (k_rcv_queue (e_k b))"
    using inv by (auto simp: snd_inv_def rcv_inv_def)
  then have empty: "snd_buf_list (e_k a) = []" "snd_queue_list (e_k a) = []"
    using wait by (simp_all add: kcp_WaitSnd_def rb_Len_list)
  have "k_rcv_nxt (e_k b) = k_snd_nxt (e_k a)"
  proof (rule antisym)
    show "k_rcv_nxt (e_k b) \<le> k_snd_nxt (e_k a)" using sync by (simp add: sync_def in_step_def rcv_part_def)
    show "k_snd_nxt (e_k a) \<le> k_rcv_nxt (e_k b)"
      using sync empty by (simp add: sync_def in_step_def snd_part_def snd_start_def)
  qed
  then have all: "unat (k_rcv_nxt (e_k b)) = length (e_log a)" using log_bound[OF eps(1) short] empty by simp
  obtain rs where rs: "e_sent a = e_got b @ rs" using dl by (auto simp: delivers_def prefix_def)
  let ?c = "length (msg_log ?mss (e_got b))"
  have log: "?c + length ?Q \<le> length (e_log a)" "k_rcv_nxt (e_k b) = of_nat (?c + length ?Q)"
      "map pl ?Q = take (length ?Q) (drop ?c (e_log a))"
    using dl unfolding delivers_def rcv_log_def by blast+
  have "unat (of_nat (?c + length ?Q) :: u32) = ?c + length ?Q" using log(1) short unat_plus_small[of 0 "?c + length ?Q"] by simp
  then have len: "?c + length ?Q = length (e_log a)" using all unfolding log(2) by simp
  have "map pl ?Q = msg_log ?mss rs" using log(3) len by (simp add: e_log_def rs)
  moreover have "0 < ?mss" using eps(1) cfg_inv_mss_pos[of "e_k a"] by (auto simp: ep_ok_def)
  moreover have "\<forall>m \<in> set rs. msg_valid ?mss m" using eps(1) rs by (simp add: ep_ok_def)
  ultimately have "rs = []" using whole_readable[OF rb(3), of ?mss rs] read by force
  then show ?thesis using rs by simp
qed

end
