(* ===== verification/Kcp_Progress.thy ===== *)
theory Kcp_Progress
  imports Kcp_Sync Kcp_Transmit
begin

text \<open>
  A session makes progress when the network lets it: a flush whose datagrams arrive, in any order
  and any number of times, brings the peer up to date, and the answer clears the sender's buffer.
\<close>

section \<open>A round of datagrams\<close>

fun take_all :: "clock \<Rightarrow> bool \<Rightarrow> bool \<Rightarrow> bytes list \<Rightarrow> KCP \<Rightarrow> KCP option" where
  "take_all clk regular ackNoDelay [] k = Some k"
| "take_all clk regular ackNoDelay (d # ds) k =
     (case kcp_Input clk d regular ackNoDelay k of None \<Rightarrow> None | Some (code, k') \<Rightarrow> take_all clk regular ackNoDelay ds k')"

text \<open>What a list of datagrams has brought: the segments within the window have been taken in.\<close>

definition brought :: "KCP \<Rightarrow> bytes list \<Rightarrow> KCP \<Rightarrow> bool" where
  "brought k ds k' \<longleftrightarrow> grows k k'
     \<and> (\<exists>xs. rcv_queue_list k' = rcv_queue_list k @ xs \<and> k_rcv_nxt k' = k_rcv_nxt k + of_nat (length xs))
     \<and> (\<forall>d \<in> set ds. \<forall>seg \<in> set (fst (input_parse (k_conv k) d)). sg_cmd seg = IKCP_CMD_PUSH
          \<longrightarrow> unat (sg_sn seg) < unat (k_rcv_nxt k) + unat (k_rcv_wnd k) \<longrightarrow> got k' (sg_sn seg))
     \<and> (\<forall>d \<in> set ds. \<forall>seg \<in> set (fst (input_parse (k_conv k) d)). sg_una seg \<le> snd_start k')"

lemma brought_Nil [simp]: "brought k [] k"
  by (simp add: brought_def)

lemma brought_Cons:
  assumes "brought k [d] k1" and "brought k1 ds k'"
  shows "brought k (d # ds) k'"
proof -
  have g: "grows k k1" "grows k1 k'" using assms by (simp_all add: brought_def)
  then have same: "k_conv k1 = k_conv k" "k_rcv_wnd k1 = k_rcv_wnd k" "unat (k_rcv_nxt k) \<le> unat (k_rcv_nxt k1)"
    by (simp_all add: grows_def word_le_nat_alt)
  obtain xs ys where
    xs: "rcv_queue_list k1 = rcv_queue_list k @ xs" "k_rcv_nxt k1 = k_rcv_nxt k + of_nat (length xs)" and
    ys: "rcv_queue_list k' = rcv_queue_list k1 @ ys" "k_rcv_nxt k' = k_rcv_nxt k1 + of_nat (length ys)"
    using assms unfolding brought_def by blast
  have "rcv_queue_list k' = rcv_queue_list k @ (xs @ ys)" "k_rcv_nxt k' = k_rcv_nxt k + of_nat (length (xs @ ys))"
    unfolding ys xs by simp_all
  then have q: "\<exists>zs. rcv_queue_list k' = rcv_queue_list k @ zs \<and> k_rcv_nxt k' = k_rcv_nxt k + of_nat (length zs)" by blast
  have "got k' (sg_sn seg)"
    if "e \<in> set (d # ds)" "seg \<in> set (fst (input_parse (k_conv k) e))" "sg_cmd seg = IKCP_CMD_PUSH"
      "unat (sg_sn seg) < unat (k_rcv_nxt k) + unat (k_rcv_wnd k)" for e seg
  proof (cases "e = d")
    case True
    then have "got k1 (sg_sn seg)" using assms(1) that by (simp add: brought_def)
    then show ?thesis using g(2) by (simp add: grows_def)
  next
    case False
    then have "e \<in> set ds" "seg \<in> set (fst (input_parse (k_conv k1) e))"
      "unat (sg_sn seg) < unat (k_rcv_nxt k1) + unat (k_rcv_wnd k1)" using that same by simp_all
    then show ?thesis using assms(2) that(3) unfolding brought_def by blast
  qed
  moreover have "sg_una seg \<le> snd_start k'"
    if e: "e \<in> set (d # ds)" "seg \<in> set (fst (input_parse (k_conv k) e))" for e seg
  proof (cases "e = d")
    case True
    then have "sg_una seg \<le> snd_start k1" using assms(1) e by (simp add: brought_def)
    also have "snd_start k1 \<le> snd_start k'" using g(2) by (simp add: grows_def)
    finally show ?thesis .
  next
    case False
    then show ?thesis using assms(2) e same(1) unfolding brought_def by force
  qed
  ultimately show ?thesis using q grows_trans[OF g] unfolding brought_def by blast
qed

lemma input_brought:
  assumes ok: "session_ok e p" and sync: "sync (e_k e) (e_k p)"
    and short: "length (e_log e) < 2 ^ 31" "length (e_log p) < 2 ^ 31" and d: "d \<in> set (k_output (e_k p))"
  shows "\<exists>code k'. kcp_Input clk d regular ackNoDelay (e_k e) = Some (code, k') \<and> brought (e_k e) [d] k'
    \<and> session_ok (e\<lparr>e_k := k'\<rparr>) p \<and> sync k' (e_k p)"
proof -
  have inv: "kcp_inv (e_k e)" using ok by (simp add: session_ok_def ep_ok_def)
  obtain code k' where input: "kcp_Input clk d regular ackNoDelay (e_k e) = Some (code, k')"
    using kcp_Input_ok[where P = "\<lambda>_. True", OF inv session_datagram_length[OF ok d], of clk regular ackNoDelay] by auto
  note step = sync_input[OF ok sync short d input]
  have "brought (e_k e) [d] k'" using step unfolding brought_def by simp
  moreover have "sync k' (e_k p)" using step sync_left[OF sync] by blast
  moreover have "session_ok (e\<lparr>e_k := k'\<rparr>) p" by (rule session_input[OF ok d _ input]) (use short in simp)
  ultimately show ?thesis using input by blast
qed

lemma take_all_brought:
  assumes "session_ok e p" and "sync (e_k e) (e_k p)"
    and "length (e_log e) < 2 ^ 31" "length (e_log p) < 2 ^ 31" and "set ds \<subseteq> set (k_output (e_k p))"
  shows "\<exists>k'. take_all clk regular ackNoDelay ds (e_k e) = Some k' \<and> brought (e_k e) ds k'
    \<and> session_ok (e\<lparr>e_k := k'\<rparr>) p \<and> sync k' (e_k p)"
  using assms
proof (induction ds arbitrary: e)
  case Nil
  then show ?case by simp
next
  case (Cons d ds)
  have "d \<in> set (k_output (e_k p))" using Cons.prems(5) by simp
  from input_brought[OF Cons.prems(1-4) this] obtain code k1 where
    k1: "kcp_Input clk d regular ackNoDelay (e_k e) = Some (code, k1)" "brought (e_k e) [d] k1"
      "session_ok (e\<lparr>e_k := k1\<rparr>) p" "sync k1 (e_k p)" by blast
  have mss: "k_mss k1 = k_mss (e_k e)"
    using session_ok_mss[OF k1(3)] session_ok_mss[OF Cons.prems(1)] by simp
  have log: "e_log (e\<lparr>e_k := k1\<rparr>) = e_log e" using mss by (simp add: e_log_def)
  obtain k' where k': "take_all clk regular ackNoDelay ds k1 = Some k'" "brought k1 ds k'"
      "session_ok (e\<lparr>e_k := k'\<rparr>) p" "sync k' (e_k p)"
    using Cons.IH[of "e\<lparr>e_k := k1\<rparr>"] k1(3,4) log Cons.prems(3-5) by auto
  then show ?case using k1(1) brought_Cons[OF k1(2) k'(2)] by simp
qed

text \<open>After a flush in which all that is not acknowledged is owed, its datagrams bring the peer up to date.\<close>

lemma flush_same_payload:
  assumes inv: "kcp_inv k" and flush: "kcp_flush clk False k = Some (t, k')"
  shows "list_all2 same_payload (flush_flight k) (snd_buf_list k')"
proof -
  have "sends_ok k k'" using kcp_flush_sends[OF inv, of clk False] flush by auto
  then obtain m where m: "m \<le> length (snd_queue_list k)" "snd_queue_list k' = drop m (snd_queue_list k)"
      "list_all2 same_payload (snd_buf_list k @ map2 (stamp (k_conv k)) (take m (snd_queue_list k)) (sn_run (k_snd_nxt k) m))
         (snd_buf_list k')" unfolding sends_ok_def by blast
  have "length (snd_queue_list k) - m = length (snd_queue_list k) - flush_moved k"
    using m(2) kcp_flush_fields(3)[OF inv flush] by (metis length_drop)
  moreover have "flush_moved k \<le> length (snd_queue_list k)" by (simp add: flush_moved_def)
  ultimately have "m = flush_moved k" using m(1) by linarith
  then show ?thesis using m(3) by (simp add: flush_flight_def)
qed

lemma round_got:
  assumes inv: "kcp_inv k" and inv': "kcp_inv k'" and flush: "kcp_flush clk False k = Some (t, k')"
    and sync: "sync k' b" and small: "unat (k_rcv_nxt b) < 2 ^ 31"
    and due: "\<forall>x \<in> set (flush_flight k). sg_acked x \<noteq> 1 \<longrightarrow> owed clk (fast_limit k) x"
    and conv: "k_conv k = k_conv b" and b': "brought b ds b'"
    and ds: "set (drop (length (k_output k)) (k_output k')) \<subseteq> set ds"
    and room: "unat (k_snd_nxt k') \<le> unat (k_rcv_nxt b) + unat (k_rcv_wnd b)"
    and y: "y \<in> set (snd_buf_list k')"
  shows "got b' (sg_sn y)"
proof (cases "sg_acked y = 1")
  case True
  then have "got b (sg_sn y)" using sync y by (simp add: sync_def in_step_def snd_part_def)
  then show ?thesis using b' by (simp add: brought_def grows_def)
next
  case False
  have sends: "sends_ok k k'" using kcp_flush_sends[OF inv, of clk False] flush by auto
  obtain news where news: "k_output k' = k_output k @ news"
    "list_all2 (\<lambda>x y. owed clk (fast_limit k) x \<longrightarrow> same_payload x y \<and> (\<exists>d \<in> set news. holds d y) \<and> sg_xmit y = sg_xmit x + 1
       \<and> (k_dead_link k \<le> sg_xmit x + 1 \<longrightarrow> k_state k' = 0xFFFFFFFF)) (flush_flight k) (snd_buf_list k')"
    using kcp_flush_owed[OF inv flush] by blast
  obtain i where i: "i < length (snd_buf_list k')" "y = snd_buf_list k' ! i" using y by (metis in_set_conv_nth)
  have len: "length (flush_flight k) = length (snd_buf_list k')" using list_all2_lengthD[OF news(2)] .
  let ?x = "flush_flight k ! i"
  have x: "?x \<in> set (flush_flight k)" using i(1) len by simp
  have "same_payload ?x y" using list_all2_nthD[OF flush_same_payload[OF inv flush], of i] i len by simp
  then have "sg_acked ?x \<noteq> 1" using False by (simp add: same_payload_def)
  then have "owed clk (fast_limit k) ?x" using due x by blast
  then obtain d where d: "d \<in> set news" "holds d y" using list_all2_nthD[OF news(2), of i] i len by auto
  have wire: "on_wire y \<in> set (fst (input_parse (k_conv b) d))"
    using holds_parse[OF sends d(1) news(1) d(2)] unfolding conv .
  have "d \<in> set ds" using ds d(1) news(1) by auto
  moreover have "sg_cmd (on_wire y) = IKCP_CMD_PUSH"
    using y inv' by (auto simp: snd_inv_def flight_seg_def dest!: kcp_invD(2))
  moreover have "unat (sg_sn (on_wire y)) < unat (k_rcv_nxt b) + unat (k_rcv_wnd b)"
  proof -
    have st: "snd_start k' \<le> k_rcv_nxt b" using sync by (simp add: sync_def in_step_def snd_part_def)
    show ?thesis using start_nat(2)[OF inv' st small y] room by (simp add: word_less_nat_alt)
  qed
  ultimately show ?thesis using b' wire unfolding brought_def by fastforce
qed

lemma all_got:
  assumes inv': "kcp_inv k'" and sync: "sync k' b" and sync': "sync k' b'" and small: "unat (k_snd_nxt k') < 2 ^ 31"
    and b': "brought b ds b'" and all: "\<And>y. y \<in> set (snd_buf_list k') \<Longrightarrow> got b' (sg_sn y)"
    and room: "unat (k_snd_nxt k') + length (rcv_queue_list b) \<le> unat (k_rcv_nxt b) + unat (k_rcv_wnd b)"
  shows "k_rcv_nxt b' = k_snd_nxt k'"
proof (rule ccontr)
  assume "k_rcv_nxt b' \<noteq> k_snd_nxt k'"
  moreover have le: "k_rcv_nxt b' \<le> k_snd_nxt k'" using sync' by (simp add: sync_def in_step_def rcv_part_def)
  ultimately have lt: "k_rcv_nxt b' < k_snd_nxt k'" by simp
  have st: "snd_start k' \<le> k_rcv_nxt b'" using sync' by (simp add: sync_def in_step_def snd_part_def)
  have R: "unat (k_rcv_nxt b') < 2 ^ 31" using lt small by (simp add: word_less_nat_alt)
  let ?n = "unat (k_rcv_nxt b') - unat (snd_start k')" and ?buf = "snd_buf_list k'"
  have n: "?n < length ?buf"
    using start_nat(1)[OF inv' st R] lt st by (simp add: word_less_nat_alt word_le_nat_alt)
  have "map sg_sn ?buf ! ?n = snd_start k' + of_nat ?n" unfolding flight_run(1)[OF inv'] using n by (rule nth_sn_run)
  also have "\<dots> = k_rcv_nxt b'"
    using st by (simp add: word_le_nat_alt of_nat_diff)
  finally have "sg_sn (?buf ! ?n) = k_rcv_nxt b'" using n by simp
  then have "got b' (k_rcv_nxt b')" using all[of "?buf ! ?n"] n by simp
  then have in_buf: "k_rcv_nxt b' \<in> sg_sn ` set_mset (rcv_buf_items b')" by (simp add: got_def)
  obtain xs where xs: "rcv_queue_list b' = rcv_queue_list b @ xs" "k_rcv_nxt b' = k_rcv_nxt b + of_nat (length xs)"
    and wnd: "k_rcv_wnd b' = k_rcv_wnd b" using b' unfolding brought_def grows_def by blast
  have invb: "kcp_inv b'" and gap: "rcv_gap b'" using sync' by (simp_all add: sync_def in_step_def rcv_part_def)
  have "length xs < 2 ^ 31" using grown_run(2)[OF invb xs] .
  moreover have "unat (k_rcv_nxt b) < 2 ^ 31"
    using b' R unfolding brought_def grows_def word_le_nat_alt by linarith
  ultimately have "unat (k_rcv_nxt b') = unat (k_rcv_nxt b) + length xs"
    using unat_plus_small[of "k_rcv_nxt b" "length xs"] unfolding xs(2) by simp
  then have "length (rcv_queue_list b') < unat (k_rcv_wnd b')"
    using lt room unfolding wnd xs(1) by (simp add: word_less_nat_alt)
  then show False using gap in_buf by (simp add: rcv_gap_def)
qed

text \<open>The whole round: what the flush had to send is with the peer, whose queue holds it in order.\<close>

lemma round_takes:
  assumes ok: "session_ok a b" and sync: "sync (e_k a) (e_k b)"
    and short: "length (e_log a) < 2 ^ 31" "length (e_log b) < 2 ^ 31" and conv: "k_conv (e_k a) = k_conv (e_k b)"
    and flush: "kcp_flush clk False (e_k a) = Some (t, ka)"
    and due: "\<forall>x \<in> set (flush_flight (e_k a)). sg_acked x \<noteq> 1 \<longrightarrow> owed clk (fast_limit (e_k a)) x"
    and room: "unat (k_snd_nxt ka) + length (rcv_queue_list (e_k b)) \<le> unat (k_rcv_nxt (e_k b)) + unat (k_rcv_wnd (e_k b))"
    and ds: "set (drop (length (k_output (e_k a))) (k_output ka)) \<subseteq> set ds" "set ds \<subseteq> set (k_output ka)"
  shows "\<exists>kb. take_all clk' regular ackNoDelay ds (e_k b) = Some kb \<and> k_rcv_nxt kb = k_snd_nxt ka
    \<and> msg_log (unat (k_mss (e_k a))) (e_got b) @ map pl (rcv_queue_list kb) = take (unat (k_snd_nxt ka)) (e_log a)"
proof -
  let ?a = "a\<lparr>e_k := ka\<rparr>" and ?M = "unat (k_mss (e_k a))"
  have step: "ep_step (set (k_output (e_k b))) a ?a" using flush by (rule ep_flush)
  have ok': "session_ok ?a b" using session_step[OF step ok] short(2) by simp
  have sync': "sync ka (e_k b)" using sync_step[OF step ok sync short] by simp
  have invs: "kcp_inv (e_k a)" "kcp_inv ka" "ep_ok ?a" using ok ok' by (simp_all add: session_ok_def ep_ok_def)
  have mss: "k_mss ka = k_mss (e_k a)" using session_ok_mss[OF ok] session_ok_mss[OF ok'] by simp
  have log: "e_log ?a = e_log a" using mss by (simp add: e_log_def)
  have small: "unat (k_snd_nxt ka) < 2 ^ 31" using log_bound[OF invs(3)] short(1) log by simp
  have sub: "set ds \<subseteq> set (k_output (e_k ?a))" using ds(2) by simp
  obtain kb where kb: "take_all clk' regular ackNoDelay ds (e_k b) = Some kb" "brought (e_k b) ds kb"
      "session_ok (b\<lparr>e_k := kb\<rparr>) ?a" "sync kb ka"
    using take_all_brought[OF session_ok_sym[OF ok'] _ _ _ sub, of clk' regular ackNoDelay] sync_sym[OF sync'] short log
    by auto
  have "k_rcv_nxt (e_k b) \<le> k_snd_nxt ka" using sync' by (simp add: sync_def in_step_def rcv_part_def)
  then have R: "unat (k_rcv_nxt (e_k b)) < 2 ^ 31" using small by (simp add: word_le_nat_alt)
  have room': "unat (k_snd_nxt ka) \<le> unat (k_rcv_nxt (e_k b)) + unat (k_rcv_wnd (e_k b))" using room by linarith
  note got = round_got[OF invs(1,2) flush sync' R due conv kb(2) ds(1) room']
  have nxt: "k_rcv_nxt kb = k_snd_nxt ka" by (rule all_got[OF invs(2) sync' sync_sym[OF kb(4)] small kb(2) got room])
  let ?c = "length (msg_log ?M (e_got b))" and ?Q = "rcv_queue_list kb"
  have dl: "delivers ?a (b\<lparr>e_k := kb\<rparr>)" using kb(3) by (simp add: session_ok_def)
  then obtain rs where rs: "e_sent a = e_got b @ rs" by (auto simp: delivers_def prefix_def)
  have rl: "?c + length ?Q \<le> length (e_log a)" "k_rcv_nxt kb = of_nat (?c + length ?Q)"
      "map pl ?Q = take (length ?Q) (drop ?c (e_log a))"
    using dl by (simp_all add: delivers_def rcv_log_def log mss)
  have "unat (k_snd_nxt ka) = ?c + length ?Q"
    using rl(1) short(1) unat_plus_small[of 0 "?c + length ?Q"] unfolding nxt[symmetric] rl(2) by simp
  then have "take (unat (k_snd_nxt ka)) (e_log a) = take ?c (e_log a) @ take (length ?Q) (drop ?c (e_log a))"
    by (simp add: take_add)
  moreover have "take ?c (e_log a) = msg_log ?M (e_got b)" by (simp add: e_log_def rs)
  ultimately show ?thesis using kb(1) nxt rl(3) by auto
qed

text \<open>And back: the datagrams of a flush that has acknowledgements to send clear the sender's buffer.\<close>

lemma round_clears:
  assumes ok: "session_ok a b" and sync: "sync (e_k a) (e_k b)"
    and short: "length (e_log a) < 2 ^ 31" "length (e_log b) < 2 ^ 31" and conv: "k_conv (e_k a) = k_conv (e_k b)"
    and flush: "kcp_flush clk ackOnly (e_k b) = Some (t, kb)" and acks: "k_acklist (e_k b) \<noteq> []"
    and ds: "set (drop (length (k_output (e_k b))) (k_output kb)) \<subseteq> set ds" "set ds \<subseteq> set (k_output kb)"
  shows "\<exists>ka. take_all clk' regular ackNoDelay ds (e_k a) = Some ka
    \<and> (\<forall>x \<in> set (snd_buf_list ka). k_rcv_nxt (e_k b) \<le> sg_sn x)
    \<and> (k_rcv_nxt (e_k b) = k_snd_nxt (e_k a) \<longrightarrow> snd_queue_list (e_k a) = [] \<longrightarrow> kcp_WaitSnd ka = 0)"
proof -
  let ?b = "b\<lparr>e_k := kb\<rparr>"
  have step: "ep_step (set (k_output (e_k a))) b ?b" using flush by (rule ep_flush)
  have ok': "session_ok ?b a" using session_step[OF step session_ok_sym[OF ok]] short(1) by simp
  have sync': "sync kb (e_k a)" using sync_step[OF step session_ok_sym[OF ok] sync_sym[OF sync] short(2,1)] by simp
  have invb: "kcp_inv (e_k b)" using ok by (simp add: session_ok_def ep_ok_def)
  have log: "e_log ?b = e_log b" using session_ok_mss[OF ok] session_ok_mss[OF ok'] by (simp add: e_log_def)
  obtain ka where ka: "take_all clk' regular ackNoDelay ds (e_k a) = Some ka" "brought (e_k a) ds ka"
      "session_ok (a\<lparr>e_k := ka\<rparr>) ?b" "sync ka kb"
    using take_all_brought[OF session_ok_sym[OF ok'], of ds clk' regular ackNoDelay] sync_sym[OF sync'] short log ds(2)
    by auto
  have sends: "sends_ok (e_k b) kb" using kcp_flush_sends[OF invb, of clk ackOnly] flush by auto
  let ?ack = "last (k_acklist (e_k b))"
  obtain news d where d: "k_output kb = k_output (e_k b) @ news" "d \<in> set news" "holds d (ack_seg (e_k b) ?ack)"
    using kcp_flush_acks_owed[OF invb flush last_in_set[OF acks]] by blast
  have "on_wire (ack_seg (e_k b) ?ack) \<in> set (fst (input_parse (k_conv (e_k a)) d))"
    using holds_parse[OF sends d(2,1,3)] conv by simp
  moreover have "d \<in> set ds" using ds(1) d(1,2) by auto
  ultimately have "sg_una (on_wire (ack_seg (e_k b) ?ack)) \<le> snd_start ka" using ka(2) unfolding brought_def by blast
  then have una: "k_rcv_nxt (e_k b) \<le> snd_start ka" by (simp add: ack_seg_def flush_base_def)
  have inva: "kcp_inv ka" "ep_ok (a\<lparr>e_k := ka\<rparr>)" "ep_ok a" using ka(3) ok by (simp_all add: session_ok_def ep_ok_def)
  have loga: "e_log (a\<lparr>e_k := ka\<rparr>) = e_log a"
    using session_ok_mss[OF ok'] session_ok_mss[OF ka(3)] by (simp add: e_log_def)
  have st: "snd_start ka \<le> k_rcv_nxt kb" "k_rcv_nxt kb \<le> k_snd_nxt ka"
    using ka(4) by (simp_all add: sync_def in_step_def snd_part_def rcv_part_def)
  have bound: "unat (k_snd_nxt ka) + length (snd_queue_list ka) = length (e_log a)"
    using log_bound[OF inva(2)] short(1) loga by simp
  have R: "unat (k_rcv_nxt kb) < 2 ^ 31" using st(2) bound short(1) unfolding word_le_nat_alt by linarith
  note nat = start_nat[OF inva(1) st(1) R]
  have "kcp_WaitSnd ka = 0" if "k_rcv_nxt (e_k b) = k_snd_nxt (e_k a)" "snd_queue_list (e_k a) = []"
  proof -
    have "k_snd_nxt (e_k a) \<le> k_snd_nxt ka" using ka(2) by (simp add: brought_def grows_def)
    moreover have "unat (k_snd_nxt (e_k a)) = length (e_log a)" using log_bound[OF inva(3) short(1)] that(2) by simp
    ultimately have n: "length (snd_queue_list ka) = 0" "unat (k_snd_nxt ka) = unat (k_snd_nxt (e_k a))"
      using bound unfolding word_le_nat_alt by linarith+
    moreover have "length (snd_buf_list ka) = 0"
      using nat(1) una n(2) unfolding that(1) word_le_nat_alt by linarith
    moreover have "rb_inv (k_snd_buf ka)" "rb_inv (k_snd_queue ka)" using inva(1) by (auto simp: snd_inv_def)
    ultimately show ?thesis by (simp add: kcp_WaitSnd_def rb_Len_list)
  qed
  moreover have "k_rcv_nxt (e_k b) \<le> sg_sn x" if "x \<in> set (snd_buf_list ka)" for x
    using nat(2)[OF that] una by (meson order_trans)
  ultimately show ?thesis using ka(1) by blast
qed

end
