(* ===== verification/Session_Properties.thy ===== *)
theory Session_Properties
  imports Kcp_Progress Kcp_Examples
begin

text \<open>
  Properties of two connections over a network that may lose, repeat, delay and reorder datagrams,
  beyond the promise of \<open>Spec2Isabelle\<close> that nothing wrong is delivered: what an acknowledgement
  is worth to the sender, and that a round of datagrams makes progress.
\<close>

text \<open>What the proofs below need of a reachable state of a session.\<close>

lemma session_ready:
  assumes "session (a0, b0) (a, b)" and "fresh a0" and "fresh b0" and "k_mtu (e_k a0) = k_mtu (e_k b0)"
    and "seg_total (unat (k_mss (e_k a0))) (e_sent a) < 2 ^ 31"
    and "seg_total (unat (k_mss (e_k a0))) (e_sent b) < 2 ^ 31"
  shows "session_ok a b" and "sync (e_k a) (e_k b)" and "length (e_log a) < 2 ^ 31" and "length (e_log b) < 2 ^ 31"
    and "k_mss (e_k a) = k_mss (e_k a0)"
proof -
  have "session_ok a b \<and> unat (k_mss (e_k a)) = unat (k_mss (e_k a0))"
    using session_reach_ok[OF assms(1-4)] assms(5,6) by simp
  then show ok: "session_ok a b" and "k_mss (e_k a) = k_mss (e_k a0)" by (simp_all add: word_unat_eq_iff)
  show "sync (e_k a) (e_k b)" using session_sync[OF assms(1-4)] assms(5,6) by simp
  show "length (e_log a) < 2 ^ 31" "length (e_log b) < 2 ^ 31"
    using assms(5,6) \<open>k_mss (e_k a) = k_mss (e_k a0)\<close> session_ok_mss[OF ok] by (simp_all add: e_log_def length_msg_log)
qed

section \<open>A concrete session\<close>

definition demo_end :: endpoint where
  "demo_end = \<lparr>e_k = NewKCP 7, e_sent = [], e_got = []\<rparr>"

definition demo_a :: endpoint where
  "demo_a = \<lparr>e_k = demo_sent, e_sent = [[1, 2, 3]], e_got = []\<rparr>"

definition demo_b :: endpoint where
  "demo_b = \<lparr>e_k = demo_received, e_sent = [], e_got = [[1, 2, 3]]\<rparr>"

text \<open>The receiver acknowledges, and the sender learns of it.\<close>

definition demo_answer :: KCP where
  "demo_answer = snd (the (kcp_flush (\<lambda>_. 0) True demo_received))"

definition demo_acked :: KCP where
  "demo_acked = snd (the (kcp_Input (\<lambda>_. 0) (hd (k_output demo_answer)) True False demo_flushed))"

lemma demo_start: "fresh demo_end" "k_mtu (e_k demo_end) = k_mtu (e_k demo_end)" "unat (k_mss (e_k demo_end)) = 1376"
proof -
  show "unat (k_mss (e_k demo_end)) = 1376" by code_simp
qed (simp_all add: demo_end_def fresh_New)

lemma demo_total: "seg_total 1376 [[1, 2, 3]] = 1" "seg_total 1376 [] = 0"
  by code_simp+

lemma demo_sending: "session (demo_end, demo_end) (demo_a, demo_end)"
proof -
  define a1 where "a1 = demo_end\<lparr>e_k := demo_ready\<rparr>"
  have "ep_step N demo_end a1" for N
    using ep_nodelay[of N demo_end 1 10 2 1] by (simp add: a1_def demo_ready_def demo_end_def)
  moreover have "ep_step N a1 demo_a" for N
    using ep_send[of "[1, 2, 3]" a1 0 demo_sent N] demo_sent by (simp add: demo_a_def a1_def demo_end_def)
  ultimately show ?thesis by (meson session_start session_left)
qed

lemma demo_delivery: "session (demo_end, demo_end) (demo_a\<lparr>e_k := demo_flushed\<rparr>, demo_b)"
proof -
  define b1 where "b1 = demo_end\<lparr>e_k := demo_taken\<rparr>"
  have "ep_step N demo_a (demo_a\<lparr>e_k := demo_flushed\<rparr>)" for N
    using ep_flush[of "\<lambda>_. 0" False demo_a 10 demo_flushed N] demo_flush by (simp add: demo_a_def)
  moreover have "ep_step (set (k_output (e_k (demo_a\<lparr>e_k := demo_flushed\<rparr>)))) demo_end b1"
    using ep_input[of demo_datagram _ "\<lambda>_. 0" True False demo_end 0 demo_taken] demo_taken demo_output
    by (simp add: b1_def demo_end_def)
  moreover have "ep_step N b1 demo_b" for N
    using ep_recv[of "[0, 0, 0, 0]" b1 3 "[1, 2, 3, 0]" demo_received N] demo_received
    by (simp add: demo_b_def b1_def demo_end_def)
  ultimately show ?thesis using demo_sending by (meson session_left session_right)
qed

text \<open>The kernel evaluates the answer.\<close>

lemma demo_answered:
  "length (k_output demo_answer) = 1" "map_option fst (kcp_flush (\<lambda>_. 0) True demo_received) = Some 100"
  by code_simp+

lemma demo_received_fields:
  "kcp_PeekSize demo_received = -1" "length (k_acklist demo_received) = 1" "k_conv demo_received = 7"
  "length (k_output demo_received) = 0" "k_rcv_nxt demo_received = 1"
  by code_simp+

lemma demo_flushed_fields:
  "k_snd_nxt demo_flushed = 1" "length (snd_queue_list demo_flushed) = 0" "k_conv demo_flushed = 7"
  by code_simp+

lemma demo_sent_fields:
  "k_conv demo_sent = 7" "\<forall>x \<in> set (flush_flight demo_sent). sg_xmit x = 0" "unat (k_mss demo_sent) = 1376"
  by code_simp+

lemma demo_new_fields:
  "k_conv (NewKCP 7) = 7" "k_rcv_nxt (NewKCP 7) = 0" "unat (k_rcv_wnd (NewKCP 7)) = 32" "rcv_queue_list (NewKCP 7) = []"
  "unat (k_mss (NewKCP 7)) = 1376"
  by code_simp+

lemma demo_sent_log: "msg_log 1376 [[1, 2, 3]] = [(0, [1, 2, 3])]"
  by code_simp

lemma demo_cleared:
  "map_option fst (kcp_Input (\<lambda>_. 0) (hd (k_output demo_answer)) True False demo_flushed) = Some 0"
  by code_simp

lemma demo_nothing_left: "kcp_WaitSnd demo_acked = 0"
  by code_simp

lemma demo_steps:
  "kcp_flush (\<lambda>_. 0) True demo_received = Some (100, demo_answer)"
  "kcp_Input (\<lambda>_. 0) (hd (k_output demo_answer)) True False demo_flushed = Some (0, demo_acked)"
  "k_output demo_answer = [hd (k_output demo_answer)]"
proof -
  show "kcp_flush (\<lambda>_. 0) True demo_received = Some (100, demo_answer)"
    using demo_answered(2) by (auto simp: demo_answer_def)
  show "kcp_Input (\<lambda>_. 0) (hd (k_output demo_answer)) True False demo_flushed = Some (0, demo_acked)"
    using demo_cleared by (auto simp: demo_acked_def)
  show "k_output demo_answer = [hd (k_output demo_answer)]"
    using demo_answered(1) by (cases "k_output demo_answer") auto
qed

lemma demo_round: "session (demo_end, demo_end) (demo_a\<lparr>e_k := demo_acked\<rparr>, demo_b\<lparr>e_k := demo_answer\<rparr>)"
proof -
  let ?a = "demo_a\<lparr>e_k := demo_flushed\<rparr>" and ?b = "demo_b\<lparr>e_k := demo_answer\<rparr>"
  have "ep_step N demo_b ?b" for N
    using ep_flush[of "\<lambda>_. 0" True demo_b 100 demo_answer N] demo_steps(1) by (simp add: demo_b_def)
  moreover have "hd (k_output demo_answer) \<in> set (k_output (e_k ?b))"
    using demo_steps(3) by (metis endpoint.select_convs(1) endpoint.surjective endpoint.update_convs(1) list.set_intros(1))
  then have "ep_step (set (k_output (e_k ?b))) ?a (demo_a\<lparr>e_k := demo_acked\<rparr>)"
    using ep_input[of "hd (k_output demo_answer)" _ "\<lambda>_. 0" True False ?a 0 demo_acked] demo_steps(2) by simp
  ultimately show ?thesis using demo_delivery by (meson session_left session_right)
qed

lemma demo_answer_empty: "kcp_PeekSize demo_answer = -1"
  by code_simp

section \<open>Acknowledgements\<close>

text \<open>What the sender \<open>a\<close> has let go of, or holds as acknowledged, its peer \<open>b\<close> has taken in.\<close>

definition keeps_unacked :: "KCP \<Rightarrow> KCP \<Rightarrow> bool" where
  "keeps_unacked a b \<longleftrightarrow> snd_start a \<le> k_rcv_nxt b \<and> k_rcv_nxt b \<le> k_snd_nxt a
     \<and> (\<forall>x \<in> set (snd_buf_list a). sg_acked x = 1 \<longrightarrow> got b (sg_sn x))"

text \<open>
  C4: acknowledgements are sound, in every reachable state of a session of fewer than 2 to the 31
  segments: an end drops a segment, or marks it as acknowledged, only after its peer has taken it
  in, however the network delays, repeats or reorders the acknowledgements; and no end expects
  a segment that has not been sent.
\<close>

theorem acks_sound:
  assumes "session (a0, b0) (a, b)" and "fresh a0" and "fresh b0" and "k_mtu (e_k a0) = k_mtu (e_k b0)"
    and "seg_total (unat (k_mss (e_k a0))) (e_sent a) < 2 ^ 31"
    and "seg_total (unat (k_mss (e_k a0))) (e_sent b) < 2 ^ 31"
  shows "keeps_unacked (e_k a) (e_k b) \<and> keeps_unacked (e_k b) (e_k a)"
  using session_ready(2)[OF assms]
  by (simp add: sync_def in_step_def rcv_part_def snd_part_def keeps_unacked_def)

theorem acks_sound_witness:
  "keeps_unacked demo_flushed demo_received \<and> keeps_unacked demo_received demo_flushed"
  using acks_sound[OF demo_delivery demo_start(1,1,2)] unfolding demo_start(3)
  by (simp add: demo_a_def demo_b_def demo_total)

text \<open>
  An end for which \<open>WaitSnd\<close> is 0 knows that its messages have arrived: when the peer has
  no more message to read, it has received every message sent, not only a prefix of them.
\<close>

theorem acked_is_delivered:
  assumes "session (a0, b0) (a, b)" and "fresh a0" and "fresh b0" and "k_mtu (e_k a0) = k_mtu (e_k b0)"
    and "seg_total (unat (k_mss (e_k a0))) (e_sent a) < 2 ^ 31"
    and "seg_total (unat (k_mss (e_k a0))) (e_sent b) < 2 ^ 31"
    and "kcp_WaitSnd (e_k a) = 0" and "kcp_PeekSize (e_k b) < 0"
  shows "e_got b = e_sent a"
  using sync_drained[OF session_ready(1-3)[OF assms(1-6)] assms(7,8)] .

theorem acked_is_delivered_witness:
  "\<exists>a b. session (demo_end, demo_end) (a, b) \<and> kcp_WaitSnd (e_k a) = 0 \<and> e_sent a = [[1, 2, 3]] \<and> e_got b = e_sent a"
proof -
  let ?a = "demo_a\<lparr>e_k := demo_acked\<rparr>" and ?b = "demo_b\<lparr>e_k := demo_answer\<rparr>"
  have "e_got ?b = e_sent ?a"
    by (rule acked_is_delivered[OF demo_round demo_start(1,1,2)])
      (simp_all add: demo_start(3) demo_a_def demo_b_def demo_total demo_nothing_left demo_answer_empty)
  moreover have "e_sent ?a = [[1, 2, 3]]" by (simp add: demo_a_def)
  ultimately show ?thesis using demo_round demo_nothing_left by (intro exI[of _ ?a] exI[of _ ?b]) simp
qed

section \<open>Progress\<close>

text \<open>
  C7: a round of datagrams makes progress, in a session of fewer than 2 to the 31 segments each way.
  When \<open>flush\<close> owes a transmission to every segment in flight that is not acknowledged (it has not
  been sent yet, or its timer has run out), and the peer has room, then the datagrams of this flush, taken in by the peer in any order, any number of
  times and mixed with any old ones, bring it up to date: it expects what the sender will send
  next, and its queue holds all that was sent and not yet read, in order.
\<close>

theorem round_delivers:
  assumes "session (a0, b0) (a, b)" and "fresh a0" and "fresh b0" and "k_mtu (e_k a0) = k_mtu (e_k b0)"
    and "seg_total (unat (k_mss (e_k a0))) (e_sent a) < 2 ^ 31"
    and "seg_total (unat (k_mss (e_k a0))) (e_sent b) < 2 ^ 31"
    and "k_conv (e_k a) = k_conv (e_k b)" and "kcp_flush clk False (e_k a) = Some (t, ka)"
    and "\<forall>x \<in> set (flush_flight (e_k a)). sg_acked x \<noteq> 1 \<longrightarrow> owed clk (fast_limit (e_k a)) x"
    and "unat (k_snd_nxt ka) + length (rcv_queue_list (e_k b)) \<le> unat (k_rcv_nxt (e_k b)) + unat (k_rcv_wnd (e_k b))"
    and "set (drop (length (k_output (e_k a))) (k_output ka)) \<subseteq> set ds" and "set ds \<subseteq> set (k_output ka)"
  shows "\<exists>kb. take_all clk' regular ackNoDelay ds (e_k b) = Some kb \<and> k_rcv_nxt kb = k_snd_nxt ka
    \<and> msg_log (unat (k_mss (e_k a))) (e_got b) @ map pl (rcv_queue_list kb) = take (unat (k_snd_nxt ka)) (e_log a)"
  using round_takes[OF session_ready(1-4)[OF assms(1-6)] assms(7-12)] .

theorem round_delivers_witness:
  "\<exists>kb. take_all (\<lambda>_. 0) True False [demo_datagram, demo_datagram] (NewKCP 7) = Some kb \<and> k_rcv_nxt kb = 1
    \<and> map pl (rcv_queue_list kb) = [(0, [1, 2, 3])]"
proof -
  have out: "k_output demo_flushed = [demo_datagram]"
    using demo_run(2) by (cases "k_output demo_flushed") (simp_all add: demo_datagram_def)
  have "\<exists>kb. take_all (\<lambda>_. 0) True False [demo_datagram, demo_datagram] (e_k demo_end) = Some kb
     \<and> k_rcv_nxt kb = k_snd_nxt demo_flushed
     \<and> msg_log (unat (k_mss (e_k demo_a))) (e_got demo_end) @ map pl (rcv_queue_list kb)
        = take (unat (k_snd_nxt demo_flushed)) (e_log demo_a)"
    by (rule round_delivers[OF demo_sending demo_start(1,1,2)])
      (use demo_sent_fields demo_new_fields demo_flush demo_flushed_fields in
        \<open>simp_all add: demo_start(3) demo_total demo_a_def demo_end_def demo_run(1) out owed_def\<close>)
  moreover have "e_log demo_a = [(0, [1, 2, 3])]"
    using demo_sent_fields(3) demo_sent_log by (simp add: e_log_def demo_a_def)
  ultimately show ?thesis by (simp add: demo_end_def demo_flushed_fields)
qed

text \<open>
  C8: and the acknowledgements clear the sender, in such a session too. When \<open>flush\<close> runs at an end that has
  acknowledgements to send, its datagrams, taken in by the other end in any order and any
  number of times, remove from its buffer all that has been taken in; when that is all
  it sent and nothing is queued, it waits for nothing any more.
\<close>

theorem round_clears_sender:
  assumes "session (a0, b0) (a, b)" and "fresh a0" and "fresh b0" and "k_mtu (e_k a0) = k_mtu (e_k b0)"
    and "seg_total (unat (k_mss (e_k a0))) (e_sent a) < 2 ^ 31"
    and "seg_total (unat (k_mss (e_k a0))) (e_sent b) < 2 ^ 31"
    and "k_conv (e_k a) = k_conv (e_k b)" and "kcp_flush clk ackOnly (e_k b) = Some (t, kb)"
    and "k_acklist (e_k b) \<noteq> []"
    and "set (drop (length (k_output (e_k b))) (k_output kb)) \<subseteq> set ds" and "set ds \<subseteq> set (k_output kb)"
  shows "\<exists>ka. take_all clk' regular ackNoDelay ds (e_k a) = Some ka
    \<and> (\<forall>x \<in> set (snd_buf_list ka). k_rcv_nxt (e_k b) \<le> sg_sn x)
    \<and> (k_rcv_nxt (e_k b) = k_snd_nxt (e_k a) \<longrightarrow> snd_queue_list (e_k a) = [] \<longrightarrow> kcp_WaitSnd ka = 0)"
  using round_clears[OF session_ready(1-4)[OF assms(1-6)] assms(7-11)] .

theorem round_clears_sender_witness:
  "\<exists>ka. take_all (\<lambda>_. 0) True False [hd (k_output demo_answer)] demo_flushed = Some ka \<and> kcp_WaitSnd ka = 0"
proof -
  have "\<exists>ka. take_all (\<lambda>_. 0) True False [hd (k_output demo_answer)] (e_k (demo_a\<lparr>e_k := demo_flushed\<rparr>)) = Some ka
    \<and> (\<forall>x \<in> set (snd_buf_list ka). k_rcv_nxt (e_k demo_b) \<le> sg_sn x)
    \<and> (k_rcv_nxt (e_k demo_b) = k_snd_nxt (e_k (demo_a\<lparr>e_k := demo_flushed\<rparr>))
        \<longrightarrow> snd_queue_list (e_k (demo_a\<lparr>e_k := demo_flushed\<rparr>)) = [] \<longrightarrow> kcp_WaitSnd ka = 0)"
    by (rule round_clears_sender[where kb = demo_answer, OF demo_delivery demo_start(1,1,2)])
      (use demo_received_fields demo_flushed_fields demo_steps in
        \<open>auto simp: demo_start(3) demo_total demo_a_def demo_b_def\<close>)
  then show ?thesis using demo_received_fields(5) demo_flushed_fields by (auto simp: demo_a_def demo_b_def)
qed

end
