(* ===== verification/Config.thy ===== *)
theory Config
  imports Wire
begin

text \<open>
  The configuration of the high-level protocol (\<open>config.go\<close>, \<open>config_optimized.go\<close>), the
  message size limits computed from it (\<open>peer.go\<close>) and the helpers of \<open>common.go\<close>. Go's
  \<open>int\<close> is 64 bits wide here; \<open>go_int\<close> is the wrap-around, written where a value can leave
  that range. A \<open>uint\<close> is a 64-bit word. The random bytes of \<open>GenerateCookie\<close> and the text
  of an address of another network are parameters.
\<close>

section \<open>The code\<close>

definition go_int :: "int \<Rightarrow> int" where
  "go_int x = sint (word_of_int x :: 64 word)"

record KcpConfig =
  cf_DualMode :: bool
  cf_RecvBufferSize :: int
  cf_SendBufferSize :: int
  cf_Mtu :: int
  cf_NoDelay :: bool
  cf_Interval :: "64 word"
  cf_FastResend :: int
  cf_CongestionWindow :: bool
  cf_SendWindowSize :: "64 word"
  cf_ReceiveWindowSize :: "64 word"
  cf_Timeout :: int
  cf_MaxRetransmits :: "64 word"

abbreviation (input) DEFAULT_TIMEOUT :: "'a::numeral" where "DEFAULT_TIMEOUT \<equiv> 10000"
abbreviation (input) PING_INTERVAL :: "'a::numeral" where "PING_INTERVAL \<equiv> 1000"
abbreviation (input) QueueDisconnectThreshold :: "'a::numeral" where "QueueDisconnectThreshold \<equiv> 10000"
abbreviation (input) CHANNEL_HEADER_SIZE :: "'a::numeral" where "CHANNEL_HEADER_SIZE \<equiv> 1"
abbreviation (input) COOKIE_HEADER_SIZE :: "'a::numeral" where "COOKIE_HEADER_SIZE \<equiv> 4"
abbreviation (input) METADATA_SIZE_RELIABLE :: "'a::numeral" where "METADATA_SIZE_RELIABLE \<equiv> 5"
abbreviation (input) METADATA_SIZE_UNRELIABLE :: "'a::numeral" where "METADATA_SIZE_UNRELIABLE \<equiv> 5"
abbreviation (input) FRG_MAX :: "'a::numeral" where "FRG_MAX \<equiv> 255"

definition DefaultKcpConfig :: KcpConfig where
  "DefaultKcpConfig =
     \<lparr>cf_DualMode = False, cf_RecvBufferSize = 1024 * 1024 * 7, cf_SendBufferSize = 1024 * 1024 * 7,
      cf_Mtu = IKCP_MTU_DEF, cf_NoDelay = True, cf_Interval = 10, cf_FastResend = 0,
      cf_CongestionWindow = False, cf_SendWindowSize = IKCP_WND_SND,
      cf_ReceiveWindowSize = IKCP_WND_RCV, cf_Timeout = DEFAULT_TIMEOUT,
      cf_MaxRetransmits = IKCP_DEADLINK\<rparr>"

type_synonym KcpConfigOption = "KcpConfig \<Rightarrow> KcpConfig"

fun NewKcpConfig_loop :: "KcpConfigOption list \<Rightarrow> KcpConfig \<Rightarrow> KcpConfig" where
  "NewKcpConfig_loop [] cfg = cfg"
| "NewKcpConfig_loop (opt # opts) cfg = NewKcpConfig_loop opts (opt cfg)"

definition NewKcpConfig :: "KcpConfigOption list \<Rightarrow> KcpConfig" where
  "NewKcpConfig opts = NewKcpConfig_loop opts DefaultKcpConfig"

definition WithDualMode :: "bool \<Rightarrow> KcpConfigOption" where
  "WithDualMode v c = c\<lparr>cf_DualMode := v\<rparr>"

definition WithRecvBufferSize :: "int \<Rightarrow> KcpConfigOption" where
  "WithRecvBufferSize v c = c\<lparr>cf_RecvBufferSize := v\<rparr>"

definition WithSendBufferSize :: "int \<Rightarrow> KcpConfigOption" where
  "WithSendBufferSize v c = c\<lparr>cf_SendBufferSize := v\<rparr>"

definition WithMtu :: "int \<Rightarrow> KcpConfigOption" where
  "WithMtu v c = c\<lparr>cf_Mtu := v\<rparr>"

definition WithNoDelay :: "bool \<Rightarrow> KcpConfigOption" where
  "WithNoDelay v c = c\<lparr>cf_NoDelay := v\<rparr>"

definition WithInterval :: "64 word \<Rightarrow> KcpConfigOption" where
  "WithInterval v c = c\<lparr>cf_Interval := v\<rparr>"

definition WithFastResend :: "int \<Rightarrow> KcpConfigOption" where
  "WithFastResend v c = c\<lparr>cf_FastResend := v\<rparr>"

definition WithCongestionWindow :: "bool \<Rightarrow> KcpConfigOption" where
  "WithCongestionWindow v c = c\<lparr>cf_CongestionWindow := v\<rparr>"

definition WithSendWindowSize :: "64 word \<Rightarrow> KcpConfigOption" where
  "WithSendWindowSize v c = c\<lparr>cf_SendWindowSize := v\<rparr>"

definition WithReceiveWindowSize :: "64 word \<Rightarrow> KcpConfigOption" where
  "WithReceiveWindowSize v c = c\<lparr>cf_ReceiveWindowSize := v\<rparr>"

definition WithTimeout :: "int \<Rightarrow> KcpConfigOption" where
  "WithTimeout v c = c\<lparr>cf_Timeout := v\<rparr>"

definition WithMaxRetransmits :: "64 word \<Rightarrow> KcpConfigOption" where
  "WithMaxRetransmits v c = c\<lparr>cf_MaxRetransmits := v\<rparr>"

definition HighPerformanceKcpConfig :: KcpConfig where
  "HighPerformanceKcpConfig =
     \<lparr>cf_DualMode = False, cf_RecvBufferSize = 4 * 1024 * 1024, cf_SendBufferSize = 4 * 1024 * 1024,
      cf_Mtu = 1400, cf_NoDelay = True, cf_Interval = 10, cf_FastResend = 2,
      cf_CongestionWindow = False, cf_SendWindowSize = 512, cf_ReceiveWindowSize = 512,
      cf_Timeout = 10 * 1000, cf_MaxRetransmits = 20\<rparr>"

definition ConservativeKcpConfig :: KcpConfig where
  "ConservativeKcpConfig =
     \<lparr>cf_DualMode = False, cf_RecvBufferSize = 4 * 1024 * 1024, cf_SendBufferSize = 4 * 1024 * 1024,
      cf_Mtu = 1200, cf_NoDelay = True, cf_Interval = 10, cf_FastResend = 0,
      cf_CongestionWindow = True, cf_SendWindowSize = 64, cf_ReceiveWindowSize = 64,
      cf_Timeout = 15000, cf_MaxRetransmits = 30\<rparr>"

text \<open>\<open>int(rcvWnd-1)\<close> reads the wrapped-around difference as a signed number.\<close>

definition ReliableMaxMessageSize_Unconstrained :: "int \<Rightarrow> 64 word \<Rightarrow> int" where
  "ReliableMaxMessageSize_Unconstrained mtu rcvWnd =
     go_int ((mtu - IKCP_OVERHEAD - METADATA_SIZE_RELIABLE) * sint (rcvWnd - 1) - 1)"

definition ReliableMaxMessageSize :: "int \<Rightarrow> 64 word \<Rightarrow> int" where
  "ReliableMaxMessageSize mtu rcvWnd =
     ReliableMaxMessageSize_Unconstrained mtu (if rcvWnd < FRG_MAX then rcvWnd else FRG_MAX)"

definition UnreliableMaxMessageSize :: "int \<Rightarrow> int" where
  "UnreliableMaxMessageSize mtu = go_int (mtu - METADATA_SIZE_UNRELIABLE - 1)"

text \<open>
  The key under which the server files a connection. A nil IP address is an empty one; of any
  other kind of address, the code points of its text count.
\<close>

datatype Addr = NilAddr | UDPAddr bytes int | TCPAddr bytes int | OtherAddr "int list"

fun hash_loop :: "int list \<Rightarrow> int \<Rightarrow> int" where
  "hash_loop [] hash = hash"
| "hash_loop (b # bs) hash = hash_loop bs (go_int (hash * 31 + b))"

fun ConnectionHash :: "Addr \<Rightarrow> int" where
  "ConnectionHash NilAddr = 0"
| "ConnectionHash (UDPAddr ip port) = go_int (hash_loop (map uint ip) 0 * 31 + port)"
| "ConnectionHash (TCPAddr ip port) = go_int (hash_loop (map uint ip) 0 * 31 + port)"
| "ConnectionHash (OtherAddr s) = hash_loop s 0"

text \<open>\<open>None\<close>: the random generator failed; the fallback is the length of the four-byte buffer.\<close>

definition GenerateCookie :: "bytes option \<Rightarrow> u32" where
  "GenerateCookie random = (case random of None \<Rightarrow> 4 | Some buf \<Rightarrow> un_le32 buf)"

section \<open>Arithmetic\<close>

lemma go_int_id: "- (2 ^ 63) \<le> x \<Longrightarrow> x < 2 ^ 63 \<Longrightarrow> go_int x = x"
  unfolding go_int_def by (simp add: sint_sbintrunc' signed_take_bit_int_eq_self)

lemma go_int_mod: "go_int (go_int x * a + b) = go_int (x * a + b)"
proof -
  have "(word_of_int (sint (word_of_int x :: 64 word) * a + b) :: 64 word)
      = word_of_int (sint (word_of_int x :: 64 word)) * word_of_int a + word_of_int b" by simp
  also have "\<dots> = word_of_int x * word_of_int a + word_of_int b" by simp
  also have "\<dots> = word_of_int (x * a + b)" by simp
  finally show ?thesis by (simp only: go_int_def)
qed

lemma hash_loop_append: "hash_loop (xs @ ys) h = hash_loop ys (hash_loop xs h)"
  by (induction xs arbitrary: h) simp_all

section \<open>Message sizes\<close>

text \<open>With a receive window \<open>w\<close> of at least one segment, counted up to 255.\<close>

lemma sint_window:
  fixes w :: "64 word"
  assumes "0 < w" and "w < 2 ^ 63"
  shows "sint (w - 1) = int (unat w) - 1"
proof -
  have u: "0 < uint w" "uint w < 2 ^ 63" using assms by (simp_all add: word_less_def)
  have "w - 1 = word_of_int (uint w - 1)" by simp
  then have "sint (w - 1) = uint w - 1"
    using go_int_id[of "uint w - 1"] u by (simp add: go_int_def)
  then show ?thesis by simp
qed

lemma ReliableMax_eq:
  assumes "0 < rcvWnd" and "29 \<le> mtu" and "mtu < 2 ^ 31"
  shows "ReliableMaxMessageSize mtu rcvWnd = (mtu - 29) * (min (int (unat rcvWnd)) 255 - 1) - 1"
proof -
  define w where "w = (if rcvWnd < 255 then rcvWnd else 255)"
  define n where "n = int (unat w) - 1"
  have w: "0 < w" "w \<le> 255" using assms(1) by (auto simp: w_def)
  then have "w < 2 ^ 63" by (rule_tac le_less_trans[of w 255]) simp_all
  then have s: "sint (w - 1) = n" unfolding n_def by (rule sint_window[OF w(1)])
  have "0 < unat w" "unat w \<le> 255" using w by (simp_all add: word_le_nat_alt word_less_nat_alt)
  then have n: "0 \<le> n" "n \<le> 254" unfolding n_def by linarith+
  have m: "n = min (int (unat rcvWnd)) 255 - 1"
  proof (cases "rcvWnd < 255")
    case True
    then have "unat rcvWnd < 255" by (simp add: word_less_nat_alt)
    then show ?thesis unfolding n_def w_def if_P[OF True] by linarith
  next
    case False
    then have "255 \<le> unat rcvWnd" "unat (255 :: 64 word) = 255" by (simp_all add: word_less_nat_alt)
    then show ?thesis unfolding n_def w_def if_not_P[OF False] by linarith
  qed
  have "(mtu - 29) * n \<le> 2 ^ 31 * 254" by (rule mult_mono) (use assms n in simp_all)
  moreover have "0 \<le> (mtu - 29) * n" using assms n by simp
  ultimately have "go_int ((mtu - 29) * n - 1) = (mtu - 29) * n - 1"
    by (intro go_int_id) simp_all
  then show ?thesis
    unfolding ReliableMaxMessageSize_def ReliableMaxMessageSize_Unconstrained_def w_def[symmetric] s m[symmetric]
    by simp
qed

end
