(* ===== verification/Peer.thy ===== *)
theory Peer
  imports Config Kcp_Update Kcp_Send
begin

text \<open>
  The session on top of a KCP connection (\<open>peer.go\<close>): handshake, pings, timeouts, and the
  framing of its datagrams. What the model makes explicit:

  \<^item> the calls of the event handler are logged in \<open>p_events\<close>, in order; what the handler does in
    return, to the peer and to its own state (a record that extends the peer), is a parameter
    \<open>h\<close>. \<open>RawSend\<close> is I/O and is only logged. Error texts are left out;
  \<^item> \<open>p_sent\<close> and \<open>p_received\<close> log the messages handed to KCP and taken from it. The
    code keeps no such logs and nothing in the model reads them;
  \<^item> the output callback of the KCP connection wraps each datagram and hands it to \<open>RawSend\<close>:
    \<open>kcp_output\<close> does so for the datagrams of one KCP call, right after it;
  \<^item> the peer's clock \<open>p.Time()\<close> and the KCP clock start at different moments: \<open>pc\<close> and \<open>kc\<close>;
  \<^item> a panic is \<open>None\<close>. The development shows that no operation panics, so the recovery
    branches of the two ticks are not modelled.

  \<open>disconnectOnce\<close> counts as done from the moment its function starts: a callback that
  disconnects while it runs would wait for itself in the code, and does nothing here. The same
  holds of a callback that sends while the peer's lock is held. No handler of the library does so.

  Locks, buffer pools, timing statistics and logging have no effect on this state. The peer
  always has a KCP connection and a handler, so the nil checks are not modelled.
\<close>

section \<open>The code\<close>

datatype KcpState = KcpConnected | KcpAuthenticated | KcpDisconnected

datatype event =
  EvAuthenticated | EvData bytes KcpChannel | EvDisconnected | EvError ErrorCode | EvRawSend bytes

record KcpPeer =
  p_Kcp :: KCP
  p_Cookie :: u32
  p_State :: KcpState
  p_Timeout :: int
  p_lastReceiveTime :: u32
  p_kcpMessageBuffer :: bytes
  p_kcpSendBuffer :: bytes
  p_LastPingTime :: u32
  p_LastPongTime :: u32
  p_ReliableMax :: int
  p_UnreliableMax :: int
  p_rtt :: u32
  p_flushInterval :: u32
  p_disconnectOnce :: bool
  p_events :: "event list"
  p_sent :: "bytes list"
  p_received :: "bytes list"
  p_reads :: nat

type_synonym 'a handler = "event \<Rightarrow> 'a KcpPeer_scheme \<Rightarrow> 'a KcpPeer_scheme option"

text \<open>A call of the handler, except \<open>RawSend\<close>.\<close>

definition fire :: "'a handler \<Rightarrow> event \<Rightarrow> 'a KcpPeer_scheme \<Rightarrow> 'a KcpPeer_scheme option" where
  "fire h ev p = h ev (p\<lparr>p_events := p_events p @ [ev]\<rparr>)"

definition peer_Time :: "clock \<Rightarrow> 'a KcpPeer_scheme \<Rightarrow> u32 \<times> 'a KcpPeer_scheme" where
  "peer_Time pc p = (pc (p_reads p), p\<lparr>p_reads := p_reads p + 1\<rparr>)"

text \<open>The buffer \<open>out\<close> of a reliable datagram; whatever it held before is overwritten in full.\<close>

definition raw_reliable :: "u32 \<Rightarrow> bytes \<Rightarrow> bytes" where
  "raw_reliable cookie buf =
     (let out = replicate (length buf + 5) 0;
          out = out[0 := channel_byte KcpReliable];
          out = Encode32U out 1 cookie
      in take 5 out @ go_copy (drop 5 out) buf)"

definition kcp_output :: "KCP \<Rightarrow> 'a KcpPeer_scheme \<Rightarrow> 'a KcpPeer_scheme" where
  "kcp_output k p =
     p\<lparr>p_Kcp := k\<lparr>k_output := []\<rparr>,
       p_events := p_events p @ map (\<lambda>d. EvRawSend (raw_reliable (p_Cookie p) d)) (k_output k)\<rparr>"

fun boolToInt :: "bool \<Rightarrow> int" where
  "boolToInt True = 1"
| "boolToInt False = 0"

text \<open>
  \<open>Reset\<close>: what it does not assign keeps its value. Allocating a slice of negative length
  panics. Configured \<open>uint\<close> values are read as signed ones on their way to KCP.
\<close>

definition peer_Reset :: "KcpConfig \<Rightarrow> 'a KcpPeer_scheme \<Rightarrow> 'a KcpPeer_scheme option" where
  "peer_Reset config p =
     (if cf_Mtu config < 0 then None
      else let reliableMax = ReliableMaxMessageSize (cf_Mtu config) (cf_ReceiveWindowSize config);
               reliableMax = (if reliableMax < 0 then 0 else reliableMax);
               k = NewKCP 0;
               nc = (if \<not> cf_CongestionWindow config then 1 else 0);
               k = snd (kcp_NoDelay (boolToInt (cf_NoDelay config)) (sint (cf_Interval config))
                          (cf_FastResend config) nc k);
               k = snd (kcp_WndSize (sint (cf_SendWindowSize config)) (sint (cf_ReceiveWindowSize config)) k);
               mtuKcp = cf_Mtu config - METADATA_SIZE_RELIABLE;
               mtuKcp = (if mtuKcp < IKCP_OVERHEAD + 1 then IKCP_OVERHEAD + 1 else mtuKcp);
               k = snd (kcp_SetMtu mtuKcp k);
               k = k\<lparr>k_dead_link := ucast (cf_MaxRetransmits config)\<rparr>
           in Some (p\<lparr>p_Kcp := k, p_Cookie := 0, p_State := KcpConnected, p_Timeout := cf_Timeout config,
                      p_lastReceiveTime := 0,
                      p_kcpMessageBuffer := replicate (1 + nat reliableMax) 0,
                      p_kcpSendBuffer := replicate (1 + nat reliableMax) 0,
                      p_LastPingTime := 0, p_ReliableMax := reliableMax,
                      p_UnreliableMax := UnreliableMaxMessageSize (cf_Mtu config), p_rtt := 0\<rparr>))"

definition zero_peer :: KcpPeer where
  "zero_peer = \<lparr>p_Kcp = NewKCP 0, p_Cookie = 0, p_State = KcpConnected, p_Timeout = 0, p_lastReceiveTime = 0,
     p_kcpMessageBuffer = [], p_kcpSendBuffer = [], p_LastPingTime = 0, p_LastPongTime = 0, p_ReliableMax = 0,
     p_UnreliableMax = 0, p_rtt = 0, p_flushInterval = 0, p_disconnectOnce = False, p_events = [],
     p_sent = [], p_received = [], p_reads = 0\<rparr>"

definition NewKcpPeer :: "u32 \<Rightarrow> KcpConfig \<Rightarrow> KcpPeer option" where
  "NewKcpPeer cookie config = map_option (\<lambda>p. p\<lparr>p_Cookie := cookie\<rparr>) (peer_Reset config zero_peer)"

definition MaxSendRate :: "'a KcpPeer_scheme \<Rightarrow> u32" where
  "MaxSendRate p =
     (let interval = k_interval (p_Kcp p)
      in if interval = 0 then 0 else k_snd_wnd (p_Kcp p) * k_mtu (p_Kcp p) * 1000 div interval)"

definition MaxReceiveRate :: "'a KcpPeer_scheme \<Rightarrow> u32" where
  "MaxReceiveRate p =
     (let interval = k_interval (p_Kcp p)
      in if interval = 0 then 0 else k_rcv_wnd (p_Kcp p) * k_mtu (p_Kcp p) * 1000 div interval)"

definition SendQueueCount :: "'a KcpPeer_scheme \<Rightarrow> nat" where
  "SendQueueCount p = rb_Len (k_snd_queue (p_Kcp p))"

definition ReceiveQueueCount :: "'a KcpPeer_scheme \<Rightarrow> nat" where
  "ReceiveQueueCount p = rb_Len (k_rcv_queue (p_Kcp p))"

definition SendBufferCount :: "'a KcpPeer_scheme \<Rightarrow> nat" where
  "SendBufferCount p = rb_Len (k_snd_buf (p_Kcp p))"

definition ReceiveBufferCount :: "'a KcpPeer_scheme \<Rightarrow> nat" where
  "ReceiveBufferCount p = heap_Len (k_rcv_buf (p_Kcp p))"

definition GetRTT :: "'a KcpPeer_scheme \<Rightarrow> u32" where
  "GetRTT p = p_rtt p"

subsection \<open>Sending\<close>

definition SendUnreliable :: "KcpHeaderUnreliable \<Rightarrow> bytes \<Rightarrow> 'a KcpPeer_scheme \<Rightarrow> 'a KcpPeer_scheme" where
  "SendUnreliable header content p =
     (if int (length content) > p_UnreliableMax p then p
      else let out = replicate (6 + length content) 0;
               out = out[0 := channel_byte KcpUnreliable];
               out = Encode32U out 1 (p_Cookie p);
               out = out[5 := unreliable_byte header];
               out = take 6 out @ go_copy (drop 6 out) content
           in p\<lparr>p_events := p_events p @ [EvRawSend out]\<rparr>)"

fun SendDisconnect_loop :: "nat \<Rightarrow> 'a KcpPeer_scheme \<Rightarrow> 'a KcpPeer_scheme" where
  "SendDisconnect_loop 0 p = p"
| "SendDisconnect_loop (Suc n) p = SendDisconnect_loop n (SendUnreliable KcpHeaderUnrelDisconnect [] p)"

definition SendDisconnect :: "'a KcpPeer_scheme \<Rightarrow> 'a KcpPeer_scheme" where
  "SendDisconnect p = SendDisconnect_loop 5 p"

text \<open>\<open>disconnectOnce.Do\<close> runs its argument only the first time.\<close>

definition Disconnect :: "'a handler \<Rightarrow> 'a KcpPeer_scheme \<Rightarrow> 'a KcpPeer_scheme option" where
  "Disconnect h p =
     (if p_disconnectOnce p then Some p
      else let p = p\<lparr>p_disconnectOnce := True, p_State := KcpDisconnected\<rparr>;
               p = SendDisconnect p
           in fire h EvDisconnected p)"

definition SendReliable :: "clock \<Rightarrow> 'a handler \<Rightarrow> KcpHeaderReliable \<Rightarrow> bytes \<Rightarrow> 'a KcpPeer_scheme \<Rightarrow> 'a KcpPeer_scheme option" where
  "SendReliable kc h header content p =
     (if 1 + length content > length (p_kcpSendBuffer p) then fire h (EvError ErrorCodeInvalidSend) p
      else let buf = (p_kcpSendBuffer p)[0 := reliable_byte header];
               buf = take 1 buf @ go_copy (drop 1 buf) content;
               p = p\<lparr>p_kcpSendBuffer := buf\<rparr>;
               messageData = take (1 + length content) buf;
               k = p_Kcp p;
               waitsnd = kcp_WaitSnd k
           in if waitsnd < unat (k_snd_wnd k) \<and> waitsnd < unat (k_rmt_wnd k)
              then do {
                (sent, k) \<leftarrow> kcp_Send messageData k;
                let p = p\<lparr>p_Kcp := k\<rparr>;
                if sent < 0 then fire h (EvError ErrorCodeInvalidSend) p
                else let p = p\<lparr>p_sent := p_sent p @ [messageData]\<rparr>
                     in if kcp_WaitSnd k \<ge> unat (k_snd_wnd k) \<or> kcp_WaitSnd k \<ge> unat (k_rmt_wnd k)
                        then do { (_, k) \<leftarrow> kcp_flush kc False k; Some (kcp_output k p) }
                        else Some p
              }
              else fire h (EvError ErrorCodeInvalidSend) p)"

definition SendPing :: "clock \<Rightarrow> clock \<Rightarrow> 'a handler \<Rightarrow> 'a KcpPeer_scheme \<Rightarrow> 'a KcpPeer_scheme option" where
  "SendPing kc pc h p =
     (let (now, p) = peer_Time pc p;
          pingData = Encode32U (replicate 4 0) 0 now;
          (now, p) = peer_Time pc p
      in SendReliable kc h KcpHeaderPing pingData (p\<lparr>p_lastReceiveTime := now\<rparr>))"

definition SendPong :: "clock \<Rightarrow> clock \<Rightarrow> 'a handler \<Rightarrow> u32 \<Rightarrow> 'a KcpPeer_scheme \<Rightarrow> 'a KcpPeer_scheme option" where
  "SendPong kc pc h pingTimestamp p =
     (let pongData = Encode32U (replicate 4 0) 0 pingTimestamp;
          (now, p) = peer_Time pc p
      in SendReliable kc h KcpHeaderPong pongData (p\<lparr>p_lastReceiveTime := now\<rparr>))"

definition SendData :: "clock \<Rightarrow> clock \<Rightarrow> 'a handler \<Rightarrow> bytes \<Rightarrow> KcpChannel \<Rightarrow> 'a KcpPeer_scheme \<Rightarrow> 'a KcpPeer_scheme option" where
  "SendData kc pc h data channel p =
     (if length data = 0 then do { p \<leftarrow> fire h (EvError ErrorCodeInvalidSend) p; Disconnect h p }
      else let (now, p) = peer_Time pc p;
               p = p\<lparr>p_lastReceiveTime := now\<rparr>
           in case channel of
                KcpReliable \<Rightarrow> SendReliable kc h KcpHeaderData data p
              | KcpUnreliable \<Rightarrow> Some (SendUnreliable KcpHeaderUnrelData data p))"

definition SendHello :: "clock \<Rightarrow> 'a handler \<Rightarrow> 'a KcpPeer_scheme \<Rightarrow> 'a KcpPeer_scheme option" where
  "SendHello kc h p = SendReliable kc h KcpHeaderHello [] p"

subsection \<open>Receiving\<close>

text \<open>The result is the header and the message, when one was received.\<close>

definition ReceiveNextReliable ::
    "clock \<Rightarrow> 'a handler \<Rightarrow> 'a KcpPeer_scheme \<Rightarrow> ((KcpHeaderReliable \<times> bytes) option \<times> 'a KcpPeer_scheme) option" where
  "ReceiveNextReliable pc h p =
     (let msgSize = kcp_PeekSize (p_Kcp p)
      in if msgSize \<le> 0 then Some (None, p)
         else if msgSize > int (length (p_kcpMessageBuffer p))
         then do { p \<leftarrow> fire h (EvError ErrorCodeInvalidReceive) p; p \<leftarrow> Disconnect h p; Some (None, p) }
         else do {
           (received, buf, k) \<leftarrow> kcp_Recv (p_kcpMessageBuffer p) (p_Kcp p);
           let p = p\<lparr>p_Kcp := k, p_kcpMessageBuffer := buf\<rparr>;
           if received < 0
           then do { p \<leftarrow> fire h (EvError ErrorCodeInvalidReceive) p; p \<leftarrow> Disconnect h p; Some (None, p) }
           else let p = p\<lparr>p_received := p_received p @ [take (nat msgSize) buf]\<rparr>;
                    (header, valid) = ParseReliable (buf ! 0)
                in if \<not> valid
                   then do { p \<leftarrow> fire h (EvError ErrorCodeInvalidReceive) p; p \<leftarrow> Disconnect h p; Some (None, p) }
                   else let message = take (nat msgSize - 1) (drop 1 buf);
                            (now, p) = peer_Time pc p
                        in Some (Some (header, message), p\<lparr>p_lastReceiveTime := now\<rparr>)
         })"

definition OnRawInputReliable :: "clock \<Rightarrow> bytes \<Rightarrow> 'a KcpPeer_scheme \<Rightarrow> 'a KcpPeer_scheme option" where
  "OnRawInputReliable kc message p =
     (if length message < IKCP_OVERHEAD \<or> \<not> (message ! 4 \<ge> IKCP_CMD_PUSH \<and> message ! 4 \<le> IKCP_CMD_WINS) then Some p
      else do { (input, k) \<leftarrow> kcp_Input kc message True True (p_Kcp p); Some (kcp_output k p) })"

definition OnRawInputUnreliable :: "clock \<Rightarrow> 'a handler \<Rightarrow> bytes \<Rightarrow> 'a KcpPeer_scheme \<Rightarrow> 'a KcpPeer_scheme option" where
  "OnRawInputUnreliable pc h message p =
     (if length message < 1 then Some p
      else let (header, valid) = ParseUnreliable (message ! 0)
           in if \<not> valid
              then do { p \<leftarrow> fire h (EvError ErrorCodeInvalidReceive) p; Disconnect h p }
              else let content = drop 1 message
                   in case header of
                        KcpHeaderUnrelData \<Rightarrow>
                          if p_State p = KcpAuthenticated
                          then do {
                            p \<leftarrow> fire h (EvData content KcpUnreliable) p;
                            let (now, p) = peer_Time pc p;
                            Some (p\<lparr>p_lastReceiveTime := now\<rparr>)
                          }
                          else Some p
                      | KcpHeaderUnrelDisconnect \<Rightarrow> Disconnect h p)"

subsection \<open>Ticks\<close>

definition HandleTimeout :: "'a handler \<Rightarrow> u32 \<Rightarrow> 'a KcpPeer_scheme \<Rightarrow> 'a KcpPeer_scheme option" where
  "HandleTimeout h time p =
     (if time \<ge> p_lastReceiveTime p + word_of_int (p_Timeout p)
      then do { p \<leftarrow> fire h (EvError ErrorCodeTimeout) p; Disconnect h p }
      else Some p)"

definition HandleDeadLink :: "'a handler \<Rightarrow> 'a KcpPeer_scheme \<Rightarrow> 'a KcpPeer_scheme option" where
  "HandleDeadLink h p =
     (if k_state (p_Kcp p) = 0xFFFFFFFF
      then do { p \<leftarrow> fire h (EvError ErrorCodeTimeout) p; Disconnect h p }
      else Some p)"

definition HandlePing :: "clock \<Rightarrow> clock \<Rightarrow> 'a handler \<Rightarrow> u32 \<Rightarrow> 'a KcpPeer_scheme \<Rightarrow> 'a KcpPeer_scheme option" where
  "HandlePing kc pc h time p =
     (if time \<ge> p_LastPingTime p + PING_INTERVAL
      then do { p \<leftarrow> SendPing kc pc h p; Some (p\<lparr>p_LastPingTime := time\<rparr>) }
      else Some p)"

definition HandleChoked :: "'a handler \<Rightarrow> 'a KcpPeer_scheme \<Rightarrow> 'a KcpPeer_scheme option" where
  "HandleChoked h p =
     (let total = ReceiveQueueCount p + SendQueueCount p + ReceiveBufferCount p + SendBufferCount p
      in if total \<ge> QueueDisconnectThreshold
         then do {
           p \<leftarrow> fire h (EvError ErrorCodeCongestion) p;
           Disconnect h (p\<lparr>p_Kcp := (p_Kcp p)\<lparr>k_snd_buf := rb_Clear zero_seg (k_snd_buf (p_Kcp p))\<rparr>\<rparr>)
         }
         else Some p)"

text \<open>Natural numbers are unary when the code is simplified: compare integers there.\<close>

lemma HandleChoked_code [code]:
  "HandleChoked h p =
     (let total = int (ReceiveQueueCount p) + int (SendQueueCount p) + int (ReceiveBufferCount p) + int (SendBufferCount p)
      in if total \<ge> QueueDisconnectThreshold
         then do {
           p \<leftarrow> fire h (EvError ErrorCodeCongestion) p;
           Disconnect h (p\<lparr>p_Kcp := (p_Kcp p)\<lparr>k_snd_buf := rb_Clear zero_seg (k_snd_buf (p_Kcp p))\<rparr>\<rparr>)
         }
         else Some p)"
  unfolding HandleChoked_def Let_def by simp

definition TickIncoming_Connected :: "clock \<Rightarrow> clock \<Rightarrow> 'a handler \<Rightarrow> u32 \<Rightarrow> 'a KcpPeer_scheme \<Rightarrow> 'a KcpPeer_scheme option" where
  "TickIncoming_Connected kc pc h time p = do {
     p \<leftarrow> HandleTimeout h time p;
     p \<leftarrow> HandleDeadLink h p;
     p \<leftarrow> HandlePing kc pc h time p;
     p \<leftarrow> HandleChoked h p;
     (received, p) \<leftarrow> ReceiveNextReliable pc h p;
     case received of
       None \<Rightarrow> Some p
     | Some (KcpHeaderHello, message) \<Rightarrow> fire h EvAuthenticated (p\<lparr>p_State := KcpAuthenticated\<rparr>)
     | Some (KcpHeaderPing, message) \<Rightarrow> Some p
     | Some (KcpHeaderPong, message) \<Rightarrow> Some p
     | Some (KcpHeaderData, message) \<Rightarrow> do { p \<leftarrow> fire h (EvError ErrorCodeInvalidReceive) p; Disconnect h p }
   }"

text \<open>The body of the loop over all received messages.\<close>

definition process_message ::
    "clock \<Rightarrow> clock \<Rightarrow> 'a handler \<Rightarrow> u32 \<Rightarrow> KcpHeaderReliable \<Rightarrow> bytes \<Rightarrow> 'a KcpPeer_scheme \<Rightarrow> 'a KcpPeer_scheme option" where
  "process_message kc pc h time header message p =
     (case header of
        KcpHeaderHello \<Rightarrow> Disconnect h p
      | KcpHeaderData \<Rightarrow>
          if length message > 0 then fire h (EvData message KcpReliable) p
          else do { p \<leftarrow> fire h (EvError ErrorCodeInvalidReceive) p; Disconnect h p }
      | KcpHeaderPing \<Rightarrow>
          if length message = 4 \<and> time \<ge> p_LastPongTime p + PING_INTERVAL
          then (case Decode32U message 0 of (pingTimestamp, ok) \<Rightarrow>
                  if ok then do { p \<leftarrow> SendPong kc pc h pingTimestamp p; Some (p\<lparr>p_LastPongTime := time\<rparr>) }
                  else Some p)
          else Some p
      | KcpHeaderPong \<Rightarrow>
          if length message = 4
          then (case Decode32U message 0 of (originalTimestamp, ok) \<Rightarrow>
                  if ok \<and> time \<ge> originalTimestamp then Some (p\<lparr>p_rtt := time - originalTimestamp\<rparr>) else Some p)
          else Some p)"

text \<open>
  The loop. Each iteration takes at least one segment from the receive queue, which the tick
  refills from the out-of-order buffer only; the fuel counts both.
\<close>

fun receive_loop :: "nat \<Rightarrow> clock \<Rightarrow> clock \<Rightarrow> 'a handler \<Rightarrow> u32 \<Rightarrow> 'a KcpPeer_scheme \<Rightarrow> 'a KcpPeer_scheme option" where
  "receive_loop 0 kc pc h time p = None"
| "receive_loop (Suc fuel) kc pc h time p = do {
     (received, p) \<leftarrow> ReceiveNextReliable pc h p;
     case received of
       None \<Rightarrow> Some p
     | Some (header, message) \<Rightarrow> do {
         p \<leftarrow> process_message kc pc h time header message p;
         receive_loop fuel kc pc h time p
       }
   }"

definition TickIncoming_Authenticated :: "clock \<Rightarrow> clock \<Rightarrow> 'a handler \<Rightarrow> u32 \<Rightarrow> 'a KcpPeer_scheme \<Rightarrow> 'a KcpPeer_scheme option" where
  "TickIncoming_Authenticated kc pc h time p = do {
     p \<leftarrow> HandleTimeout h time p;
     p \<leftarrow> HandleDeadLink h p;
     p \<leftarrow> HandlePing kc pc h time p;
     p \<leftarrow> HandleChoked h p;
     receive_loop (Suc (ReceiveQueueCount p + ReceiveBufferCount p)) kc pc h time p
   }"

definition peer_TickIncoming :: "clock \<Rightarrow> clock \<Rightarrow> 'a handler \<Rightarrow> 'a KcpPeer_scheme \<Rightarrow> 'a KcpPeer_scheme option" where
  "peer_TickIncoming kc pc h p =
     (let (time, p) = peer_Time pc p
      in case p_State p of
           KcpConnected \<Rightarrow> TickIncoming_Connected kc pc h time p
         | KcpAuthenticated \<Rightarrow> TickIncoming_Authenticated kc pc h time p
         | KcpDisconnected \<Rightarrow> Some p)"

text \<open>The flush of an outgoing tick; both states have the same code.\<close>

definition tick_flush :: "clock \<Rightarrow> clock \<Rightarrow> 'a KcpPeer_scheme \<Rightarrow> 'a KcpPeer_scheme option" where
  "tick_flush kc pc p =
     (if p_flushInterval p = 0
      then do { (t, k) \<leftarrow> kcp_flush kc False (p_Kcp p); Some ((kcp_output k p)\<lparr>p_flushInterval := t\<rparr>) }
      else let (now, p) = peer_Time pc p
           in if now \<ge> p_flushInterval p
              then do { (t, k) \<leftarrow> kcp_flush kc False (p_Kcp p); Some ((kcp_output k p)\<lparr>p_flushInterval := t\<rparr>) }
              else Some p)"

definition peer_TickOutgoing :: "clock \<Rightarrow> clock \<Rightarrow> 'a handler \<Rightarrow> 'a KcpPeer_scheme \<Rightarrow> 'a KcpPeer_scheme option" where
  "peer_TickOutgoing kc pc h p =
     (case p_State p of
        KcpConnected \<Rightarrow> do { p \<leftarrow> HandleDeadLink h p; tick_flush kc pc p }
      | KcpAuthenticated \<Rightarrow> do { p \<leftarrow> HandleDeadLink h p; tick_flush kc pc p }
      | KcpDisconnected \<Rightarrow> Some p)"

end
