(* ===== verification/Peer_Contract.thy ===== *)
theory Peer_Contract
  imports Peer Kcp_Sync
begin

text \<open>
  The contract of a peer: the invariant of its state and the relation between the states before
  and after an operation. The handler is an interface: whatever it does to the peer has to keep
  the contract, and then every operation of the peer does, without a panic.

  The contract includes the promise of the KCP session (\<open>Kcp_Session\<close>): a peer is an end of a
  session, with its logs \<open>p_sent\<close> and \<open>p_received\<close>, and the datagrams it has put on the wire.
\<close>

section \<open>What a peer puts on the wire\<close>

lemma raw_reliable_eq: "raw_reliable cookie buf = channel_byte KcpReliable # le32 cookie @ buf"
proof -
  have "replicate (length buf + 5) (0 :: byte) = 0 # replicate 4 0 @ replicate (length buf) 0"
    by (simp add: numeral_eq_Suc flip: replicate_add)
  then show ?thesis
    by (simp add: raw_reliable_def Encode32U_def go_copy_same_length Let_def)
qed

lemma SendUnreliable_eq:
  "SendUnreliable header content p =
     (if int (length content) > p_UnreliableMax p then p
      else p\<lparr>p_events := p_events p
        @ [EvRawSend (channel_byte KcpUnreliable # le32 (p_Cookie p) @ unreliable_byte header # content)]\<rparr>)"
proof -
  have "replicate (6 + length content) (0 :: byte) = 0 # replicate 4 0 @ 0 # replicate (length content) 0"
    by (simp add: numeral_eq_Suc)
  then show ?thesis
    by (simp add: SendUnreliable_def Encode32U_def go_copy_same_length Let_def list_update_append)
qed

text \<open>The KCP datagrams among the raw ones, the data delivered, and the data in messages.\<close>

definition wire_out :: "event \<Rightarrow> bytes list" where
  "wire_out ev = (case ev of EvRawSend d \<Rightarrow> if take 1 d = [channel_byte KcpReliable] then [drop 5 d] else [] | _ \<Rightarrow> [])"

definition outs :: "event list \<Rightarrow> bytes list" where
  "outs evs = concat (map wire_out evs)"

definition ev_data :: "event \<Rightarrow> bytes list" where
  "ev_data ev = (case ev of EvData d KcpReliable \<Rightarrow> [d] | _ \<Rightarrow> [])"

definition delivered :: "event list \<Rightarrow> bytes list" where
  "delivered evs = concat (map ev_data evs)"

definition data_of :: "bytes list \<Rightarrow> bytes list" where
  "data_of msgs = map tl (filter (\<lambda>m. take 1 m = [reliable_byte KcpHeaderData]) msgs)"

definition is_data :: "event \<Rightarrow> bool" where
  "is_data ev = (case ev of EvData _ _ \<Rightarrow> True | _ \<Rightarrow> False)"

lemma event_simps [simp]:
  "wire_out (EvRawSend (raw_reliable cookie d)) = [d]"
  "wire_out (EvRawSend (channel_byte KcpUnreliable # xs)) = []"
  "wire_out EvAuthenticated = []" "wire_out (EvData m ch) = []" "wire_out EvDisconnected = []" "wire_out (EvError c) = []"
  "ev_data EvAuthenticated = []" "ev_data EvDisconnected = []" "ev_data (EvError c) = []" "ev_data (EvRawSend d) = []"
  "ev_data (EvData m KcpUnreliable) = []" "ev_data (EvData m KcpReliable) = [m]"
  "is_data (EvData m ch)" "\<not> is_data EvAuthenticated" "\<not> is_data EvDisconnected" "\<not> is_data (EvError c)"
  "\<not> is_data (EvRawSend d)"
  by (simp_all add: wire_out_def ev_data_def is_data_def raw_reliable_eq)

lemma log_append [simp]:
  "outs [] = []" "outs (xs @ ys) = outs xs @ outs ys" "outs (e # ys) = wire_out e @ outs ys"
  "delivered [] = []" "delivered (xs @ ys) = delivered xs @ delivered ys" "delivered (e # ys) = ev_data e @ delivered ys"
  "data_of [] = []" "data_of (ms @ ns) = data_of ms @ data_of ns"
  by (simp_all add: outs_def delivered_def data_of_def)

lemma outs_raw [simp]: "outs (map (\<lambda>d. EvRawSend (raw_reliable c d)) ds) = ds"
  by (induction ds) simp_all

lemma delivered_raw [simp]: "delivered (map (\<lambda>d. EvRawSend (f d)) ds) = []"
  by (induction ds) simp_all

lemma delivered_no_data: "\<forall>e \<in> set evs. \<not> is_data e \<Longrightarrow> delivered evs = []"
  by (induction evs) (auto simp: delivered_def ev_data_def is_data_def split: event.splits)

section \<open>The invariant\<close>

definition peer_inv :: "'a KcpPeer_scheme \<Rightarrow> bool" where
  "peer_inv p \<longleftrightarrow> kcp_inv (p_Kcp p) \<and> k_output (p_Kcp p) = [] \<and> k_stream (p_Kcp p) = 0 \<and> 0 \<le> p_ReliableMax p
     \<and> length (p_kcpMessageBuffer p) = 1 + nat (p_ReliableMax p)
     \<and> length (p_kcpSendBuffer p) = 1 + nat (p_ReliableMax p)
     \<and> 1 + nat (p_ReliableMax p) \<le> 255 * unat (k_mss (p_Kcp p))"

text \<open>The peer as an end of a KCP session.\<close>

definition peer_end :: "'a KcpPeer_scheme \<Rightarrow> endpoint" where
  "peer_end p = \<lparr>e_k = (p_Kcp p)\<lparr>k_output := outs (p_events p)\<rparr>, e_sent = p_sent p, e_got = p_received p\<rparr>"

text \<open>How many messages may still be read without new datagrams.\<close>

definition rcv_load :: "'a KcpPeer_scheme \<Rightarrow> nat" where
  "rcv_load p = ReceiveQueueCount p + ReceiveBufferCount p"

text \<open>Nothing is delivered before the session is authenticated, which takes a hello.\<close>

definition hello_in :: "bytes list \<Rightarrow> bool" where
  "hello_in msgs \<longleftrightarrow> (\<exists>m \<in> set msgs. take 1 m = [reliable_byte KcpHeaderHello])"

lemma hello_in_append [simp]: "hello_in (xs @ ys) \<longleftrightarrow> hello_in xs \<or> hello_in ys"
  by (auto simp: hello_in_def)

definition auth_log :: "'a KcpPeer_scheme \<Rightarrow> bool" where
  "auth_log p \<longleftrightarrow> (p_State p = KcpAuthenticated \<longrightarrow> EvAuthenticated \<in> set (p_events p))
     \<and> (EvAuthenticated \<in> set (p_events p) \<longrightarrow> hello_in (p_received p))
     \<and> (\<forall>e \<in> set (takeWhile (\<lambda>e. e \<noteq> EvAuthenticated) (p_events p)). \<not> is_data e)"

section \<open>The contract\<close>

definition peer_fixed :: "'a KcpPeer_scheme \<Rightarrow> 'a KcpPeer_scheme \<Rightarrow> bool" where
  "peer_fixed p p' \<longleftrightarrow> p_Timeout p' = p_Timeout p \<and> p_ReliableMax p' = p_ReliableMax p
     \<and> p_UnreliableMax p' = p_UnreliableMax p \<and> p_Cookie p' = p_Cookie p
     \<and> k_mtu (p_Kcp p') = k_mtu (p_Kcp p) \<and> k_mss (p_Kcp p') = k_mss (p_Kcp p) \<and> k_conv (p_Kcp p') = k_conv (p_Kcp p)
     \<and> prefix (p_sent p) (p_sent p')"

text \<open>
  What the events of an operation show: \<open>OnDisconnected\<close> is called exactly when
  \<open>disconnectOnce\<close> is used up, and no KCP datagram is longer than the MTU.
\<close>

definition events_ok :: "event list \<Rightarrow> 'a KcpPeer_scheme \<Rightarrow> 'a KcpPeer_scheme \<Rightarrow> bool" where
  "events_ok evs p p' \<longleftrightarrow>
     count_list evs EvDisconnected + (if p_disconnectOnce p then 1 else 0) = (if p_disconnectOnce p' then 1 else 0)
     \<and> (\<forall>d \<in> set (outs evs). length d \<le> unat (k_mtu (p_Kcp p)))"

text \<open>
  Acknowledgements are sound as long as the segments are few and no congestion was reported: that
  is when \<open>HandleChoked\<close> throws the segments in flight away.
\<close>

definition calm :: "'a KcpPeer_scheme \<Rightarrow> bool" where
  "calm p \<longleftrightarrow> EvError ErrorCodeCongestion \<notin> set (p_events p) \<and> length (e_log (peer_end p)) < 2 ^ 31"

definition in_sync :: "'a KcpPeer_scheme \<Rightarrow> endpoint \<Rightarrow> bool" where
  "in_sync p r \<longleftrightarrow> (calm p \<longrightarrow> length (e_log r) < 2 ^ 31 \<longrightarrow> sync (e_k (peer_end p)) (e_k r))"

definition keeps_session :: "'a KcpPeer_scheme \<Rightarrow> 'a KcpPeer_scheme \<Rightarrow> bool" where
  "keeps_session p p' \<longleftrightarrow>
     (\<forall>r. session_ok (peer_end p) r \<longrightarrow> length (e_log r) < 2 ^ 32
        \<longrightarrow> session_ok (peer_end p') r \<and> (in_sync p r \<longrightarrow> in_sync p' r))"

text \<open>
  What every operation keeps (\<open>peer_run\<close>), and what those do that receive nothing and deliver
  the data \<open>ds\<close> (\<open>peer_does\<close>). Sending, disconnecting and whatever a handler does deliver
  nothing (\<open>peer_ok\<close>).
\<close>

definition peer_run :: "'a KcpPeer_scheme \<Rightarrow> 'a KcpPeer_scheme \<Rightarrow> bool" where
  "peer_run p p' \<longleftrightarrow> peer_inv p' \<and> peer_fixed p p' \<and> keeps_session p p' \<and> (auth_log p \<longrightarrow> auth_log p')
     \<and> (\<exists>evs ms. p_events p' = p_events p @ evs \<and> p_received p' = p_received p @ ms
          \<and> events_ok evs p p' \<and> subseq (delivered evs) (data_of ms))"

definition peer_does :: "bytes list \<Rightarrow> 'a KcpPeer_scheme \<Rightarrow> 'a KcpPeer_scheme \<Rightarrow> bool" where
  "peer_does ds p p' \<longleftrightarrow> peer_inv p' \<and> peer_fixed p p' \<and> keeps_session p p' \<and> (auth_log p \<longrightarrow> auth_log p')
     \<and> p_received p' = p_received p \<and> rcv_load p' \<le> rcv_load p
     \<and> (\<exists>evs. p_events p' = p_events p @ evs \<and> events_ok evs p p' \<and> delivered evs = ds)"

abbreviation peer_ok :: "'a KcpPeer_scheme \<Rightarrow> 'a KcpPeer_scheme \<Rightarrow> bool" where
  "peer_ok \<equiv> peer_does []"

lemma peer_ok_refl: "peer_inv p \<Longrightarrow> peer_ok p p"
  by (simp add: peer_does_def peer_fixed_def keeps_session_def events_ok_def)

lemma peer_run_refl: "peer_inv p \<Longrightarrow> peer_run p p"
  by (simp add: peer_run_def peer_fixed_def keeps_session_def events_ok_def)

lemma events_ok_trans:
  "events_ok xs p q \<Longrightarrow> peer_fixed p q \<Longrightarrow> events_ok ys q r \<Longrightarrow> events_ok (xs @ ys) p r"
  by (auto simp: events_ok_def peer_fixed_def)

lemma peer_fixed_trans: "peer_fixed p q \<Longrightarrow> peer_fixed q r \<Longrightarrow> peer_fixed p r"
  by (auto simp: peer_fixed_def intro: prefix_order.trans)

lemma keeps_sessionI:
  assumes "\<And>r. session_ok (peer_end p) r \<Longrightarrow> length (e_log r) < 2 ^ 32 \<Longrightarrow> session_ok (peer_end p') r"
    and "\<And>r. session_ok (peer_end p) r \<Longrightarrow> sync (e_k (peer_end p)) (e_k r) \<Longrightarrow> length (e_log (peer_end p)) < 2 ^ 31
       \<Longrightarrow> length (e_log r) < 2 ^ 31 \<Longrightarrow> calm p' \<Longrightarrow> sync (e_k (peer_end p')) (e_k r)"
    and "calm p' \<Longrightarrow> calm p"
  shows "keeps_session p p'"
  using assms unfolding keeps_session_def in_sync_def by (auto simp: calm_def)

lemma keeps_session_trans: "keeps_session p q \<Longrightarrow> keeps_session q r \<Longrightarrow> keeps_session p r"
  by (simp add: keeps_session_def)

lemma peer_does_trans:
  assumes "peer_does xs p q" and "peer_does ys q r"
  shows "peer_does (xs @ ys) p r"
proof -
  obtain es fs where "p_events q = p_events p @ es" "events_ok es p q" "delivered es = xs"
    "p_events r = p_events q @ fs" "events_ok fs q r" "delivered fs = ys"
    using assms unfolding peer_does_def by blast
  then have "\<exists>evs. p_events r = p_events p @ evs \<and> events_ok evs p r \<and> delivered evs = xs @ ys"
    using events_ok_trans[of es p q fs r] assms unfolding peer_does_def by (intro exI[of _ "es @ fs"]) simp
  then show ?thesis
    using assms peer_fixed_trans[of p q r] keeps_session_trans[of p q r] by (simp add: peer_does_def)
qed

lemma peer_ok_trans: "peer_ok p q \<Longrightarrow> peer_ok q r \<Longrightarrow> peer_ok p r"
  using peer_does_trans[of "[]" p q "[]" r] by simp

lemma peer_run_trans:
  assumes "peer_run p q" and "peer_run q r"
  shows "peer_run p r"
proof -
  obtain xs ms ys ns where e: "p_events q = p_events p @ xs" "p_received q = p_received p @ ms" "events_ok xs p q"
    "subseq (delivered xs) (data_of ms)" "p_events r = p_events q @ ys" "p_received r = p_received q @ ns"
    "events_ok ys q r" "subseq (delivered ys) (data_of ns)"
    using assms unfolding peer_run_def by blast
  have "subseq (delivered (xs @ ys)) (data_of (ms @ ns))" using e(4,8) by (simp add: list_emb_append_mono)
  then have "\<exists>evs ms. p_events r = p_events p @ evs \<and> p_received r = p_received p @ ms
          \<and> events_ok evs p r \<and> subseq (delivered evs) (data_of ms)"
    using e events_ok_trans[of xs p q ys r] assms unfolding peer_run_def by (intro exI[of _ "xs @ ys"] exI[of _ "ms @ ns"]) simp
  then show ?thesis
    using assms peer_fixed_trans[of p q r] keeps_session_trans[of p q r] by (simp add: peer_run_def)
qed

text \<open>A message received and what is delivered of it.\<close>

lemma peer_ok_run:
  assumes "peer_ok p q"
  shows "peer_run p q"
proof -
  obtain evs where "p_events q = p_events p @ evs" "events_ok evs p q" "delivered evs = []"
    using assms unfolding peer_does_def by blast
  then have "\<exists>evs ms. p_events q = p_events p @ evs \<and> p_received q = p_received p @ ms
          \<and> events_ok evs p q \<and> subseq (delivered evs) (data_of ms)"
    using assms by (intro exI[of _ evs] exI[of _ "[]"]) (simp add: peer_does_def)
  then show ?thesis using assms by (simp add: peer_does_def peer_run_def)
qed

section \<open>Updates\<close>

text \<open>What the contract does not depend on.\<close>

lemmas contract_defs = peer_does_def peer_inv_def peer_fixed_def keeps_session_def in_sync_def calm_def e_log_def peer_end_def rcv_load_def
  ReceiveQueueCount_def ReceiveBufferCount_def auth_log_def events_ok_def

lemma peer_ok_update:
  assumes "peer_inv p"
  shows "peer_ok p (p\<lparr>p_lastReceiveTime := t\<rparr>)" "peer_ok p (p\<lparr>p_reads := n\<rparr>)" "peer_ok p (p\<lparr>p_LastPingTime := t\<rparr>)"
    "peer_ok p (p\<lparr>p_LastPongTime := t\<rparr>)" "peer_ok p (p\<lparr>p_rtt := t\<rparr>)" "peer_ok p (p\<lparr>p_flushInterval := t\<rparr>)"
    "length buf = length (p_kcpSendBuffer p) \<Longrightarrow> peer_ok p (p\<lparr>p_kcpSendBuffer := buf\<rparr>)"
    "length buf = length (p_kcpMessageBuffer p) \<Longrightarrow> peer_ok p (p\<lparr>p_kcpMessageBuffer := buf\<rparr>)"
    "st \<noteq> KcpAuthenticated \<Longrightarrow> peer_ok p (p\<lparr>p_State := st\<rparr>)"
  using assms by (simp_all add: contract_defs)

end
