(* ===== verification/Peer_Operations.thy ===== *)
theory Peer_Operations
  imports Peer_Contract
begin

text \<open>
  Every operation of a peer keeps the contract and none panics, for any handler that keeps it.
  The handler is the interface \<open>peer_handler\<close>; the handler that does nothing in return and
  the server connection's, which answers the handshake, are shown to keep it.
\<close>

section \<open>The KCP calls of a peer\<close>

lemma auth_log_append:
  assumes "auth_log p" and "p_events q = p_events p @ evs"
    and "p_State q = KcpAuthenticated \<longrightarrow> p_State p = KcpAuthenticated \<or> EvAuthenticated \<in> set evs"
    and "EvAuthenticated \<in> set (p_events p) \<or> (\<forall>e \<in> set evs. \<not> is_data e)"
    and "p_received q = p_received p" and "EvAuthenticated \<in> set evs \<longrightarrow> hello_in (p_received p)"
  shows "auth_log q"
proof -
  let ?P = "\<lambda>e. e \<noteq> EvAuthenticated"
  show ?thesis
  proof (cases "EvAuthenticated \<in> set (p_events p)")
    case True
    then have "takeWhile ?P (p_events q) = takeWhile ?P (p_events p)"
      using assms(2) takeWhile_append1[of EvAuthenticated "p_events p" ?P evs] by simp
    then show ?thesis using assms(1,2,5) True by (simp add: auth_log_def)
  next
    case False
    then have all: "\<forall>x \<in> set (p_events p). ?P x" by blast
    then have tw: "takeWhile ?P (p_events q) = p_events p @ takeWhile ?P evs" "takeWhile ?P (p_events p) = p_events p"
      using assms(2) by (simp_all add: takeWhile_append takeWhile_eq_all_conv)
    have "\<forall>e \<in> set (p_events p). \<not> is_data e" using assms(1) unfolding auth_log_def tw by blast
    then have "\<forall>e \<in> set (takeWhile ?P (p_events q)). \<not> is_data e"
      using assms(4) False set_takeWhileD[of _ ?P evs] unfolding tw(1) set_append by blast
    moreover have "p_State q = KcpAuthenticated \<longrightarrow> EvAuthenticated \<in> set (p_events q)"
      "EvAuthenticated \<in> set (p_events q) \<longrightarrow> hello_in (p_received q)"
      using assms(1-3,5,6) False by (auto simp: auth_log_def)
    ultimately show ?thesis unfolding auth_log_def by blast
  qed
qed

lemma sends_ok_output:
  assumes "sends_ok k k'" and "k_output k = []"
  shows "sends_ok (k\<lparr>k_output := ds\<rparr>) (k'\<lparr>k_output := ds @ k_output k'\<rparr>)"
proof -
  have fs: "flush_seg (k\<lparr>k_output := ds\<rparr>) xs = flush_seg k xs" for xs
    by (simp add: fun_eq_iff flush_seg_def kcp_wnd_unused_def)
  show ?thesis
    using assms unfolding sends_ok_def by (auto simp: fs kcp_inv_def)
qed

lemma kcp_output_auth:
  assumes "auth_log p"
  shows "auth_log (kcp_output k p)"
  by (rule auth_log_append[OF assms, where evs = "map (\<lambda>d. EvRawSend (raw_reliable (p_Cookie p) d)) (k_output k)"])
     (auto simp: kcp_output_def)

lemma count_raw [simp]: "count_list (map (\<lambda>d. EvRawSend (f d)) ds) EvDisconnected = 0"
  by (induction ds) simp_all

lemma sends_ok_datagrams:
  "sends_ok k k' \<Longrightarrow> k_output k = [] \<Longrightarrow> d \<in> set (k_output k') \<Longrightarrow> length d \<le> unat (k_mtu k)"
  by (auto simp: sends_ok_def datagram_ok_def)

lemma peer_sends:
  assumes inv: "peer_inv p" and "sends_ok (p_Kcp p) k'"
  shows "peer_ok p (kcp_output k' p)"
proof -
  have so: "sends_ok ((p_Kcp p)\<lparr>k_output := outs (p_events p)\<rparr>) (k'\<lparr>k_output := outs (p_events p) @ k_output k'\<rparr>)"
    using sends_ok_output[OF assms(2)] inv by (simp add: peer_inv_def)
  have "keeps_session p (kcp_output k' p)"
  proof (rule keeps_sessionI)
    fix r assume ok: "session_ok (peer_end p) r"
    from session_sends[OF ok, of "k'\<lparr>k_output := outs (p_events p) @ k_output k'\<rparr>"] so
    show "session_ok (peer_end (kcp_output k' p)) r" by (simp add: peer_end_def kcp_output_def)
    assume "sync (e_k (peer_end p)) (e_k r)" "length (e_log (peer_end p)) < 2 ^ 31" "length (e_log r) < 2 ^ 31"
    from sync_sends[OF ok this, of "k'\<lparr>k_output := outs (p_events p) @ k_output k'\<rparr>"] so
    show "sync (e_k (peer_end (kcp_output k' p))) (e_k r)" by (simp add: peer_end_def kcp_output_def)
  next
    show "calm (kcp_output k' p) \<Longrightarrow> calm p"
      using assms(2) by (simp add: calm_def peer_end_def e_log_def kcp_output_def sends_ok_def)
  qed
  moreover have "auth_log p \<Longrightarrow> auth_log (kcp_output k' p)"
    by (rule kcp_output_auth)
  moreover have "\<forall>d \<in> set (k_output k'). length d \<le> unat (k_mtu (p_Kcp p))"
    using sends_ok_datagrams[OF assms(2)] inv by (simp add: peer_inv_def)
  ultimately show ?thesis
    using inv assms(2)
    by (simp add: peer_does_def peer_inv_def peer_fixed_def rcv_load_def ReceiveQueueCount_def ReceiveBufferCount_def
        events_ok_def kcp_output_def sends_ok_def kcp_inv_def)
qed

text \<open>A message that fits the send buffer is never too large for KCP.\<close>

lemma peer_kcp_Send:
  assumes inv: "peer_inv p" and msg: "0 < length msg" "length msg \<le> 1 + nat (p_ReliableMax p)"
  shows "\<exists>k. kcp_Send msg (p_Kcp p) = Some (0, k) \<and> peer_ok p (p\<lparr>p_Kcp := k, p_sent := p_sent p @ [msg]\<rparr>)"
proof -
  let ?k = "p_Kcp p" and ?o = "\<lambda>k. k\<lparr>k_output := outs (p_events p)\<rparr>"
  have k: "kcp_inv ?k" "k_stream ?k = 0" and len: "length msg \<le> 255 * unat (k_mss ?k)"
    using assms by (simp_all add: peer_inv_def)
  obtain q where q: "kcp_Send msg ?k = Some (0, ?k\<lparr>k_snd_queue := q\<rparr>)" "kcp_inv (?k\<lparr>k_snd_queue := q\<rparr>)"
     "rb_list q = snd_queue_list ?k @ fragments (unat (k_mss ?k)) (frag_count (unat (k_mss ?k)) msg) msg"
    using kcp_Send_message(2)[OF k msg(1) len] by blast
  let ?p = "p\<lparr>p_Kcp := ?k\<lparr>k_snd_queue := q\<rparr>, p_sent := p_sent p @ [msg]\<rparr>"
  have "session_ok (peer_end ?p) r" if ok: "session_ok (peer_end p) r" for r
  proof -
    have o: "(?o ?k)\<lparr>k_snd_queue := q\<rparr> = ?o (?k\<lparr>k_snd_queue := q\<rparr>)" by simp
    have "kcp_inv (?o (?k\<lparr>k_snd_queue := q\<rparr>))" using q(2) by (simp add: kcp_inv_def)
    then show ?thesis
      using session_sent[OF ok, of msg q] q(3) msg(1) len by (simp add: peer_end_def msg_valid_def o)
  qed
  moreover have "sync (e_k (peer_end ?p)) r" if "sync (e_k (peer_end p)) r" for r
  proof -
    have o: "(?o ?k)\<lparr>k_snd_queue := q\<rparr> = ?o (?k\<lparr>k_snd_queue := q\<rparr>)" by simp
    have "kcp_inv (?o (?k\<lparr>k_snd_queue := q\<rparr>))" using q(2) by (simp add: kcp_inv_def)
    then show ?thesis using sync_queues[OF that, of q] q(3) by (simp add: peer_end_def o)
  qed
  moreover have "calm ?p \<Longrightarrow> calm p" by (simp add: calm_def peer_end_def e_log_def length_msg_log)
  ultimately have "keeps_session p ?p" by (intro keeps_sessionI)
  then have "peer_ok p ?p"
    using inv q(2)
    by (simp add: peer_does_def peer_inv_def peer_fixed_def rcv_load_def ReceiveQueueCount_def ReceiveBufferCount_def
        events_ok_def auth_log_def)
  then show ?thesis using q(1) by blast
qed

text \<open>Reading a message takes it from the queue.\<close>

lemma peer_kcp_Recv:
  assumes inv: "peer_inv p" and size: "0 < kcp_PeekSize (p_Kcp p)"
    and fits: "kcp_PeekSize (p_Kcp p) \<le> int (length (p_kcpMessageBuffer p))"
  shows "\<exists>k buf m. kcp_Recv (p_kcpMessageBuffer p) (p_Kcp p) = Some (kcp_PeekSize (p_Kcp p), buf, k)
     \<and> take (nat (kcp_PeekSize (p_Kcp p))) buf = m \<and> int (length m) = kcp_PeekSize (p_Kcp p)
     \<and> length buf = length (p_kcpMessageBuffer p)
     \<and> (let q = p\<lparr>p_Kcp := k, p_kcpMessageBuffer := buf, p_received := p_received p @ [m]\<rparr> in
          peer_inv q \<and> peer_fixed p q \<and> keeps_session p q \<and> rcv_load q < rcv_load p)"
proof -
  let ?k = "p_Kcp p" and ?b = "p_kcpMessageBuffer p" and ?Q = "rcv_queue_list (p_Kcp p)"
  let ?m = "msg_bytes (next_msg ?Q)"
  have kinv: "kcp_inv ?k" using inv by (simp add: peer_inv_def)
  then have rb: "rb_inv (k_rcv_queue ?k)" by (auto simp: rcv_inv_def)
  have sz: "kcp_PeekSize ?k = int (length ?m)" and ne: "?Q \<noteq> []"
    using kcp_PeekSize_correct[OF rb] size by (auto split: list.splits if_splits)
  obtain k' ms where k': "kcp_Recv ?b ?k = Some (kcp_PeekSize ?k, ?m @ drop (nat (kcp_PeekSize ?k)) ?b, k')"
      "kcp_inv k'" "rcv_queue_list k' = drop (length (next_msg ?Q)) ?Q @ ms"
      "rcv_buf_items ?k = rcv_buf_items k' + mset ms" "k_rcv_nxt k' = k_rcv_nxt ?k + of_nat (length ms)"
      and fr: "\<exists>q h n p. k' = ?k\<lparr>k_rcv_queue := q, k_rcv_buf := h, k_rcv_nxt := n, k_probe := p\<rparr>"
      and gap: "length (rcv_queue_list k') < unat (k_rcv_wnd ?k) \<longrightarrow> k_rcv_nxt k' \<notin> sg_sn ` set_mset (rcv_buf_items k')"
    using kcp_Recv_correct[OF kinv less_imp_le[OF size] fits] by blast
  let ?q = "p\<lparr>p_Kcp := k', p_kcpMessageBuffer := ?m @ drop (nat (kcp_PeekSize ?k)) ?b, p_received := p_received p @ [?m]\<rparr>"
  have same: "k_mtu k' = k_mtu ?k" "k_mss k' = k_mss ?k" "k_conv k' = k_conv ?k" "k_output k' = k_output ?k"
    "k_stream k' = k_stream ?k" using fr by auto
  let ?o = "\<lambda>k. k\<lparr>k_output := outs (p_events p)\<rparr>"
  obtain q h n pr where f: "k' = ?k\<lparr>k_rcv_queue := q, k_rcv_buf := h, k_rcv_nxt := n, k_probe := pr\<rparr>" using fr by blast
  have ofr: "\<exists>q h n p. ?o k' = (?o ?k)\<lparr>k_rcv_queue := q, k_rcv_buf := h, k_rcv_nxt := n, k_probe := p\<rparr>"
    unfolding f by (intro exI[of _ q] exI[of _ h] exI[of _ n] exI[of _ pr]) simp
  have oinv: "kcp_inv (?o k')" using k'(2) by (simp add: kcp_inv_def)
  have "session_ok (peer_end ?q) r" if ok: "session_ok (peer_end p) r" and short: "length (e_log r) < 2 ^ 32" for r
  proof -
    have "kcp_PeekSize (?o ?k) = kcp_PeekSize ?k" by (simp add: kcp_PeekSize_def split: option.split)
    then show ?thesis
      using session_received[OF ok short, of "?o k'" ms] oinv ofr k'(3-5) size by (simp add: peer_end_def)
  qed
  moreover have "sync (e_k (peer_end ?q)) (e_k r)"
    if "session_ok (peer_end p) r" "sync (e_k (peer_end p)) (e_k r)" "length (e_log (peer_end p)) < 2 ^ 31"
      "length (e_log r) < 2 ^ 31" for r
    using sync_reads[OF that, of "?o k'" "length (next_msg ?Q)" ms] oinv ofr gap k'(3-5) by (simp add: peer_end_def)
  moreover have "calm ?q \<Longrightarrow> calm p" by (simp add: calm_def peer_end_def e_log_def same)
  ultimately have "keeps_session p ?q" by (intro keeps_sessionI)
  moreover have "rcv_load ?q < rcv_load p"
  proof -
    have "rb_inv (k_rcv_queue k')" using k'(2) by (auto simp: rcv_inv_def)
    then have "rcv_load ?q + length (next_msg ?Q) = rcv_load p"
      using k'(3,4) rb length_next_msg[of ?Q]
      by (simp add: rcv_load_def ReceiveQueueCount_def ReceiveBufferCount_def rb_Len_list heap_Len_items)
    moreover have "0 < length (next_msg ?Q)" using ne by (cases ?Q) auto
    ultimately show ?thesis by linarith
  qed
  moreover have "peer_inv ?q" using inv k'(2) same sz fits by (simp add: peer_inv_def)
  moreover have "peer_fixed p ?q" using same by (simp add: peer_fixed_def)
  ultimately show ?thesis
    using k'(1) sz by (intro exI[of _ k'] exI[of _ "?m @ drop (nat (kcp_PeekSize ?k)) ?b"] exI[of _ ?m]) (use fits in \<open>simp add: Let_def\<close>)
qed

section \<open>Steps that keep the contract\<close>

text \<open>A computation started in \<open>p\<close> does not panic and keeps the contract.\<close>

definition ok_from :: "'a KcpPeer_scheme \<Rightarrow> 'a KcpPeer_scheme option \<Rightarrow> bool" where
  "ok_from p m \<longleftrightarrow> (\<exists>q. m = Some q \<and> peer_ok p q)"

lemma peer_does_inv: "peer_does ds p q \<Longrightarrow> peer_inv q"
  by (simp add: peer_does_def)

lemma ok_from_Some: "peer_ok p q \<Longrightarrow> ok_from p (Some q)"
  by (simp add: ok_from_def)

lemma ok_from_refl: "peer_inv p \<Longrightarrow> ok_from p (Some p)"
  by (simp add: ok_from_Some peer_ok_refl)

lemma ok_from_trans: "peer_ok p q \<Longrightarrow> ok_from q m \<Longrightarrow> ok_from p m"
  unfolding ok_from_def using peer_ok_trans by blast

lemma ok_from_bind: "ok_from p m \<Longrightarrow> (\<And>q. peer_ok p q \<Longrightarrow> peer_inv q \<Longrightarrow> ok_from q (f q)) \<Longrightarrow> ok_from p (m \<bind> f)"
  unfolding ok_from_def using peer_ok_trans peer_does_inv by fastforce

text \<open>Logging an event, and the datagrams of an unreliable message.\<close>

lemma peer_event:
  assumes "peer_inv p" and "wire_out ev = []" and "ev \<noteq> EvDisconnected \<and> ev \<noteq> EvAuthenticated"
    and "is_data ev \<longrightarrow> EvAuthenticated \<in> set (p_events p)"
  shows "peer_does (ev_data ev) p (p\<lparr>p_events := p_events p @ [ev]\<rparr>)"
proof -
  have "auth_log p \<longrightarrow> auth_log (p\<lparr>p_events := p_events p @ [ev]\<rparr>)"
    using auth_log_append[of p "p\<lparr>p_events := p_events p @ [ev]\<rparr>" "[ev]"] assms(3,4) by auto
  then show ?thesis
    using assms(1-3)
    by (simp add: peer_does_def peer_inv_def peer_fixed_def keeps_session_def in_sync_def calm_def e_log_def peer_end_def rcv_load_def
        ReceiveQueueCount_def ReceiveBufferCount_def events_ok_def)
qed

lemma peer_SendUnreliable: "peer_inv p \<Longrightarrow> peer_ok p (SendUnreliable header content p)"
  using peer_event[of p "EvRawSend (channel_byte KcpUnreliable # le32 (p_Cookie p) @ unreliable_byte header # content)"]
  by (cases "int (length content) > p_UnreliableMax p")
     (simp_all add: SendUnreliable_eq peer_ok_refl wire_out_def)

text \<open>The five goodbyes; they do not interfere with the other changes of a disconnect.\<close>

definition goodbye :: "u32 \<Rightarrow> bytes" where
  "goodbye cookie = channel_byte KcpUnreliable # le32 cookie @ [unreliable_byte KcpHeaderUnrelDisconnect]"

lemma SendDisconnect_eq:
  "SendDisconnect p = p\<lparr>p_events := p_events p
     @ (if p_UnreliableMax p < 0 then [] else replicate 5 (EvRawSend (goodbye (p_Cookie p))))\<rparr>"
proof -
  have "SendDisconnect_loop n p = p\<lparr>p_events := p_events p
     @ (if p_UnreliableMax p < 0 then [] else replicate n (EvRawSend (goodbye (p_Cookie p))))\<rparr>" for n
    by (induction n arbitrary: p) (simp_all add: SendUnreliable_eq goodbye_def)
  then show ?thesis by (simp add: SendDisconnect_def)
qed

lemma SendDisconnect_once:
  "SendDisconnect (p\<lparr>p_disconnectOnce := b, p_State := st\<rparr>) = (SendDisconnect (p\<lparr>p_State := st\<rparr>))\<lparr>p_disconnectOnce := b\<rparr>"
  "p_disconnectOnce (SendDisconnect p) = p_disconnectOnce p" "p_State (SendDisconnect p) = p_State p"
  by (simp_all add: SendDisconnect_eq)

lemma peer_log_disconnect:
  assumes "peer_inv p" and "\<not> p_disconnectOnce p"
  shows "peer_ok p (p\<lparr>p_disconnectOnce := True, p_events := p_events p @ [EvDisconnected]\<rparr>)"
proof -
  let ?q = "p\<lparr>p_disconnectOnce := True, p_events := p_events p @ [EvDisconnected]\<rparr>"
  have "auth_log p \<longrightarrow> auth_log ?q" using auth_log_append[of p ?q "[EvDisconnected]"] by auto
  then show ?thesis
    using assms
    by (simp add: peer_does_def peer_inv_def peer_fixed_def keeps_session_def in_sync_def calm_def e_log_def peer_end_def rcv_load_def
        ReceiveQueueCount_def ReceiveBufferCount_def events_ok_def)
qed

lemma peer_SendDisconnect: "peer_inv p \<Longrightarrow> peer_ok p (SendDisconnect p)"
proof -
  have "peer_inv p \<Longrightarrow> peer_ok p (SendDisconnect_loop n p)" for n
    by (induction n arbitrary: p)
       (auto simp: peer_ok_refl intro: peer_ok_trans[OF peer_SendUnreliable] dest: peer_does_inv[OF peer_SendUnreliable])
  then show "peer_inv p \<Longrightarrow> peer_ok p (SendDisconnect p)" by (simp add: SendDisconnect_def)
qed

lemma send_buffer:
  assumes "1 + length content \<le> length buf"
  shows "take 1 (buf[0 := b]) @ go_copy (drop 1 (buf[0 := b])) content = (b # content) @ drop (1 + length content) buf"
proof -
  obtain x xs where "buf = x # xs" using assms by (cases buf) auto
  then show ?thesis using assms by (simp add: go_copy_def)
qed

text \<open>What \<open>SendReliable\<close> does with a message that fits the buffer.\<close>

lemma SendReliable_eq:
  fixes p :: "'a KcpPeer_scheme" and header :: KcpHeaderReliable
  assumes "1 + length content \<le> length (p_kcpSendBuffer p)"
  defines "m \<equiv> reliable_byte header # content"
  defines "q \<equiv> p\<lparr>p_kcpSendBuffer := m @ drop (length m) (p_kcpSendBuffer p)\<rparr>"
  shows "SendReliable kc h header content p =
     (if kcp_WaitSnd (p_Kcp p) < unat (k_snd_wnd (p_Kcp p)) \<and> kcp_WaitSnd (p_Kcp p) < unat (k_rmt_wnd (p_Kcp p))
      then (case kcp_Send m (p_Kcp p) of None \<Rightarrow> None | Some (sent, k) \<Rightarrow>
             if sent < 0 then fire h (EvError ErrorCodeInvalidSend) (q\<lparr>p_Kcp := k\<rparr>)
             else if kcp_WaitSnd k \<ge> unat (k_snd_wnd k) \<or> kcp_WaitSnd k \<ge> unat (k_rmt_wnd k)
                  then map_option (\<lambda>(_, k'). kcp_output k' (q\<lparr>p_Kcp := k, p_sent := p_sent p @ [m]\<rparr>)) (kcp_flush kc False k)
                  else Some (q\<lparr>p_Kcp := k, p_sent := p_sent p @ [m]\<rparr>))
      else fire h (EvError ErrorCodeInvalidSend) q)"
proof -
  have b: "take 1 ((p_kcpSendBuffer p)[0 := reliable_byte header]) @
             go_copy (drop 1 ((p_kcpSendBuffer p)[0 := reliable_byte header])) content
           = m @ drop (length m) (p_kcpSendBuffer p)"
    using send_buffer[OF assms(1)] by (simp add: m_def)
  have m: "take (1 + length content) (m @ drop (length m) (p_kcpSendBuffer p)) = m" by (simp add: m_def)
  show ?thesis
    using assms(1) unfolding SendReliable_def Let_def b m
    by (auto simp: q_def map_option_case split: option.splits)
qed

text \<open>Who has disconnected stays disconnected.\<close>

lemma events_ok_once: "events_ok evs p q \<Longrightarrow> p_disconnectOnce p \<Longrightarrow> p_disconnectOnce q"
  by (auto simp: events_ok_def split: if_splits)

lemma peer_run_once: "peer_run p q \<Longrightarrow> p_disconnectOnce p \<Longrightarrow> p_disconnectOnce q"
  unfolding peer_run_def using events_ok_once by blast

lemma peer_does_once: "peer_does ds p q \<Longrightarrow> p_disconnectOnce p \<Longrightarrow> p_disconnectOnce q"
  unfolding peer_does_def using events_ok_once by blast

section \<open>Receiving a message\<close>

text \<open>A message \<open>m\<close> was taken from KCP and nothing done with it yet.\<close>

definition took :: "bytes \<Rightarrow> 'a KcpPeer_scheme \<Rightarrow> 'a KcpPeer_scheme \<Rightarrow> bool" where
  "took m p q \<longleftrightarrow> peer_inv q \<and> peer_fixed p q \<and> keeps_session p q \<and> rcv_load q < rcv_load p
     \<and> p_events q = p_events p \<and> p_disconnectOnce q = p_disconnectOnce p \<and> p_State q = p_State p
     \<and> p_received q = p_received p @ [m]"

lemma took_then:
  assumes "took m p q" and "peer_does ds q r" and "subseq ds (data_of [m])"
  shows "peer_run p r" and "rcv_load r < rcv_load p"
proof -
  obtain evs where "p_events r = p_events q @ evs" "events_ok evs q r" "delivered evs = ds"
    using assms(2) unfolding peer_does_def by blast
  then have "\<exists>evs ms. p_events r = p_events p @ evs \<and> p_received r = p_received p @ ms
          \<and> events_ok evs p r \<and> subseq (delivered evs) (data_of ms)"
    using assms by (intro exI[of _ evs] exI[of _ "[m]"]) (simp add: took_def peer_does_def events_ok_def peer_fixed_def)
  moreover have "auth_log p \<Longrightarrow> auth_log q" using assms(1) by (auto simp: took_def auth_log_def)
  then have "auth_log p \<longrightarrow> auth_log r" using assms(2) by (simp add: peer_does_def)
  ultimately show "peer_run p r"
    using assms(1,2) peer_fixed_trans[of p q r] keeps_session_trans[of p q r]
    by (simp add: took_def peer_does_def peer_run_def)
  show "rcv_load r < rcv_load p" using assms(1,2) by (simp add: took_def peer_does_def)
qed

lemma took_update:
  "took m p q \<Longrightarrow> took m p (q\<lparr>p_reads := n, p_lastReceiveTime := t\<rparr>)"
proof -
  let ?q = "q\<lparr>p_reads := n, p_lastReceiveTime := t\<rparr>"
  have "peer_inv ?q = peer_inv q" "peer_fixed p ?q = peer_fixed p q" "keeps_session p ?q = keeps_session p q"
    "rcv_load ?q = rcv_load q" by (simp_all add: contract_defs)
  then show "took m p q \<Longrightarrow> took m p ?q" by (simp add: took_def)
qed

lemma data_of_single [simp]: "data_of [reliable_byte h # m] = (if h = KcpHeaderData then [m] else [])"
  by (cases h) (simp_all add: data_of_def)

section \<open>Runs\<close>

definition run_from :: "'a KcpPeer_scheme \<Rightarrow> 'a KcpPeer_scheme option \<Rightarrow> bool" where
  "run_from p m \<longleftrightarrow> (\<exists>q. m = Some q \<and> peer_run p q)"

lemma run_from_ok: "ok_from p m \<Longrightarrow> run_from p m"
  by (auto simp: ok_from_def run_from_def intro: peer_ok_run)

lemma run_from_trans: "peer_run p q \<Longrightarrow> run_from q m \<Longrightarrow> run_from p m"
  unfolding run_from_def using peer_run_trans by blast

text \<open>Once authenticated, the log says so for ever.\<close>

definition authenticated :: "'a KcpPeer_scheme \<Rightarrow> bool" where
  "authenticated p \<longleftrightarrow> EvAuthenticated \<in> set (p_events p)"

lemma authenticated_mono: "peer_run p q \<Longrightarrow> authenticated p \<Longrightarrow> authenticated q"
  by (auto simp: peer_run_def authenticated_def)

lemma authenticated_does: "peer_does ds p q \<Longrightarrow> authenticated p \<Longrightarrow> authenticated q"
  by (auto simp: peer_does_def authenticated_def)

lemma run_from_bind:
  assumes "ok_from p m" and "\<And>q. peer_ok p q \<Longrightarrow> peer_inv q \<Longrightarrow> run_from q (f q)"
  shows "run_from p (m \<bind> f)"
proof -
  obtain q where q: "m = Some q" "peer_ok p q" using assms(1) by (auto simp: ok_from_def)
  have "run_from q (f q)" by (rule assms(2)[OF q(2) peer_does_inv[OF q(2)]])
  then show ?thesis using run_from_trans[OF peer_ok_run[OF q(2)]] q(1) by simp
qed

lemma peer_authenticate:
  assumes "peer_inv p" and "hello_in (p_received p)"
  shows "peer_ok p (p\<lparr>p_State := KcpAuthenticated, p_events := p_events p @ [EvAuthenticated]\<rparr>)"
proof -
  let ?q = "p\<lparr>p_State := KcpAuthenticated, p_events := p_events p @ [EvAuthenticated]\<rparr>"
  have "auth_log p \<longrightarrow> auth_log ?q" using auth_log_append[of p ?q "[EvAuthenticated]"] assms(2) by auto
  then show ?thesis
    using assms
    by (simp add: peer_does_def peer_inv_def peer_fixed_def keeps_session_def in_sync_def calm_def e_log_def peer_end_def rcv_load_def
        ReceiveQueueCount_def ReceiveBufferCount_def events_ok_def)
qed

lemma tick_flush_ok:
  assumes inv: "peer_inv p"
  shows "ok_from p (tick_flush kc pc p)"
proof -
  have fl: "\<exists>t k. kcp_flush kc False (p_Kcp q) = Some (t, k) \<and> peer_ok q ((kcp_output k q)\<lparr>p_flushInterval := t\<rparr>)"
    if q: "peer_inv q" for q :: "'a KcpPeer_scheme"
  proof -
    obtain t k where k: "kcp_flush kc False (p_Kcp q) = Some (t, k)" "sends_ok (p_Kcp q) k"
      using kcp_flush_sends[of "p_Kcp q" kc False] q by (auto simp: peer_inv_def)
    have "peer_ok q (kcp_output k q)" by (rule peer_sends[OF q k(2)])
    then show ?thesis using k(1) peer_ok_trans peer_ok_update(6) peer_does_inv by blast
  qed
  let ?p = "p\<lparr>p_reads := p_reads p + 1\<rparr>"
  have p: "peer_ok p ?p" by (rule peer_ok_update(2)[OF inv])
  obtain t k where k: "kcp_flush kc False (p_Kcp p) = Some (t, k)" "peer_ok p ((kcp_output k p)\<lparr>p_flushInterval := t\<rparr>)"
    using fl[OF inv] by blast
  have "peer_ok p ((kcp_output k ?p)\<lparr>p_flushInterval := t\<rparr>)"
    using fl[OF peer_does_inv[OF p]] k(1) peer_ok_trans[OF p] by auto
  then show ?thesis
    using k p by (simp add: tick_flush_def peer_Time_def ok_from_Some)
qed

section \<open>Datagrams\<close>

text \<open>What taking in a datagram \<open>d\<close> keeps; the session, if the peer at the other end sent it.\<close>

definition peer_takes :: "bytes \<Rightarrow> 'a KcpPeer_scheme \<Rightarrow> 'a KcpPeer_scheme \<Rightarrow> bool" where
  "peer_takes d p p' \<longleftrightarrow> peer_inv p' \<and> peer_fixed p p' \<and> (auth_log p \<longrightarrow> auth_log p') \<and> p_received p' = p_received p
     \<and> (\<exists>evs. p_events p' = p_events p @ evs \<and> events_ok evs p p' \<and> delivered evs = [])
     \<and> (\<forall>r. session_ok (peer_end p) r \<longrightarrow> length (e_log r) < 2 ^ 32 \<longrightarrow> d \<in> set (k_output (e_k r))
          \<longrightarrow> session_ok (peer_end p') r \<and> (in_sync p r \<longrightarrow> in_sync p' r))"

lemma peer_takes_ok: "peer_ok p q \<Longrightarrow> peer_takes d p q"
  by (simp add: peer_does_def peer_takes_def keeps_session_def)

lemma input_ok_output: "input_ok P k k' \<Longrightarrow> input_ok P (k\<lparr>k_output := ds\<rparr>) (k'\<lparr>k_output := ds\<rparr>)"
  by (simp add: input_ok_def input_frame_def rcv_grows_def kcp_inv_def)

lemma OnRawInputReliable_ok:
  assumes inv: "peer_inv p" and len: "length message \<le> unat (k_mtu (p_Kcp p))"
  shows "\<exists>q. OnRawInputReliable kc message p = Some q \<and> peer_takes message p q"
proof (cases "length message < IKCP_OVERHEAD \<or> \<not> (message ! 4 \<ge> IKCP_CMD_PUSH \<and> message ! 4 \<le> IKCP_CMD_WINS)")
  case True
  then show ?thesis
    using peer_takes_ok[OF peer_ok_refl[OF inv]] by (simp add: OnRawInputReliable_def)
next
  case False
  let ?k = "p_Kcp p" and ?o = "\<lambda>k. k\<lparr>k_output := outs (p_events p)\<rparr>"
  have kinv: "kcp_inv ?k" and out: "k_output ?k = []" and stream: "k_stream ?k = 0" using inv by (simp_all add: peer_inv_def)
  obtain code k1 k' where k': "kcp_Input kc message True True ?k = Some (code, k')"
    "input_ok (\<lambda>_. True) ?k k1" "sends_ok k1 k'"
    using kcp_Input_ok[where P = "\<lambda>_. True", OF kinv len, of kc True True] by blast
  let ?q = "kcp_output k' p"
  have fr: "k_output k1 = []" "k_stream k1 = 0" "k_mtu k1 = k_mtu ?k" "k_mss k1 = k_mss ?k" "k_conv k1 = k_conv ?k"
    using k'(2) out stream by (simp_all add: input_ok_def input_frame_def)
  have sess: "session_ok (peer_end ?q) r"
    if ok: "session_ok (peer_end p) r" and short: "length (e_log r) < 2 ^ 32" and d: "message \<in> set (k_output (e_k r))" for r
  proof -
    obtain k2 where k2: "input_ok (seg_in (e_log r)) ?k k2" "sends_ok k2 k'"
      using kcp_Input_ok[where P = "seg_in (e_log r)", OF kinv len, of kc True True] session_pushes[OF ok d] k'(1)
      by auto
    have "k_output k2 = []" using k2(1) out by (simp add: input_ok_def input_frame_def)
    then have s: "sends_ok (?o k2) (k'\<lparr>k_output := outs (p_events p) @ k_output k'\<rparr>)"
      by (rule sends_ok_output[OF k2(2)])
    have "input_ok (seg_in (e_log r)) (e_k (peer_end p)) (?o k2)"
      using input_ok_output[OF k2(1)] by (simp add: peer_end_def)
    from session_takes[OF ok short this s] show ?thesis by (simp add: peer_end_def kcp_output_def)
  qed
  have calm: "calm ?q \<Longrightarrow> calm p"
    using k'(3) fr by (simp add: calm_def peer_end_def e_log_def kcp_output_def sends_ok_def)
  have sync: "in_sync ?q r"
    if ok: "session_ok (peer_end p) r" and d: "message \<in> set (k_output (e_k r))" and s: "in_sync p r" for r
    unfolding in_sync_def
  proof (intro impI)
    assume c: "calm ?q" and short: "length (e_log r) < 2 ^ 31"
    have "sync (e_k (peer_end p)) (e_k r)" "length (e_log (peer_end p)) < 2 ^ 31"
      using s c short calm by (simp_all add: in_sync_def calm_def)
    from sync_input_out[OF ok this short d _ out k'(1), of "outs (p_events p)"]
    show "sync (e_k (peer_end ?q)) (e_k r)" by (simp add: peer_end_def kcp_output_def)
  qed
  have "auth_log p \<longrightarrow> auth_log ?q" using kcp_output_auth by blast
  moreover have "\<forall>d \<in> set (k_output k'). length d \<le> unat (k_mtu ?k)"
    using sends_ok_datagrams[OF k'(3)] fr by simp
  ultimately have "peer_takes message p ?q"
    using inv k'(3) fr sess sync
    by (simp add: peer_takes_def peer_inv_def peer_fixed_def events_ok_def kcp_output_def sends_ok_def kcp_inv_def)
  then show ?thesis using False k'(1) by (simp add: OnRawInputReliable_def)
qed

section \<open>The handler\<close>

locale peer_handler =
  fixes h :: "'a handler"
  assumes handler_ok: "peer_inv p \<Longrightarrow> ok_from p (h ev p)"
begin

lemma fire_error:
  assumes "peer_inv p"
  shows "ok_from p (fire h (EvError c) p)"
proof -
  have "peer_ok p (p\<lparr>p_events := p_events p @ [EvError c]\<rparr>)" using peer_event[OF assms, of "EvError c"] by simp
  from ok_from_trans[OF this handler_ok[OF peer_does_inv[OF this]]] show ?thesis by (simp add: fire_def)
qed

lemma Disconnect_split:
  assumes "peer_inv p" and "\<not> p_disconnectOnce p"
  shows "\<exists>r. peer_ok p r \<and> p_disconnectOnce r \<and> Disconnect h p = h EvDisconnected r"
proof -
  let ?p = "p\<lparr>p_State := KcpDisconnected\<rparr>"
  let ?q = "SendDisconnect ?p"
  let ?r = "?q\<lparr>p_disconnectOnce := True, p_events := p_events ?q @ [EvDisconnected]\<rparr>"
  have "peer_ok p ?p" using peer_ok_update(9)[OF assms(1)] by simp
  then have q: "peer_ok p ?q" using peer_ok_trans peer_SendDisconnect peer_does_inv by blast
  then have "peer_ok p ?r"
    using peer_log_disconnect[OF peer_does_inv[OF q]] peer_ok_trans assms(2) by (simp add: SendDisconnect_once)
  moreover have "Disconnect h p = h EvDisconnected ?r"
    using assms(2) by (simp add: Disconnect_def fire_def Let_def SendDisconnect_once)
  moreover have "p_disconnectOnce ?r" by simp
  ultimately show ?thesis by blast
qed

lemma Disconnect_ok:
  assumes "peer_inv p"
  shows "ok_from p (Disconnect h p)"
proof (cases "p_disconnectOnce p")
  case True
  then show ?thesis using assms by (simp add: Disconnect_def ok_from_refl)
next
  case False
  then show ?thesis using Disconnect_split[OF assms] ok_from_trans handler_ok peer_does_inv by metis
qed

text \<open>After it, the peer has disconnected for good.\<close>

lemma Disconnect_once:
  assumes "peer_inv p" and "Disconnect h p = Some q"
  shows "p_disconnectOnce q"
proof (cases "p_disconnectOnce p")
  case True
  then show ?thesis using assms(2) by (auto simp: Disconnect_def)
next
  case False
  then obtain r where r: "peer_ok p r" "p_disconnectOnce r" "h EvDisconnected r = Some q"
    using Disconnect_split[OF assms(1)] assms(2) by metis
  then show ?thesis
    using handler_ok[OF peer_does_inv[OF r(1)], of EvDisconnected] peer_does_once by (auto simp: ok_from_def)
qed

lemma SendReliable_ok:
  assumes inv: "peer_inv p"
  shows "ok_from p (SendReliable kc h header content p)"
proof (cases "1 + length content > length (p_kcpSendBuffer p)")
  case True
  then show ?thesis using fire_error[OF inv] by (simp add: SendReliable_def)
next
  case False
  let ?m = "reliable_byte header # content"
  let ?p = "p\<lparr>p_kcpSendBuffer := ?m @ drop (length ?m) (p_kcpSendBuffer p)\<rparr>"
  have p1: "peer_ok p ?p" using peer_ok_update(7)[OF inv] False by simp
  have inv1: "peer_inv ?p" by (rule peer_does_inv[OF p1])
  have "length ?m \<le> 1 + nat (p_ReliableMax ?p)" using False inv by (simp add: peer_inv_def)
  then obtain k where k: "kcp_Send ?m (p_Kcp p) = Some (0, k)" "peer_ok ?p (?p\<lparr>p_Kcp := k, p_sent := p_sent p @ [?m]\<rparr>)"
    using peer_kcp_Send[OF inv1, of ?m] by auto
  let ?q = "?p\<lparr>p_Kcp := k, p_sent := p_sent p @ [?m]\<rparr>"
  have inv2: "peer_inv ?q" by (rule peer_does_inv[OF k(2)])
  then have "kcp_inv k" by (simp add: peer_inv_def)
  then obtain t k' where k': "kcp_flush kc False k = Some (t, k')" "sends_ok k k'"
    using kcp_flush_sends[of k kc False] by blast
  have q: "peer_ok p ?q" by (rule peer_ok_trans[OF p1 k(2)])
  have "peer_ok p (kcp_output k' ?q)"
    using peer_ok_trans[OF q peer_sends[OF inv2]] k'(2) by simp
  moreover have "ok_from p (fire h (EvError ErrorCodeInvalidSend) ?p)"
    by (rule ok_from_trans[OF p1 fire_error[OF inv1]])
  ultimately show ?thesis
    using SendReliable_eq[of content p kc h header] False k(1) k'(1) q by (simp add: ok_from_Some)
qed

lemma SendHello_ok: "peer_inv p \<Longrightarrow> ok_from p (SendHello kc h p)"
  by (simp add: SendHello_def SendReliable_ok)

lemma timed_ok:
  "peer_inv p \<Longrightarrow> (\<And>t n. ok_from (p\<lparr>p_reads := n, p_lastReceiveTime := t\<rparr>) (f (p\<lparr>p_reads := n, p_lastReceiveTime := t\<rparr>)))
     \<Longrightarrow> ok_from p (f (p\<lparr>p_reads := n, p_lastReceiveTime := t\<rparr>))"
  by (rule ok_from_trans[of p "p\<lparr>p_reads := n, p_lastReceiveTime := t\<rparr>"]) (simp_all add: contract_defs)

lemma SendPing_ok: "peer_inv p \<Longrightarrow> ok_from p (SendPing kc pc h p)"
  unfolding SendPing_def peer_Time_def Let_def prod.case
  by (simp, rule timed_ok[where f = "SendReliable kc h KcpHeaderPing z" for z])
     (auto intro!: SendReliable_ok simp: peer_inv_def)

lemma SendPong_ok: "peer_inv p \<Longrightarrow> ok_from p (SendPong kc pc h ts p)"
  unfolding SendPong_def peer_Time_def Let_def prod.case
  by (rule timed_ok[where f = "SendReliable kc h KcpHeaderPong z" for z])
     (auto intro!: SendReliable_ok simp: peer_inv_def)

lemma fail_ok: "peer_inv p \<Longrightarrow> ok_from p (fire h (EvError c) p \<bind> Disconnect h)"
  by (intro ok_from_bind fire_error Disconnect_ok)

lemma SendData_ok: "peer_inv p \<Longrightarrow> ok_from p (SendData kc pc h data channel p)"
proof -
  assume inv: "peer_inv p"
  let ?f = "\<lambda>p. case channel of KcpReliable \<Rightarrow> SendReliable kc h KcpHeaderData data p
              | KcpUnreliable \<Rightarrow> Some (SendUnreliable KcpHeaderUnrelData data p)"
  have f: "peer_inv q \<Longrightarrow> ok_from q (?f q)" for q
    by (cases channel) (simp_all add: SendReliable_ok peer_SendUnreliable ok_from_Some)
  have "ok_from p (?f (p\<lparr>p_reads := n, p_lastReceiveTime := t\<rparr>))" for n t
    by (rule timed_ok[OF inv, of ?f]) (rule f, use inv in \<open>simp add: peer_inv_def\<close>)
  then show ?thesis
    using fail_ok[OF inv] by (simp add: SendData_def peer_Time_def Let_def)
qed

lemma HandleTimeout_ok: "peer_inv p \<Longrightarrow> ok_from p (HandleTimeout h time p)"
  by (simp add: HandleTimeout_def fail_ok ok_from_refl)

lemma HandleDeadLink_ok: "peer_inv p \<Longrightarrow> ok_from p (HandleDeadLink h p)"
  by (simp add: HandleDeadLink_def fail_ok ok_from_refl)

lemma HandlePing_ok: "peer_inv p \<Longrightarrow> ok_from p (HandlePing kc pc h time p)"
  by (auto simp: HandlePing_def ok_from_refl intro!: ok_from_bind[OF SendPing_ok] ok_from_Some peer_ok_update)

text \<open>
  Clearing the segments in flight loses them but keeps every promise other than that all
  that was acknowledged has arrived.
\<close>

lemma clear_flight_ok:
  assumes inv: "peer_inv p" and ev: "EvError ErrorCodeCongestion \<in> set (p_events p)"
  shows "peer_ok p (p\<lparr>p_Kcp := (p_Kcp p)\<lparr>k_snd_buf := rb_Clear zero_seg (k_snd_buf (p_Kcp p))\<rparr>\<rparr>)"
proof -
  let ?k = "(p_Kcp p)\<lparr>k_snd_buf := rb_Clear zero_seg (k_snd_buf (p_Kcp p))\<rparr>"
  let ?o = "\<lambda>k. k\<lparr>k_output := outs (p_events p)\<rparr>"
  have kinv: "kcp_inv ?k"
  proof -
    have "snd_inv (p_Kcp p)" "cfg_inv ?k" "rcv_inv ?k" using inv by (auto simp: peer_inv_def kcp_inv_def)
    then show ?thesis by (simp add: kcp_inv_def snd_inv_def rb_inv_Clear rb_list_Clear)
  qed
  have "session_ok (peer_end (p\<lparr>p_Kcp := ?k\<rparr>)) r" if ok: "session_ok (peer_end p) r" for r
  proof -
    have ek: "e_k (peer_end p) = ?o (p_Kcp p)" by (simp add: peer_end_def)
    have eq: "peer_end (p\<lparr>p_Kcp := ?k\<rparr>) = (peer_end p)\<lparr>e_k := ?o ?k\<rparr>" by (simp add: peer_end_def)
    have logs: "snd_log (e_log (peer_end p)) (?o (p_Kcp p))" "out_log (e_log (peer_end p)) (?o (p_Kcp p))"
      "delivers r (peer_end p)"
      using ok unfolding session_ok_def ep_ok_def ek by blast+
    show ?thesis
      unfolding eq
    proof (rule session_ok_conn[OF ok])
      show "kcp_inv (?o ?k)" using kinv by (simp add: kcp_inv_def)
      show "snd_log (e_log (peer_end p)) (?o ?k)" using logs(1) by (simp add: snd_log_def rb_list_Clear)
      show "out_log (e_log (peer_end p)) (?o ?k)" using logs(2) by (simp add: out_log_def)
      show "rcv_log (e_log r) (length (msg_log (unat (k_mss (e_k r))) (e_got (peer_end p))))
         (k_rcv_nxt (?o ?k)) (rcv_queue_list (?o ?k)) (rcv_buf_items (?o ?k))"
        using logs(3) by (simp add: delivers_def ek)
    qed (simp_all add: ek)
  qed
  moreover have "in_sync (p\<lparr>p_Kcp := ?k\<rparr>) r" for r using ev by (simp add: in_sync_def calm_def)
  ultimately show ?thesis
    using inv kinv by (simp add: peer_does_def peer_inv_def peer_fixed_def keeps_session_def rcv_load_def
        ReceiveQueueCount_def ReceiveBufferCount_def events_ok_def auth_log_def)
qed

lemma HandleChoked_ok:
  assumes inv: "peer_inv p"
  shows "ok_from p (HandleChoked h p)"
proof -
  let ?p = "p\<lparr>p_events := p_events p @ [EvError ErrorCodeCongestion]\<rparr>"
  have e: "peer_ok p ?p" using peer_event[OF inv, of "EvError ErrorCodeCongestion"] by simp
  have "ok_from q (Disconnect h (q\<lparr>p_Kcp := (p_Kcp q)\<lparr>k_snd_buf := rb_Clear zero_seg (k_snd_buf (p_Kcp q))\<rparr>\<rparr>))"
    if q: "peer_ok ?p q" for q
  proof -
    have ev: "EvError ErrorCodeCongestion \<in> set (p_events q)" using q by (auto simp: peer_does_def)
    note c = clear_flight_ok[OF peer_does_inv[OF q] ev]
    show ?thesis by (rule ok_from_trans[OF c Disconnect_ok[OF peer_does_inv[OF c]]])
  qed
  from ok_from_trans[OF e ok_from_bind[OF handler_ok[OF peer_does_inv[OF e]] this]]
  show ?thesis using inv by (simp add: HandleChoked_def Let_def ok_from_refl fire_def)
qed

lemma ReceiveNext_ok:
  assumes inv: "peer_inv p"
  shows "\<exists>res q. ReceiveNextReliable pc h p = Some (res, q)
    \<and> (case res of
          None \<Rightarrow> peer_run p q \<and> rcv_load q \<le> rcv_load p \<and> (\<forall>header m. p_received q \<noteq> p_received p @ [reliable_byte header # m])
        | Some (header, m) \<Rightarrow> took (reliable_byte header # m) p q)"
proof -
  let ?n = "kcp_PeekSize (p_Kcp p)"
  have fail: "\<exists>q. (fire h (EvError ErrorCodeInvalidReceive) p' \<bind> Disconnect h) = Some q \<and> peer_ok p' q"
    if "peer_inv p'" for p'
    using fail_ok[OF that] by (simp add: ok_from_def)
  consider "?n \<le> 0" | "0 < ?n" "int (length (p_kcpMessageBuffer p)) < ?n" | "0 < ?n" "?n \<le> int (length (p_kcpMessageBuffer p))"
    by linarith
  then show ?thesis
  proof cases
    case 1
    then show ?thesis using peer_run_refl[OF inv] by (simp add: ReceiveNextReliable_def)
  next
    case 2
    obtain q where "fire h (EvError ErrorCodeInvalidReceive) p \<bind> Disconnect h = Some q" "peer_ok p q" using fail[OF inv] by blast
    then show ?thesis
      using 2 peer_ok_run[of p q] by (auto simp: ReceiveNextReliable_def peer_does_def bind_eq_Some_conv)
  next
    case 3
    obtain k buf m where r: "kcp_Recv (p_kcpMessageBuffer p) (p_Kcp p) = Some (?n, buf, k)" "take (nat ?n) buf = m"
        "int (length m) = ?n" "length buf = length (p_kcpMessageBuffer p)"
      and q: "let q = p\<lparr>p_Kcp := k, p_kcpMessageBuffer := buf, p_received := p_received p @ [m]\<rparr> in
          peer_inv q \<and> peer_fixed p q \<and> keeps_session p q \<and> rcv_load q < rcv_load p"
      using peer_kcp_Recv[OF inv 3] by blast
    let ?q = "p\<lparr>p_Kcp := k, p_kcpMessageBuffer := buf, p_received := p_received p @ [m]\<rparr>"
    have t: "took m p ?q" using q by (simp add: took_def Let_def)
    obtain b bs where b: "buf = b # bs" using 3 r(4) by (cases buf) auto
    have m: "m = b # take (nat ?n - 1) bs" using r(2) 3(1) b by (cases "nat ?n") auto
    obtain header valid where ps: "ParseReliable b = (header, valid)" by (cases "ParseReliable b")
    show ?thesis
    proof (cases valid)
      case True
      then have "reliable_byte header = b" using ParseReliable_valid[of b] ps by simp
      then show ?thesis
        using 3 r took_update[OF t] True ps m b
        by (simp add: ReceiveNextReliable_def Let_def peer_Time_def)
    next
      case False
      obtain q' where q': "fire h (EvError ErrorCodeInvalidReceive) ?q \<bind> Disconnect h = Some q'" "peer_ok ?q q'"
        using fail[of ?q] t by (auto simp: took_def)
      have "ReceiveNextReliable pc h p = Some (None, q')"
        using 3 r False ps b q'(1)
        by (simp add: ReceiveNextReliable_def Let_def bind_eq_Some_conv)
      moreover have "p_received q' = p_received p @ [m]" using q'(2) by (simp add: peer_does_def)
      moreover have "m \<noteq> reliable_byte hd' # m'" for hd' m'
        using False ps by (auto simp: m ParseReliable_byte)
      ultimately show ?thesis using took_then[OF t q'(2)] by simp
    qed
  qed
qed

text \<open>What is delivered of a message in the authenticated state.\<close>

definition deliverable :: "KcpHeaderReliable \<Rightarrow> bytes \<Rightarrow> bytes list" where
  "deliverable header m = (if header = KcpHeaderData \<and> m \<noteq> [] then [m] else [])"

lemma process_message_ok:
  assumes inv: "peer_inv p" and auth: "EvAuthenticated \<in> set (p_events p)"
  shows "\<exists>q. process_message kc pc h time header m p = Some q \<and> peer_does (deliverable header m) p q"
proof -
  have ok: "(\<exists>q. x = Some q \<and> peer_does [] p q) = ok_from p x" for x by (simp add: ok_from_def)
  show ?thesis
  proof (cases header)
    case KcpHeaderHello
    then show ?thesis using Disconnect_ok[OF inv] by (simp add: process_message_def deliverable_def ok)
  next
    case KcpHeaderPing
    have "ok_from p (SendPong kc pc h ts p \<bind> (\<lambda>p. Some (p\<lparr>p_LastPongTime := time\<rparr>)))" for ts
      by (intro ok_from_bind[OF SendPong_ok[OF inv]] ok_from_Some peer_ok_update)
    then show ?thesis
      using KcpHeaderPing ok_from_refl[OF inv] by (simp add: process_message_def deliverable_def ok split: prod.split)
  next
    case KcpHeaderPong
    then show ?thesis
      using ok_from_refl[OF inv] ok_from_Some[OF peer_ok_update(5)[OF inv]]
      by (simp add: process_message_def deliverable_def ok split: prod.split)
  next
    case KcpHeaderData
    show ?thesis
    proof (cases "m = []")
      case True
      then show ?thesis using KcpHeaderData fail_ok[OF inv] by (simp add: process_message_def deliverable_def ok)
    next
      case False
      let ?q = "p\<lparr>p_events := p_events p @ [EvData m KcpReliable]\<rparr>"
      have q: "peer_does [m] p ?q" using peer_event[OF inv, of "EvData m KcpReliable"] auth by simp
      obtain r where "h (EvData m KcpReliable) ?q = Some r" "peer_ok ?q r"
        using handler_ok[OF peer_does_inv[OF q]] by (auto simp: ok_from_def)
      then show ?thesis
        using KcpHeaderData False peer_does_trans[OF q] by (simp add: process_message_def deliverable_def fire_def)
    qed
  qed
qed

lemma receive_loop_ok:
  assumes "peer_inv p" and "authenticated p" and "rcv_load p < fuel"
  shows "run_from p (receive_loop fuel kc pc h time p)"
  using assms
proof (induction fuel arbitrary: p)
  case 0
  then show ?case by simp
next
  case (Suc fuel)
  obtain res q where r: "ReceiveNextReliable pc h p = Some (res, q)"
    "case res of None \<Rightarrow> peer_run p q \<and> rcv_load q \<le> rcv_load p
          \<and> (\<forall>header m. p_received q \<noteq> p_received p @ [reliable_byte header # m])
        | Some (header, m) \<Rightarrow> took (reliable_byte header # m) p q"
    using ReceiveNext_ok[OF Suc.prems(1)] by blast
  show ?case
  proof (cases res)
    case None
    then show ?thesis using r by (simp add: run_from_def)
  next
    case (Some hm)
    obtain header m where hm: "hm = (header, m)" by (cases hm)
    have t: "took (reliable_byte header # m) p q" using r Some hm by simp
    then have q: "peer_inv q" "authenticated q" using Suc.prems(2) by (simp_all add: took_def authenticated_def)
    obtain s where s: "process_message kc pc h time header m q = Some s" "peer_does (deliverable header m) q s"
      using process_message_ok[OF q(1), of kc pc time header m] q(2) unfolding authenticated_def by blast
    have "subseq (deliverable header m) (data_of [reliable_byte header # m])" by (simp add: deliverable_def)
    note ps = took_then[OF t s(2) this]
    have "run_from s (receive_loop fuel kc pc h time s)"
      using Suc.IH[of s] ps Suc.prems peer_does_inv[OF s(2)] authenticated_does[OF s(2) q(2)] by simp
    then show ?thesis using r(1) Some hm s(1) run_from_trans[OF ps(1)] by simp
  qed
qed

text \<open>The checks both ticks start with.\<close>

lemma checks_run:
  assumes "peer_inv p" and "\<And>q. peer_ok p q \<Longrightarrow> peer_inv q \<Longrightarrow> run_from q (f q)"
  shows "run_from p (HandleTimeout h time p \<bind> (\<lambda>p. HandleDeadLink h p \<bind> (\<lambda>p. HandlePing kc pc h time p \<bind>
     (\<lambda>p. HandleChoked h p \<bind> f))))"
  by (intro run_from_bind[OF HandleTimeout_ok] run_from_bind[OF HandleDeadLink_ok] run_from_bind[OF HandlePing_ok]
      run_from_bind[OF HandleChoked_ok]) (use assms peer_ok_trans in \<open>blast+\<close>)

lemma TickIncoming_Connected_ok:
  assumes inv: "peer_inv p"
  shows "run_from p (TickIncoming_Connected kc pc h time p)"
proof -
  have recv: "run_from q (ReceiveNextReliable pc h q \<bind> (\<lambda>(received, p). case received of
       None \<Rightarrow> Some p
     | Some (KcpHeaderHello, message) \<Rightarrow> fire h EvAuthenticated (p\<lparr>p_State := KcpAuthenticated\<rparr>)
     | Some (KcpHeaderPing, message) \<Rightarrow> Some p
     | Some (KcpHeaderPong, message) \<Rightarrow> Some p
     | Some (KcpHeaderData, message) \<Rightarrow> fire h (EvError ErrorCodeInvalidReceive) p \<bind> Disconnect h))"
    if q: "peer_inv q" for q
  proof -
    obtain res s where r: "ReceiveNextReliable pc h q = Some (res, s)"
      "case res of None \<Rightarrow> peer_run q s \<and> rcv_load s \<le> rcv_load q
            \<and> (\<forall>header m. p_received s \<noteq> p_received q @ [reliable_byte header # m])
          | Some (header, m) \<Rightarrow> took (reliable_byte header # m) q s"
      using ReceiveNext_ok[OF q] by blast
    show ?thesis
    proof (cases res)
      case None
      then show ?thesis using r by (simp add: run_from_def)
    next
      case (Some hm)
      obtain header m where hm: "hm = (header, m)" by (cases hm)
      have t: "took (reliable_byte header # m) q s" using r Some hm by simp
      then have s: "peer_inv s" by (simp add: took_def)
      have "ok_from s (fire h EvAuthenticated (s\<lparr>p_State := KcpAuthenticated\<rparr>))" if "header = KcpHeaderHello"
      proof -
        have "hello_in (p_received s)" using t that by (simp add: took_def hello_in_def)
        note a = peer_authenticate[OF s this]
        from ok_from_trans[OF a handler_ok[OF peer_does_inv[OF a]]] show ?thesis by (simp add: fire_def)
      qed
      then have "ok_from s (case header of KcpHeaderHello \<Rightarrow> fire h EvAuthenticated (s\<lparr>p_State := KcpAuthenticated\<rparr>)
          | KcpHeaderData \<Rightarrow> fire h (EvError ErrorCodeInvalidReceive) s \<bind> Disconnect h | _ \<Rightarrow> Some s)"
        using fail_ok[OF s] ok_from_refl[OF s] by (cases header) simp_all
      then obtain u where "(case header of KcpHeaderHello \<Rightarrow> fire h EvAuthenticated (s\<lparr>p_State := KcpAuthenticated\<rparr>)
          | KcpHeaderData \<Rightarrow> fire h (EvError ErrorCodeInvalidReceive) s \<bind> Disconnect h | _ \<Rightarrow> Some s) = Some u" "peer_ok s u"
        by (auto simp: ok_from_def)
      then show ?thesis
        using r(1) Some hm took_then(1)[OF t] by (cases header) (simp_all add: run_from_def)
    qed
  qed
  show ?thesis unfolding TickIncoming_Connected_def using inv recv by (rule checks_run)
qed

text \<open>
  A tick in the connected state that finds the peer timed out and reads a hello: the peer has
  disconnected when it enters the authenticated state.
\<close>

lemma timed_out_hello:
  assumes inv: "peer_inv p" and run: "TickIncoming_Connected kc pc h time p = Some q"
    and late: "time \<ge> p_lastReceiveTime p + word_of_int (p_Timeout p)"
    and hello: "p_received q = p_received p @ [reliable_byte KcpHeaderHello # m]"
  shows "\<exists>s. peer_run p s \<and> p_disconnectOnce s \<and> p_State s = KcpAuthenticated \<and> h EvAuthenticated s = Some q"
proof -
  obtain p1 where p1: "HandleTimeout h time p = Some p1" "peer_ok p p1"
    using HandleTimeout_ok[OF inv] by (auto simp: ok_from_def)
  obtain e where e: "fire h (EvError ErrorCodeTimeout) p = Some e" "peer_ok p e"
    using fire_error[OF inv] by (auto simp: ok_from_def)
  have once1: "p_disconnectOnce p1"
    using p1(1) e(1) late Disconnect_once[OF peer_does_inv[OF e(2)]] by (simp add: HandleTimeout_def)
  obtain p2 where p2: "HandleDeadLink h p1 = Some p2" "peer_ok p1 p2"
    using HandleDeadLink_ok[OF peer_does_inv[OF p1(2)]] by (auto simp: ok_from_def)
  obtain p3 where p3: "HandlePing kc pc h time p2 = Some p3" "peer_ok p2 p3"
    using HandlePing_ok[OF peer_does_inv[OF p2(2)], of kc pc time] by (auto simp: ok_from_def)
  obtain p4 where p4: "HandleChoked h p3 = Some p4" "peer_ok p3 p4"
    using HandleChoked_ok[OF peer_does_inv[OF p3(2)]] by (auto simp: ok_from_def)
  have ok4: "peer_ok p1 p4" using peer_ok_trans[OF peer_ok_trans[OF p2(2) p3(2)] p4(2)] .
  then have run4: "peer_run p p4" and once4: "p_disconnectOnce p4" and rcv4: "p_received p4 = p_received p"
    using peer_ok_run[OF peer_ok_trans[OF p1(2)]] peer_does_once[OF _ once1] p1(2) by (simp_all add: peer_does_def)
  obtain res r where r: "ReceiveNextReliable pc h p4 = Some (res, r)"
    "case res of None \<Rightarrow> peer_run p4 r \<and> rcv_load r \<le> rcv_load p4
        \<and> (\<forall>header m. p_received r \<noteq> p_received p4 @ [reliable_byte header # m])
      | Some (header, m) \<Rightarrow> took (reliable_byte header # m) p4 r"
    using ReceiveNext_ok[OF peer_does_inv[OF ok4]] by blast
  show ?thesis
  proof (cases res)
    case None
    then have "q = r" using run p1(1) p2(1) p3(1) p4(1) r(1) by (simp add: TickIncoming_Connected_def)
    moreover have "p_received r \<noteq> p_received p4 @ [reliable_byte KcpHeaderHello # m]"
      using r(2) unfolding None option.case by blast
    ultimately show ?thesis using hello rcv4 by simp
  next
    case (Some hm)
    obtain header m' where hm: "hm = (header, m')" by (cases hm)
    have t: "took (reliable_byte header # m') p4 r" using r(2) Some hm by simp
    then have inv': "peer_inv r" and rcv: "p_received r = p_received p @ [reliable_byte header # m']"
      and once: "p_disconnectOnce r" using once4 rcv4 by (simp_all add: took_def)
    let ?s = "r\<lparr>p_State := KcpAuthenticated, p_events := p_events r @ [EvAuthenticated]\<rparr>"
    have tick: "q = r \<and> header \<in> {KcpHeaderPing, KcpHeaderPong}
        \<or> header = KcpHeaderData \<and> fire h (EvError ErrorCodeInvalidReceive) r \<bind> Disconnect h = Some q
        \<or> header = KcpHeaderHello \<and> h EvAuthenticated ?s = Some q"
      using run p1(1) p2(1) p3(1) p4(1) r(1) Some hm
      by (cases header) (simp_all add: TickIncoming_Connected_def fire_def)
    have "header = KcpHeaderHello"
    proof (rule ccontr)
      assume "header \<noteq> KcpHeaderHello"
      then have "p_received q = p_received r"
        using tick fail_ok[OF inv', of ErrorCodeInvalidReceive] by (auto simp: ok_from_def peer_does_def)
      then have "reliable_byte header = reliable_byte KcpHeaderHello" using hello rcv by simp
      then show False using \<open>header \<noteq> KcpHeaderHello\<close> by (cases header) simp_all
    qed
    moreover from this have "hello_in (p_received r)" using rcv by (simp add: hello_in_def)
    then have "peer_run p ?s"
      using peer_run_trans[OF run4 took_then(1)[OF t peer_authenticate[OF inv']]] by simp
    ultimately show ?thesis using tick once by (intro exI[of _ ?s]) simp
  qed
qed

lemma TickIncoming_Authenticated_ok:
  assumes inv: "peer_inv p" and auth: "authenticated p"
  shows "run_from p (TickIncoming_Authenticated kc pc h time p)"
  unfolding TickIncoming_Authenticated_def using inv
proof (rule checks_run)
  fix q assume "peer_ok p q" and inv: "peer_inv q"
  then have "authenticated q" using auth authenticated_does by blast
  with inv show "run_from q (receive_loop (Suc (ReceiveQueueCount q + ReceiveBufferCount q)) kc pc h time q)"
    by (rule receive_loop_ok) (simp add: rcv_load_def)
qed

theorem TickIncoming_ok:
  assumes inv: "peer_inv p" and auth: "auth_log p"
  shows "run_from p (peer_TickIncoming kc pc h p)"
proof -
  let ?p = "p\<lparr>p_reads := p_reads p + 1\<rparr>"
  have p: "peer_ok p ?p" by (rule peer_ok_update(2)[OF inv])
  have "authenticated ?p" if "p_State p = KcpAuthenticated"
    using auth that by (simp add: auth_log_def authenticated_def)
  then have "run_from ?p (case p_State ?p of
           KcpConnected \<Rightarrow> TickIncoming_Connected kc pc h (pc (p_reads p)) ?p
         | KcpAuthenticated \<Rightarrow> TickIncoming_Authenticated kc pc h (pc (p_reads p)) ?p
         | KcpDisconnected \<Rightarrow> Some ?p)"
    using TickIncoming_Connected_ok TickIncoming_Authenticated_ok run_from_ok[OF ok_from_refl] peer_does_inv[OF p]
    by (cases "p_State p") simp_all
  then show ?thesis
    using run_from_trans[OF peer_ok_run[OF p]]
    by (cases "p_State p") (simp_all add: peer_TickIncoming_def peer_Time_def)
qed

theorem TickOutgoing_ok: "peer_inv p \<Longrightarrow> ok_from p (peer_TickOutgoing kc pc h p)"
  by (cases "p_State p")
     (auto simp: peer_TickOutgoing_def ok_from_refl intro!: ok_from_bind[OF HandleDeadLink_ok] tick_flush_ok)

lemma OnRawInputUnreliable_ok:
  assumes inv: "peer_inv p" and auth: "auth_log p"
  shows "ok_from p (OnRawInputUnreliable pc h message p)"
proof -
  have data: "ok_from p (fire h (EvData content KcpUnreliable) p \<bind>
      (\<lambda>p. let (now, p) = peer_Time pc p in Some (p\<lparr>p_lastReceiveTime := now\<rparr>)))"
    if "p_State p = KcpAuthenticated" for content
  proof (rule ok_from_bind)
    let ?q = "p\<lparr>p_events := p_events p @ [EvData content KcpUnreliable]\<rparr>"
    have "peer_ok p ?q"
      using peer_event[OF inv, of "EvData content KcpUnreliable"] auth that by (simp add: auth_log_def)
    from ok_from_trans[OF this handler_ok[OF peer_does_inv[OF this]]]
    show "ok_from p (fire h (EvData content KcpUnreliable) p)" by (simp add: fire_def)
  next
    fix q :: "'a KcpPeer_scheme"
    assume q: "peer_inv q"
    have "ok_from q (Some (q\<lparr>p_reads := p_reads q + 1, p_lastReceiveTime := pc (p_reads q)\<rparr>))"
      by (rule timed_ok[where f = Some, OF q]) (rule ok_from_refl, use q in \<open>simp add: peer_inv_def\<close>)
    then show "ok_from q (let (now, p) = peer_Time pc q in Some (p\<lparr>p_lastReceiveTime := now\<rparr>))"
      by (simp add: peer_Time_def)
  qed
  obtain header valid where ps: "ParseUnreliable (message ! 0) = (header, valid)" by (cases "ParseUnreliable (message ! 0)")
  show ?thesis
    using data fail_ok[OF inv] Disconnect_ok[OF inv] ok_from_refl[OF inv]
    by (cases header) (simp_all add: OnRawInputUnreliable_def ps)
qed

end

end
