(* ===== verification/Peer_Session.thy ===== *)
theory Peer_Session
  imports Peer_Operations
begin

text \<open>
  Sessions of peers. \<open>Reset\<close> sets up a peer for any sensible configuration; two such peers, each
  with its own handler, exchange datagrams over a network that may lose, repeat, delay and
  reorder them. What the KCP session promises of messages carries over to what the handlers are
  told.
\<close>

section \<open>Setting up\<close>

definition config_ok :: "KcpConfig \<Rightarrow> bool" where
  "config_ok c \<longleftrightarrow> 55 \<le> cf_Mtu c \<and> cf_Mtu c < 2 ^ 31 \<and> cf_SendWindowSize c < 2 ^ 31
     \<and> 0 < cf_ReceiveWindowSize c \<and> cf_ReceiveWindowSize c < 2 ^ 31"

lemma config_ok_default: "config_ok DefaultKcpConfig" "config_ok HighPerformanceKcpConfig" "config_ok ConservativeKcpConfig"
  by (simp_all add: config_ok_def DefaultKcpConfig_def HighPerformanceKcpConfig_def ConservativeKcpConfig_def)

lemma sint_small:
  fixes w :: "64 word"
  assumes "w < 2 ^ 31"
  shows "0 \<le> sint w" "sint w < 2 ^ 31"
proof -
  have u: "uint w < 2 ^ 31" using assms by (simp add: word_less_def)
  moreover have "- (2 ^ 63) \<le> uint w" by (rule order_trans[of _ 0]) simp_all
  ultimately have "sint w = uint w" using go_int_id[of "uint w"] by (simp add: go_int_def)
  then show "0 \<le> sint w" "sint w < 2 ^ 31" using u by simp_all
qed

text \<open>The KCP connection that \<open>Reset\<close> configures.\<close>

definition reset_kcp :: "KcpConfig \<Rightarrow> KCP" where
  "reset_kcp c = (snd (kcp_SetMtu (cf_Mtu c - 5)
     (snd (kcp_WndSize (sint (cf_SendWindowSize c)) (sint (cf_ReceiveWindowSize c))
       (snd (kcp_NoDelay (boolToInt (cf_NoDelay c)) (sint (cf_Interval c)) (cf_FastResend c)
          (if \<not> cf_CongestionWindow c then 1 else 0) (NewKCP 0)))))))\<lparr>k_dead_link := ucast (cf_MaxRetransmits c)\<rparr>"

definition reset_max :: "KcpConfig \<Rightarrow> int" where
  "reset_max c = max 0 ((cf_Mtu c - 29) * (min (int (unat (cf_ReceiveWindowSize c))) 255 - 1) - 1)"

lemma Reset_eq:
  assumes "config_ok c"
  shows "peer_Reset c p = Some (p\<lparr>p_Kcp := reset_kcp c, p_Cookie := 0, p_State := KcpConnected, p_Timeout := cf_Timeout c,
     p_lastReceiveTime := 0, p_kcpMessageBuffer := replicate (1 + nat (reset_max c)) 0,
     p_kcpSendBuffer := replicate (1 + nat (reset_max c)) 0, p_LastPingTime := 0, p_ReliableMax := reset_max c,
     p_UnreliableMax := cf_Mtu c - 6, p_rtt := 0\<rparr>)"
proof -
  have c: "0 < cf_ReceiveWindowSize c" "55 \<le> cf_Mtu c" "cf_Mtu c < 2 ^ 31" using assms by (simp_all add: config_ok_def)
  have "(if ReliableMaxMessageSize (cf_Mtu c) (cf_ReceiveWindowSize c) < 0 then 0
         else ReliableMaxMessageSize (cf_Mtu c) (cf_ReceiveWindowSize c)) = reset_max c"
    using ReliableMax_eq[OF c(1) _ c(3)] c(2) by (simp add: reset_max_def max_def)
  moreover have "UnreliableMaxMessageSize (cf_Mtu c) = cf_Mtu c - 6"
    using c by (simp add: UnreliableMaxMessageSize_def go_int_id)
  ultimately show ?thesis
    using c(2) by (simp add: peer_Reset_def reset_kcp_def Let_def)
qed

lemma NoDelay_queues:
  "snd_queue_list (snd (kcp_NoDelay a b c d k)) = snd_queue_list k" "snd_buf_list (snd (kcp_NoDelay a b c d k)) = snd_buf_list k"
  "rcv_queue_list (snd (kcp_NoDelay a b c d k)) = rcv_queue_list k" "rcv_buf_items (snd (kcp_NoDelay a b c d k)) = rcv_buf_items k"
  "k_snd_una (snd (kcp_NoDelay a b c d k)) = k_snd_una k" "k_snd_nxt (snd (kcp_NoDelay a b c d k)) = k_snd_nxt k"
  "k_rcv_nxt (snd (kcp_NoDelay a b c d k)) = k_rcv_nxt k" "k_stream (snd (kcp_NoDelay a b c d k)) = k_stream k"
  "k_output (snd (kcp_NoDelay a b c d k)) = k_output k" "k_acklist (snd (kcp_NoDelay a b c d k)) = k_acklist k"
  by (simp_all add: kcp_NoDelay_def Let_def)

lemma reset_kcp_inv:
  assumes "config_ok c"
  shows "kcp_inv (reset_kcp c)" and "int (unat (k_mss (reset_kcp c))) = cf_Mtu c - 29"
    and "int (unat (k_mtu (reset_kcp c))) = cf_Mtu c - 5"
proof -
  let ?k1 = "snd (kcp_NoDelay (boolToInt (cf_NoDelay c)) (sint (cf_Interval c)) (cf_FastResend c)
          (if \<not> cf_CongestionWindow c then 1 else 0) (NewKCP 0))"
  let ?k2 = "snd (kcp_WndSize (sint (cf_SendWindowSize c)) (sint (cf_ReceiveWindowSize c)) ?k1)"
  let ?k3 = "snd (kcp_SetMtu (cf_Mtu c - 5) ?k2)"
  have w: "sint (cf_SendWindowSize c) < 2 ^ 31" "sint (cf_ReceiveWindowSize c) < 2 ^ 31"
    using assms sint_small by (auto simp: config_ok_def)
  have new: "snd_queue_list (NewKCP 0) = []" "snd_buf_list (NewKCP 0) = []" "rcv_queue_list (NewKCP 0) = []"
    "rcv_buf_items (NewKCP 0) = {#}" "k_snd_una (NewKCP 0) = k_snd_nxt (NewKCP 0)"
    by (simp_all add: NewKCP_def rb_list_New heap_items_New)
  have k2: "kcp_inv ?k2"
    by (rule kcp_WndSize_inv[OF kcp_NoDelay_inv[OF kcp_inv_New] w]) (simp_all add: NoDelay_queues new)
  have q2: "snd_queue_list ?k2 = []" "snd_buf_list ?k2 = []"
    by (simp_all add: kcp_WndSize_def Let_def NoDelay_queues new)
  have k3: "kcp_inv ?k3"
    by (rule kcp_SetMtu_inv[OF k2 q2]) (use assms in \<open>simp add: config_ok_def\<close>)
  have mtu: "k_mtu ?k3 = word_of_int (cf_Mtu c - 5)"
    using assms by (simp add: kcp_SetMtu_def config_ok_def)
  then have mtu': "unat (k_mtu ?k3) = nat (cf_Mtu c - 5)"
    using unat_word_of_int32[of "cf_Mtu c - 5"] assms by (simp add: config_ok_def)
  show "kcp_inv (reset_kcp c)" using k3 by (simp add: reset_kcp_def kcp_inv_def)
  have r: "k_mtu (reset_kcp c) = k_mtu ?k3" "k_mss (reset_kcp c) = k_mss ?k3" by (simp_all add: reset_kcp_def)
  show m: "int (unat (k_mtu (reset_kcp c))) = cf_Mtu c - 5"
    unfolding r mtu' using assms by (simp add: config_ok_def)
  have "unat (k_mss ?k3) = unat (k_mtu ?k3) - 24" using cfg_inv_mss[of ?k3] k3 by auto
  moreover have "int (nat (cf_Mtu c - 5) - 24) = cf_Mtu c - 29" using assms unfolding config_ok_def by linarith
  ultimately show "int (unat (k_mss (reset_kcp c))) = cf_Mtu c - 29"
    unfolding r mtu' by metis
qed

lemma reset_max_bounds:
  assumes "config_ok c"
  shows "0 \<le> reset_max c" and "1 + nat (reset_max c) \<le> 255 * unat (k_mss (reset_kcp c))"
proof -
  let ?n = "min (int (unat (cf_ReceiveWindowSize c))) 255 - 1"
  have mss: "int (unat (k_mss (reset_kcp c))) = cf_Mtu c - 29" by (rule reset_kcp_inv(2)[OF assms])
  have pos: "26 \<le> cf_Mtu c - 29" using assms by (simp add: config_ok_def)
  have "?n \<le> 254" by linarith
  then have "(cf_Mtu c - 29) * ?n \<le> (cf_Mtu c - 29) * 254" using pos by (intro mult_left_mono) simp_all
  then have "1 + reset_max c \<le> 255 * int (unat (k_mss (reset_kcp c)))"
    unfolding mss reset_max_def using pos by (auto simp: max_def)
  moreover show "0 \<le> reset_max c" by (simp add: reset_max_def)
  ultimately show "1 + nat (reset_max c) \<le> 255 * unat (k_mss (reset_kcp c))" by linarith
qed

lemma Reset_inv:
  assumes "config_ok c" and "peer_Reset c p = Some q"
  shows "peer_inv q"
proof -
  have f: "k_output (reset_kcp c) = []" "k_stream (reset_kcp c) = 0"
    by (simp_all add: reset_kcp_def kcp_SetMtu_def kcp_WndSize_def Let_def NoDelay_queues NewKCP_def)
  show ?thesis
    using assms(2) Reset_eq[OF assms(1), of p] reset_kcp_inv(1)[OF assms(1)] reset_max_bounds[OF assms(1)] f
    by (auto simp: peer_inv_def)
qed

text \<open>A new peer, as an end of a session, is a fresh end.\<close>

lemma NewKcpPeer_eq:
  assumes "config_ok c"
  shows "\<exists>p. NewKcpPeer cookie c = Some p \<and> peer_inv p \<and> p_Kcp p = reset_kcp c \<and> p_Cookie p = cookie \<and> p_State p = KcpConnected
     \<and> p_disconnectOnce p = False \<and> p_events p = [] \<and> p_sent p = [] \<and> p_received p = []
     \<and> p_ReliableMax p = reset_max c \<and> p_UnreliableMax p = cf_Mtu c - 6 \<and> p_Timeout p = cf_Timeout c"
proof -
  obtain q where q: "peer_Reset c zero_peer = Some q" using Reset_eq[OF assms] by blast
  have "peer_inv (q\<lparr>p_Cookie := cookie\<rparr>)" using Reset_inv[OF assms q] by (simp add: peer_inv_def)
  then show ?thesis
    using q Reset_eq[OF assms, of zero_peer] by (auto simp: NewKcpPeer_def zero_peer_def)
qed

lemma reset_fresh:
  assumes "config_ok c"
  shows "fresh \<lparr>e_k = (reset_kcp c)\<lparr>k_output := []\<rparr>, e_sent = [], e_got = []\<rparr>"
proof -
  have "k_snd_nxt (reset_kcp c) = 0" "k_rcv_nxt (reset_kcp c) = 0" "snd_queue_list (reset_kcp c) = []"
    "snd_buf_list (reset_kcp c) = []" "rcv_queue_list (reset_kcp c) = []" "rcv_buf_items (reset_kcp c) = {#}"
    "k_stream (reset_kcp c) = 0" "k_acklist (reset_kcp c) = []"
    by (simp_all add: reset_kcp_def kcp_SetMtu_def kcp_WndSize_def Let_def NoDelay_queues NewKCP_def rb_list_New heap_items_New)
  then show ?thesis using reset_kcp_inv(1)[OF assms] by (simp add: fresh_def kcp_inv_def)
qed

section \<open>Two peers\<close>

text \<open>
  One step of a peer whose other end has put the KCP datagrams \<open>net\<close> on the wire: the user sends or
  disconnects, a tick, a datagram of the other end, or any unreliable message. The client learns
  its cookie from the first datagram. The clocks are arbitrary.
\<close>

inductive peer_step :: "bytes set \<Rightarrow> 'a handler \<Rightarrow> 'a KcpPeer_scheme \<Rightarrow> 'a KcpPeer_scheme \<Rightarrow> bool" for net h where
  step_send: "SendData kc pc h data ch p = Some q \<Longrightarrow> peer_step net h p q"
| step_hello: "SendHello kc h p = Some q \<Longrightarrow> peer_step net h p q"
| step_disconnect: "Disconnect h p = Some q \<Longrightarrow> peer_step net h p q"
| step_in: "peer_TickIncoming kc pc h p = Some q \<Longrightarrow> peer_step net h p q"
| step_out: "peer_TickOutgoing kc pc h p = Some q \<Longrightarrow> peer_step net h p q"
| step_reliable: "d \<in> net \<Longrightarrow> OnRawInputReliable kc d p = Some q \<Longrightarrow> peer_step net h p q"
| step_unreliable: "OnRawInputUnreliable pc h m p = Some q \<Longrightarrow> peer_step net h p q"
| step_cookie: "peer_step net h p (p\<lparr>p_Cookie := c\<rparr>)"

inductive peer_session ::
    "'a handler \<Rightarrow> 'b handler \<Rightarrow> 'a KcpPeer_scheme \<times> 'b KcpPeer_scheme \<Rightarrow> 'a KcpPeer_scheme \<times> 'b KcpPeer_scheme \<Rightarrow> bool"
  for ha hb start where
  peer_start: "peer_session ha hb start start"
| peer_left: "peer_session ha hb start (a, b) \<Longrightarrow> peer_step (set (outs (p_events b))) ha a a'
     \<Longrightarrow> peer_session ha hb start (a', b)"
| peer_right: "peer_session ha hb start (a, b) \<Longrightarrow> peer_step (set (outs (p_events a))) hb b b'
     \<Longrightarrow> peer_session ha hb start (a, b')"

text \<open>What holds of a peer at any time.\<close>

definition peer_fine :: "'a KcpPeer_scheme \<Rightarrow> bool" where
  "peer_fine p \<longleftrightarrow> peer_inv p \<and> auth_log p \<and> subseq (delivered (p_events p)) (data_of (p_received p))
     \<and> count_list (p_events p) EvDisconnected = (if p_disconnectOnce p then 1 else 0)
     \<and> (\<forall>d \<in> set (outs (p_events p)). length d \<le> unat (k_mtu (p_Kcp p)))"

lemma peer_fine_run:
  assumes "peer_fine p" and "peer_run p q"
  shows "peer_fine q"
proof -
  obtain evs ms where e: "p_events q = p_events p @ evs" "p_received q = p_received p @ ms" "events_ok evs p q"
      "subseq (delivered evs) (data_of ms)"
    using assms(2) unfolding peer_run_def by blast
  have "subseq (delivered (p_events q)) (data_of (p_received q))"
    using assms(1) e(4) by (simp add: e(1,2) peer_fine_def list_emb_append_mono)
  moreover have "\<forall>d \<in> set (outs (p_events q)). length d \<le> unat (k_mtu (p_Kcp q))"
    using assms e(1,3) by (auto simp: peer_fine_def peer_run_def peer_fixed_def events_ok_def)
  ultimately show ?thesis
    using assms e by (simp add: peer_fine_def peer_run_def events_ok_def split: if_splits)
qed

lemma peer_fine_takes:
  assumes "peer_fine p" and "peer_takes d p q"
  shows "peer_fine q"
proof -
  obtain evs where e: "p_events q = p_events p @ evs" "events_ok evs p q" "delivered evs = []"
    using assms(2) unfolding peer_takes_def by blast
  moreover have "\<forall>d \<in> set (outs (p_events q)). length d \<le> unat (k_mtu (p_Kcp q))"
    using assms e(1,2) by (auto simp: peer_fine_def peer_takes_def peer_fixed_def events_ok_def)
  ultimately show ?thesis
    using assms by (simp add: peer_fine_def peer_takes_def events_ok_def split: if_splits)
qed

text \<open>A step keeps this, grows the log of what was sent, and keeps the KCP session.\<close>

definition step_keeps :: "bytes set \<Rightarrow> 'a KcpPeer_scheme \<Rightarrow> 'a KcpPeer_scheme \<Rightarrow> bool" where
  "step_keeps net p q \<longleftrightarrow> peer_fine q \<and> prefix (p_sent p) (p_sent q) \<and> (p_disconnectOnce p \<longrightarrow> p_disconnectOnce q)
    \<and> k_mtu (p_Kcp q) = k_mtu (p_Kcp p) \<and> k_mss (p_Kcp q) = k_mss (p_Kcp p) \<and> k_conv (p_Kcp q) = k_conv (p_Kcp p)
    \<and> (\<forall>r. session_ok (peer_end p) r \<longrightarrow> length (e_log r) < 2 ^ 32 \<longrightarrow> net \<subseteq> set (k_output (e_k r))
         \<longrightarrow> session_ok (peer_end q) r \<and> (in_sync p r \<longrightarrow> in_sync q r))"

lemma step_keeps_run: "peer_fine p \<Longrightarrow> run_from p (Some q) \<Longrightarrow> step_keeps net p q"
  using peer_fine_run[of p q] peer_run_once[of p q]
  by (simp add: run_from_def step_keeps_def peer_run_def peer_fixed_def keeps_session_def)

lemma step_keeps_takes: "peer_fine p \<Longrightarrow> peer_takes d p q \<Longrightarrow> d \<in> net \<Longrightarrow> step_keeps net p q"
  using peer_fine_takes[of p d q] by (auto simp: step_keeps_def peer_takes_def peer_fixed_def events_ok_once)

lemma peer_step_ok:
  assumes step: "peer_step net h p q" and h: "peer_handler h" and fine: "peer_fine p"
    and net: "\<forall>d \<in> net. length d \<le> unat (k_mtu (p_Kcp p))"
  shows "step_keeps net p q"
proof -
  have inv: "peer_inv p" and auth: "auth_log p" using fine by (simp_all add: peer_fine_def)
  note run = step_keeps_run[OF fine] and ok = step_keeps_run[OF fine run_from_ok]
  show ?thesis
    using step
  proof cases
    case (step_send kc pc data ch)
    then show ?thesis using ok peer_handler.SendData_ok[OF h inv, of kc pc data ch] by simp
  next
    case (step_hello kc)
    then show ?thesis using ok peer_handler.SendHello_ok[OF h inv, of kc] by simp
  next
    case step_disconnect
    then show ?thesis using ok peer_handler.Disconnect_ok[OF h inv] by simp
  next
    case (step_in kc pc)
    then show ?thesis using run peer_handler.TickIncoming_ok[OF h inv auth, of kc pc] by simp
  next
    case (step_out kc pc)
    then show ?thesis using ok peer_handler.TickOutgoing_ok[OF h inv, of kc pc] by simp
  next
    case (step_reliable d kc)
    then obtain q' where "OnRawInputReliable kc d p = Some q'" "peer_takes d p q'"
      using OnRawInputReliable_ok[OF inv] net by blast
    then show ?thesis using step_reliable step_keeps_takes[OF fine] by simp
  next
    case (step_unreliable pc m)
    then show ?thesis using ok peer_handler.OnRawInputUnreliable_ok[OF h inv auth, of pc m] by simp
  next
    case (step_cookie c)
    have "peer_fine (p\<lparr>p_Cookie := c\<rparr>)" "peer_end (p\<lparr>p_Cookie := c\<rparr>) = peer_end p"
      using fine by (simp_all add: peer_fine_def peer_inv_def auth_log_def peer_end_def)
    then show ?thesis by (simp add: step_cookie step_keeps_def in_sync_def calm_def)
  qed
qed

text \<open>What holds of two peers, and between them as long as the session is short.\<close>

definition peers_fine :: "u32 \<Rightarrow> u32 \<Rightarrow> 'a KcpPeer_scheme \<Rightarrow> 'b KcpPeer_scheme \<Rightarrow> bool" where
  "peers_fine mtu mss a b \<longleftrightarrow> peer_fine a \<and> peer_fine b \<and> k_mtu (p_Kcp a) = mtu \<and> k_mtu (p_Kcp b) = mtu
     \<and> k_mss (p_Kcp a) = mss \<and> k_mss (p_Kcp b) = mss \<and> k_conv (p_Kcp a) = k_conv (p_Kcp b)
     \<and> (seg_total (unat mss) (p_sent a) < 2 ^ 32 \<longrightarrow> seg_total (unat mss) (p_sent b) < 2 ^ 32
          \<longrightarrow> session_ok (peer_end a) (peer_end b)
            \<and> (calm a \<longrightarrow> calm b \<longrightarrow> sync (e_k (peer_end a)) (e_k (peer_end b))))"

lemma peers_fine_sym: "peers_fine mtu mss a b \<Longrightarrow> peers_fine mtu mss b a"
  using session_ok_sym sync_sym by (auto simp: peers_fine_def)

lemma peers_fine_net: "peers_fine mtu mss a b \<Longrightarrow> \<forall>d \<in> set (outs (p_events b)). length d \<le> unat (k_mtu (p_Kcp a))"
  unfolding peers_fine_def peer_fine_def by metis

lemma peers_fine_keeps:
  assumes k: "step_keeps (set (outs (p_events b))) a a'" and fine: "peers_fine mtu mss a b"
  shows "peers_fine mtu mss a' b"
proof -
  have "session_ok (peer_end a') (peer_end b) \<and> (calm a' \<longrightarrow> calm b \<longrightarrow> sync (e_k (peer_end a')) (e_k (peer_end b)))"
    if short: "seg_total (unat mss) (p_sent a') < 2 ^ 32" "seg_total (unat mss) (p_sent b) < 2 ^ 32"
  proof -
    have "seg_total (unat mss) (p_sent a) < 2 ^ 32"
      using k short(1) by (auto simp: step_keeps_def prefix_def)
    then have "session_ok (peer_end a) (peer_end b)"
        "calm b \<Longrightarrow> in_sync a (peer_end b)"
      using fine short(2) by (simp_all add: peers_fine_def in_sync_def)
    moreover have "length (e_log (peer_end b)) < 2 ^ 32"
      using short(2) fine by (simp add: e_log_def length_msg_log peer_end_def peers_fine_def)
    moreover have "set (outs (p_events b)) \<subseteq> set (k_output (e_k (peer_end b)))" by (simp add: peer_end_def)
    ultimately have "session_ok (peer_end a') (peer_end b)" "calm b \<Longrightarrow> in_sync a' (peer_end b)"
      using k unfolding step_keeps_def by blast+
    then show ?thesis by (simp add: in_sync_def calm_def)
  qed
  then show ?thesis using fine k by (simp add: peers_fine_def step_keeps_def)
qed

lemma peers_fine_step:
  assumes "peer_step (set (outs (p_events b))) h a a'" and "peer_handler h" and fine: "peers_fine mtu mss a b"
  shows "peers_fine mtu mss a' b"
  using peers_fine_keeps[OF peer_step_ok[OF assms(1,2) _ peers_fine_net[OF fine]] fine] fine
  by (simp add: peers_fine_def)

lemma peer_session_fine:
  assumes "peer_session ha hb (a0, b0) s" and ha: "peer_handler ha" and hb: "peer_handler hb"
    and fine: "peers_fine mtu mss a0 b0"
  shows "peers_fine mtu mss (fst s) (snd s)"
  using assms(1)
proof (induction rule: peer_session.induct)
  case peer_start
  then show ?case using fine by simp
next
  case (peer_left a b a')
  then show ?case using peers_fine_step[OF peer_left(2) ha] by simp
next
  case (peer_right a b b')
  have "peers_fine mtu mss b a" using peer_right(3) peers_fine_sym by simp
  from peers_fine_step[OF peer_right(2) hb this] show ?case using peers_fine_sym by simp
qed

text \<open>Two new peers of the same configuration.\<close>

definition new_peer :: "KcpConfig \<Rightarrow> 'a KcpPeer_scheme \<Rightarrow> bool" where
  "new_peer c p \<longleftrightarrow> peer_inv p \<and> p_Kcp p = reset_kcp c \<and> p_State p = KcpConnected \<and> \<not> p_disconnectOnce p
     \<and> p_events p = [] \<and> p_sent p = [] \<and> p_received p = []"

lemma NewKcpPeer_new: "config_ok c \<Longrightarrow> NewKcpPeer cookie c = Some p \<Longrightarrow> new_peer c p"
  using NewKcpPeer_eq[of c cookie] by (auto simp: new_peer_def)

lemma new_peers_fine:
  assumes "config_ok c" and "new_peer c a" and "new_peer c b"
  shows "peers_fine (k_mtu (reset_kcp c)) (k_mss (reset_kcp c)) a b"
proof -
  let ?e = "\<lparr>e_k = (reset_kcp c)\<lparr>k_output := []\<rparr>, e_sent = [], e_got = []\<rparr>"
  have "peer_end a = ?e" "peer_end b = ?e" using assms(2,3) by (simp_all add: new_peer_def peer_end_def)
  moreover have "session_ok ?e ?e" by (rule fresh_ok[OF reset_fresh[OF assms(1)] reset_fresh[OF assms(1)]]) simp
  moreover have "sync (e_k ?e) (e_k ?e)" by (rule fresh_sync[OF reset_fresh[OF assms(1)] reset_fresh[OF assms(1)]])
  ultimately show ?thesis
    using assms(2,3) by (simp add: peers_fine_def peer_fine_def new_peer_def auth_log_def)
qed

lemma session_ok_delivers: "session_ok a b \<Longrightarrow> prefix (e_got b) (e_sent a) \<and> prefix (e_got a) (e_sent b)"
  by (simp add: session_ok_def delivers_def)

lemma data_of_prefix: "prefix xs ys \<Longrightarrow> prefix (data_of xs) (data_of ys)"
  by (auto simp: prefix_def)

lemma delivered_prefix: "subseq ds (data_of xs) \<Longrightarrow> prefix xs ys \<Longrightarrow> subseq ds (data_of ys)"
  using prefix_imp_subseq[OF data_of_prefix] subseq_order.order_trans by blast

section \<open>When nothing waits to be sent\<close>

definition SendWaiting :: "'a KcpPeer_scheme \<Rightarrow> nat" where
  "SendWaiting p = SendQueueCount p + SendBufferCount p"

lemma peers_drained:
  assumes fine: "peers_fine mtu mss a b"
    and few: "seg_total (unat mss) (p_sent a) < 2 ^ 31" "seg_total (unat mss) (p_sent b) < 2 ^ 31"
    and uncongested: "EvError ErrorCodeCongestion \<notin> set (p_events a)" "EvError ErrorCodeCongestion \<notin> set (p_events b)"
    and empty: "SendWaiting a = 0" "ReceiveQueueCount b = 0"
  shows "p_received b = p_sent a"
proof -
  let ?a = "peer_end a" and ?b = "peer_end b"
  have log: "length (e_log ?a) < 2 ^ 31" "length (e_log ?b) < 2 ^ 31"
    using fine few by (simp_all add: peers_fine_def peer_end_def e_log_def length_msg_log)
  have calm: "calm a" "calm b" using log uncongested by (simp_all add: calm_def)
  then have s: "session_ok ?a ?b" "sync (e_k ?a) (e_k ?b)" using fine few by (simp_all add: peers_fine_def)
  have wait: "kcp_WaitSnd (e_k ?a) = 0"
    using empty(1) by (simp add: SendWaiting_def SendQueueCount_def SendBufferCount_def kcp_WaitSnd_def peer_end_def)
  have rb: "rb_inv (k_rcv_queue (p_Kcp b))" using fine by (auto simp: peers_fine_def peer_fine_def peer_inv_def rcv_inv_def)
  then have "rcv_queue_list (p_Kcp b) = []" using empty(2) by (simp add: ReceiveQueueCount_def rb_Len_list)
  then have "kcp_PeekSize (e_k ?b) < 0" using kcp_PeekSize_correct[of "e_k ?b"] rb by (simp add: peer_end_def)
  from sync_drained[OF s log(1) wait this] show ?thesis by (simp add: peer_end_def)
qed

section \<open>Sending a message\<close>

lemma SendReliable_cases:
  assumes "peer_inv p"
  shows "if int (length content) \<le> p_ReliableMax p
          \<and> kcp_WaitSnd (p_Kcp p) < unat (k_snd_wnd (p_Kcp p)) \<and> kcp_WaitSnd (p_Kcp p) < unat (k_rmt_wnd (p_Kcp p))
    then \<exists>q ds. SendReliable kc h header content p = Some q \<and> p_sent q = p_sent p @ [reliable_byte header # content]
           \<and> p_State q = p_State p \<and> KcpPeer.more q = KcpPeer.more p
           \<and> p_events q = p_events p @ map (\<lambda>d. EvRawSend (raw_reliable (p_Cookie p) d)) ds
    else \<exists>buf. SendReliable kc h header content p
           = h (EvError ErrorCodeInvalidSend)
               (p\<lparr>p_kcpSendBuffer := buf, p_events := p_events p @ [EvError ErrorCodeInvalidSend]\<rparr>)"
proof (cases "int (length content) \<le> p_ReliableMax p")
  case False
  then have "1 + length content > length (p_kcpSendBuffer p)" using assms by (auto simp: peer_inv_def)
  then show ?thesis
    using False by (auto simp: SendReliable_def fire_def intro!: exI[of _ "p_kcpSendBuffer p"])
next
  case True
  let ?m = "reliable_byte header # content"
  have len: "length ?m \<le> 1 + nat (p_ReliableMax p)" using True by simp
  then obtain k where k: "kcp_Send ?m (p_Kcp p) = Some (0, k)"
      "peer_ok p (p\<lparr>p_Kcp := k, p_sent := p_sent p @ [?m]\<rparr>)"
    using peer_kcp_Send[OF assms, of ?m] by auto
  have "kcp_inv k" using peer_does_inv[OF k(2)] by (simp add: peer_inv_def)
  then obtain t k' where k': "kcp_flush kc False k = Some (t, k')" using kcp_flush_sends[of k kc False] by blast
  have "1 + length content \<le> length (p_kcpSendBuffer p)" using len assms by (simp add: peer_inv_def)
  note eq = SendReliable_eq[OF this, of kc h header]
  show ?thesis
    using True k(1) k' unfolding eq by (auto simp: kcp_output_def fire_def intro: exI[of _ "[]"])
qed

end
