(* ===== verification/Peer_Examples.thy ===== *)
theory Peer_Examples
  imports Peer_Session
begin

text \<open>
  A handler that does nothing in return, and two peers of a small configuration that shake hands
  in one direction and pass one message; evaluated, for the witnesses of the properties.
\<close>

definition quiet :: "'a handler" where
  "quiet ev p = Some p"

interpretation quiet: peer_handler quiet
  by unfold_locales (simp add: quiet_def ok_from_refl)

lemma quiet_handler: "peer_handler quiet"
  by unfold_locales

definition demo_config :: KcpConfig where
  "demo_config = NewKcpConfig [WithMtu 60, WithSendWindowSize 2, WithReceiveWindowSize 2]"

lemma demo_config_ok: "config_ok demo_config"
  by (simp add: config_ok_def demo_config_def NewKcpConfig_def DefaultKcpConfig_def WithMtu_def
      WithSendWindowSize_def WithReceiveWindowSize_def)

definition demo_peer :: KcpPeer where
  "demo_peer = the (NewKcpPeer 7 demo_config)"

lemma demo_peer: "NewKcpPeer 7 demo_config = Some demo_peer"
  using NewKcpPeer_eq[OF demo_config_ok, of 7] by (auto simp: demo_peer_def)

lemma demo_peer_new: "new_peer demo_config demo_peer"
  by (rule NewKcpPeer_new[OF demo_config_ok demo_peer])

lemma demo_peer_fine: "peer_fine demo_peer"
  using new_peers_fine[OF demo_config_ok demo_peer_new demo_peer_new] by (simp add: peers_fine_def)

lemma demo_peer_inv: "peer_inv demo_peer"
  using demo_peer_fine by (simp add: peer_fine_def)

abbreviation (input) demo_clock :: clock where
  "demo_clock \<equiv> \<lambda>_. 100"

text \<open>The sender says hello and sends a message; the receiver takes both datagrams, one in each tick.\<close>

definition demo_sender :: "KcpPeer option" where
  "demo_sender = do {
     a \<leftarrow> SendHello demo_clock quiet demo_peer;
     a \<leftarrow> peer_TickOutgoing demo_clock demo_clock quiet a;
     a \<leftarrow> SendData demo_clock demo_clock quiet [1, 2, 3] KcpReliable a;
     peer_TickOutgoing demo_clock demo_clock quiet a
   }"

definition demo_receiver :: "bytes list \<Rightarrow> KcpPeer option" where
  "demo_receiver ds = do {
     b \<leftarrow> OnRawInputReliable demo_clock (ds ! 0) demo_peer;
     b \<leftarrow> peer_TickIncoming demo_clock demo_clock quiet b;
     b \<leftarrow> OnRawInputReliable demo_clock (ds ! 1) b;
     peer_TickIncoming demo_clock demo_clock quiet b
   }"

definition demo_datagrams :: "bytes list" where
  "demo_datagrams = (case demo_sender of Some a \<Rightarrow> outs (p_events a) | None \<Rightarrow> [])"

lemma demo_sender: "map_option (\<lambda>a. (p_sent a, p_received a, length (outs (p_events a)))) demo_sender
    = Some ([[1], [3, 1, 2, 3]], [], 2)"
  by code_simp

lemma demo_receiver: "map_option (\<lambda>b. (p_sent b, p_received b, delivered (p_events b), p_State b = KcpAuthenticated))
    (demo_receiver demo_datagrams) = Some ([], [[1], [3, 1, 2, 3]], [[1, 2, 3]], True)"
  by code_simp

lemma demo_session_runs:
  "\<exists>a b. peer_session quiet quiet (demo_peer, demo_peer) (a, b) \<and> p_sent a = [[1], [3, 1, 2, 3]] \<and> p_sent b = []
     \<and> p_received b = [[1], [3, 1, 2, 3]] \<and> delivered (p_events b) = [[1, 2, 3]] \<and> p_State b = KcpAuthenticated"
proof -
  obtain a1 a2 a3 a where a: "SendHello demo_clock quiet demo_peer = Some a1"
      "peer_TickOutgoing demo_clock demo_clock quiet a1 = Some a2"
      "SendData demo_clock demo_clock quiet [1, 2, 3] KcpReliable a2 = Some a3"
      "peer_TickOutgoing demo_clock demo_clock quiet a3 = Some a" "demo_sender = Some a"
    and sent: "p_sent a = [[1], [3, 1, 2, 3]]" "length (outs (p_events a)) = 2"
    using demo_sender by (auto simp: demo_sender_def bind_eq_Some_conv)
  have ds: "demo_datagrams = outs (p_events a)" unfolding demo_datagrams_def a(5) option.case by (rule refl)
  obtain b1 b2 b3 b where b: "OnRawInputReliable demo_clock (outs (p_events a) ! 0) demo_peer = Some b1"
      "peer_TickIncoming demo_clock demo_clock quiet b1 = Some b2"
      "OnRawInputReliable demo_clock (outs (p_events a) ! 1) b2 = Some b3"
      "peer_TickIncoming demo_clock demo_clock quiet b3 = Some b"
    and got: "p_sent b = []" "p_received b = [[1], [3, 1, 2, 3]]" "delivered (p_events b) = [[1, 2, 3]]"
      "p_State b = KcpAuthenticated"
    using demo_receiver unfolding ds by (auto simp: demo_receiver_def bind_eq_Some_conv)
  have net: "outs (p_events a) ! i \<in> set (outs (p_events a))" if "i < 2" for i using sent(2) that by simp
  let ?N = "set (outs (p_events demo_peer))"
  have "peer_session quiet quiet (demo_peer, demo_peer) (a, demo_peer)"
    by (rule peer_left[OF peer_left[OF peer_left[OF peer_left[OF peer_start step_hello[OF a(1)]]
          step_out[OF a(2)]] step_send[OF a(3)]] step_out[OF a(4)]])
  then have "peer_session quiet quiet (demo_peer, demo_peer) (a, b)"
    using peer_right[OF peer_right[OF peer_right[OF peer_right[OF _ step_reliable[OF net[of 0] b(1)]]
          step_in[OF b(2)]] step_reliable[OF net[of 1] b(3)]] step_in[OF b(4)]] by simp
  then show ?thesis using sent(1) got by blast
qed

lemma demo_short: "seg_total (unat (k_mss (reset_kcp demo_config))) [[1], [3, 1, 2, 3]] < 2 ^ 32"
  "seg_total (unat (k_mss (reset_kcp demo_config))) [] < 2 ^ 32"
proof -
  have "unat (k_mss (reset_kcp demo_config)) = 31" "frag_count 31 [1 :: byte] = 1" "frag_count 31 [3, 1, 2, 3 :: byte] = 1"
    by code_simp+
  then show "seg_total (unat (k_mss (reset_kcp demo_config))) [[1], [3, 1, 2, 3]] < 2 ^ 32"
    "seg_total (unat (k_mss (reset_kcp demo_config))) [] < 2 ^ 32"
    by (simp_all add: seg_total_def)
qed

text \<open>A hello that is read 20 seconds after the peer started.\<close>

definition demo_hello :: bytes where
  "demo_hello = [0, 0, 0, 0, 81, 0, 2, 0, 100, 0, 0, 0, 0, 0, 0, 0, 0, 0, 0, 0, 1, 0, 0, 0, 1]"

lemma demo_zombie:
  "map_option (\<lambda>(p, q). ((p_State p, p_disconnectOnce p, p_lastReceiveTime p, p_Timeout p, p_received p), (p_received q, p_State q)))
      (do { p \<leftarrow> OnRawInputReliable demo_clock demo_hello demo_peer;
            q \<leftarrow> peer_TickIncoming demo_clock (\<lambda>_. 20000) quiet p; Some (p, q) })
    = Some ((KcpConnected, False, 0, 10000, []), ([[1]], KcpAuthenticated))"
  by code_simp

end
