(* ===== verification/Peer_Properties.thy ===== *)
theory Peer_Properties
  imports Peer_Examples
begin

text \<open>
  The properties of a peer (\<open>peer.go\<close>, \<open>config.go\<close>): what two peers promise each other, that no
  operation panics, the configuration, and what sending, disconnecting and pinging do.
\<close>

section \<open>Sessions\<close>

text \<open>
  C3: the reliable channel between two peers of one configuration, with any handlers that keep the
  contract, over a network that loses, repeats, delays and reorders their datagrams of that channel
  (the KCP datagrams a peer takes in are ones the other has put on the wire): the messages one takes
  from KCP are a prefix of the messages the other handed to it, and the data delivered to its handler
  as reliable are, in order and at most once each, data the other one sent with \<open>SendReliable\<close>, as
  long as neither sends 2 to the 32 segments. Unreliable messages, which anybody may put on the wire
  at any time, do not change this, and nothing is promised of the data they carry.
\<close>

theorem peers_deliver:
  assumes "config_ok c" and "new_peer c a0" and "new_peer c b0" and "peer_handler ha" and "peer_handler hb"
    and "peer_session ha hb (a0, b0) (a, b)"
    and "seg_total (unat (k_mss (reset_kcp c))) (p_sent a) < 2 ^ 32"
    and "seg_total (unat (k_mss (reset_kcp c))) (p_sent b) < 2 ^ 32"
  shows "prefix (p_received b) (p_sent a) \<and> subseq (delivered (p_events b)) (data_of (p_sent a))
    \<and> prefix (p_received a) (p_sent b) \<and> subseq (delivered (p_events a)) (data_of (p_sent b))"
proof -
  have fine: "peers_fine (k_mtu (reset_kcp c)) (k_mss (reset_kcp c)) a b"
    using peer_session_fine[OF assms(6,4,5) new_peers_fine[OF assms(1-3)]] by simp
  then have "session_ok (peer_end a) (peer_end b)" using assms(7,8) by (simp add: peers_fine_def)
  then have p: "prefix (p_received b) (p_sent a)" "prefix (p_received a) (p_sent b)"
    using session_ok_delivers[of "peer_end a" "peer_end b"] by (simp_all add: peer_end_def)
  have "subseq (delivered (p_events a)) (data_of (p_received a))" "subseq (delivered (p_events b)) (data_of (p_received b))"
    using fine by (simp_all add: peers_fine_def peer_fine_def)
  then show ?thesis
    using p delivered_prefix by blast
qed

theorem peers_deliver_witness:
  "\<exists>a b. peer_session quiet quiet (demo_peer, demo_peer) (a, b) \<and> delivered (p_events b) = [[1, 2, 3]]
    \<and> subseq (delivered (p_events b)) (data_of (p_sent a))"
proof -
  obtain a b where s: "peer_session quiet quiet (demo_peer, demo_peer) (a, b)" "p_sent a = [[1], [3, 1, 2, 3]]"
      "p_sent b = []" "delivered (p_events b) = [[1, 2, 3]]" using demo_session_runs by blast
  have "seg_total (unat (k_mss (reset_kcp demo_config))) (p_sent a) < 2 ^ 32"
    "seg_total (unat (k_mss (reset_kcp demo_config))) (p_sent b) < 2 ^ 32"
    unfolding s(2,3) by (fact demo_short)+
  from peers_deliver[OF demo_config_ok demo_peer_new demo_peer_new quiet_handler quiet_handler s(1) this]
  show ?thesis using s(1,4) by blast
qed

text \<open>
  C24: whatever happens in a session, a peer's handler hears of a disconnect at most once, of no
  data before it was told that the session is authenticated, and no datagram of KCP is longer
  than the MTU the peer configured.
\<close>

theorem peer_events_sound:
  assumes "config_ok c" and "new_peer c a0" and "new_peer c b0" and "peer_handler ha" and "peer_handler hb"
    and "peer_session ha hb (a0, b0) (a, b)"
  shows "count_list (p_events a) EvDisconnected \<le> 1
    \<and> (\<forall>e \<in> set (takeWhile (\<lambda>e. e \<noteq> EvAuthenticated) (p_events a)). \<not> is_data e)
    \<and> (\<forall>d \<in> set (outs (p_events a)). length d \<le> nat (cf_Mtu c - 5))"
proof -
  have fine: "peers_fine (k_mtu (reset_kcp c)) (k_mss (reset_kcp c)) a b"
    using peer_session_fine[OF assms(6,4,5) new_peers_fine[OF assms(1-3)]] by simp
  then have "peer_fine a" "k_mtu (p_Kcp a) = k_mtu (reset_kcp c)" by (simp_all add: peers_fine_def)
  moreover have "unat (k_mtu (reset_kcp c)) = nat (cf_Mtu c - 5)"
    using reset_kcp_inv(3)[OF assms(1)] by linarith
  ultimately show ?thesis by (auto simp: peer_fine_def auth_log_def)
qed

theorem peer_events_sound_witness:
  "\<exists>a b. peer_session quiet quiet (demo_peer, demo_peer) (a, b) \<and> p_received b = [[1], [3, 1, 2, 3]]
    \<and> count_list (p_events a) EvDisconnected \<le> 1 \<and> (\<forall>d \<in> set (outs (p_events a)). length d \<le> 55)"
proof -
  obtain a b where s: "peer_session quiet quiet (demo_peer, demo_peer) (a, b)" "p_received b = [[1], [3, 1, 2, 3]]"
    using demo_session_runs by blast
  have "nat (cf_Mtu demo_config - 5) = 55" by code_simp
  then show ?thesis
    using peer_events_sound[OF demo_config_ok demo_peer_new demo_peer_new quiet_handler quiet_handler s(1)] s by auto
qed

text \<open>
  C23: no operation of a peer panics, and each keeps the invariants, whatever datagrams arrive
  (those of the reliable channel with at most one MTU of KCP, as the receive buffers provide) and
  whatever the handler does within its contract; the receive loop of a tick ends.
\<close>

theorem peer_never_panics:
  assumes "peer_fine p" and "peer_handler h"
  shows "(\<exists>q. peer_TickIncoming kc pc h p = Some q \<and> peer_fine q)
    \<and> (\<exists>q. peer_TickOutgoing kc pc h p = Some q \<and> peer_fine q)
    \<and> (\<exists>q. SendData kc pc h data channel p = Some q \<and> peer_fine q)
    \<and> (\<exists>q. Disconnect h p = Some q \<and> peer_fine q)
    \<and> (\<exists>q. OnRawInputUnreliable pc h message p = Some q \<and> peer_fine q)
    \<and> (length message \<le> unat (k_mtu (p_Kcp p)) \<longrightarrow> (\<exists>q. OnRawInputReliable kc message p = Some q \<and> peer_fine q))"
proof -
  have inv: "peer_inv p" and auth: "auth_log p" using assms(1) by (simp_all add: peer_fine_def)
  have run: "run_from p m \<Longrightarrow> \<exists>q. m = Some q \<and> peer_fine q" for m
    using peer_fine_run[OF assms(1)] by (auto simp: run_from_def)
  have ok: "ok_from p m \<Longrightarrow> \<exists>q. m = Some q \<and> peer_fine q" for m using run run_from_ok by blast
  have "length message \<le> unat (k_mtu (p_Kcp p)) \<Longrightarrow> \<exists>q. OnRawInputReliable kc message p = Some q \<and> peer_fine q"
    using OnRawInputReliable_ok[OF inv] peer_fine_takes[OF assms(1)] by blast
  then show ?thesis
    using run[OF peer_handler.TickIncoming_ok[OF assms(2) inv auth]] ok[OF peer_handler.TickOutgoing_ok[OF assms(2) inv]]
      ok[OF peer_handler.SendData_ok[OF assms(2) inv]] ok[OF peer_handler.Disconnect_ok[OF assms(2) inv]]
      ok[OF peer_handler.OnRawInputUnreliable_ok[OF assms(2) inv auth]] by blast
qed

theorem peer_never_panics_witness:
  "\<exists>q. OnRawInputReliable demo_clock (replicate 24 81) demo_peer = Some q \<and> peer_fine q"
proof -
  have "length (replicate 24 (81 :: byte)) \<le> unat (k_mtu (p_Kcp demo_peer))" by code_simp
  then show ?thesis using peer_never_panics[OF demo_peer_fine quiet_handler] by blast
qed

section \<open>Configuration and sending\<close>

text \<open>
  A new peer is set up from its configuration: messages of up to \<open>ReliableMax\<close> bytes, which
  take at most the receive window less one segment of the KCP connection; that connection's MTU
  leaves room for the channel and the cookie.
\<close>

theorem new_peer_configured:
  assumes "config_ok c"
  shows "\<exists>p. NewKcpPeer cookie c = Some p \<and> peer_fine p \<and> p_Cookie p = cookie \<and> p_State p = KcpConnected
    \<and> p_ReliableMax p = max 0 ((cf_Mtu c - 29) * (min (int (unat (cf_ReceiveWindowSize c))) 255 - 1) - 1)
    \<and> p_UnreliableMax p = cf_Mtu c - 6 \<and> int (unat (k_mtu (p_Kcp p))) = cf_Mtu c - METADATA_SIZE_RELIABLE
    \<and> (\<forall>msg. 0 < length msg \<and> length msg \<le> 1 + nat (p_ReliableMax p) \<longrightarrow> (\<exists>k. kcp_Send msg (p_Kcp p) = Some (0, k)))"
proof -
  obtain p where p: "NewKcpPeer cookie c = Some p" "peer_inv p" "p_Kcp p = reset_kcp c" "p_Cookie p = cookie"
      "p_State p = KcpConnected" "\<not> p_disconnectOnce p" "p_events p = []" "p_received p = []"
      "p_ReliableMax p = reset_max c" "p_UnreliableMax p = cf_Mtu c - 6"
    using NewKcpPeer_eq[OF assms, of cookie] by blast
  have "\<exists>k. kcp_Send msg (p_Kcp p) = Some (0, k)" if "0 < length msg" "length msg \<le> 1 + nat (p_ReliableMax p)" for msg
    using peer_kcp_Send[OF p(2) that] by blast
  moreover have "peer_fine p" using p by (simp add: peer_fine_def auth_log_def)
  ultimately show ?thesis
    using p reset_kcp_inv(3)[OF assms] by (intro exI[of _ p]) (simp add: reset_max_def)
qed

theorem new_peer_configured_witness:
  "\<exists>p. NewKcpPeer 7 demo_config = Some p \<and> p_UnreliableMax p = 54 \<and> p_ReliableMax p = 30"
proof -
  have "unat (2 :: 64 word) = 2" by simp
  moreover have "cf_Mtu demo_config = 60" "cf_ReceiveWindowSize demo_config = 2" by code_simp+
  ultimately show ?thesis using new_peer_configured[OF demo_config_ok, of 7] by auto
qed

text \<open>
  C21: \<open>SendReliable\<close> hands the header and the content to KCP as one message when the content has
  at most \<open>ReliableMax\<close> bytes and the windows have room, and reports an invalid send otherwise,
  without sending anything.
\<close>

theorem send_reliable:
  assumes "peer_inv p"
  shows "if int (length content) \<le> p_ReliableMax p
          \<and> kcp_WaitSnd (p_Kcp p) < unat (k_snd_wnd (p_Kcp p)) \<and> kcp_WaitSnd (p_Kcp p) < unat (k_rmt_wnd (p_Kcp p))
    then \<exists>q ds. SendReliable kc h header content p = Some q \<and> p_sent q = p_sent p @ [reliable_byte header # content]
           \<and> p_events q = p_events p @ map (\<lambda>d. EvRawSend (raw_reliable (p_Cookie p) d)) ds
    else \<exists>buf. SendReliable kc h header content p
           = h (EvError ErrorCodeInvalidSend)
               (p\<lparr>p_kcpSendBuffer := buf, p_events := p_events p @ [EvError ErrorCodeInvalidSend]\<rparr>)"
  using SendReliable_cases[OF assms, of content kc h header] by (auto split: if_splits)

theorem send_reliable_witness:
  "\<exists>q. SendReliable demo_clock quiet KcpHeaderData [1, 2, 3] demo_peer = Some q \<and> p_sent q = [[3, 1, 2, 3]]"
proof -
  have "int (length [1, 2, 3 :: byte]) \<le> p_ReliableMax demo_peer
      \<and> kcp_WaitSnd (p_Kcp demo_peer) < unat (k_snd_wnd (p_Kcp demo_peer))
      \<and> kcp_WaitSnd (p_Kcp demo_peer) < unat (k_rmt_wnd (p_Kcp demo_peer))" by code_simp
  then show ?thesis
    using send_reliable[OF demo_peer_inv, of "[1, 2, 3]" demo_clock quiet KcpHeaderData] demo_peer_new
    by (auto simp: new_peer_def)
qed

section \<open>Disconnecting\<close>

text \<open>
  C22: the first \<open>Disconnect\<close> puts exactly five unreliable goodbyes on the wire and then calls the
  handler, in the disconnected state; every later one does nothing.
\<close>

theorem disconnect_says_goodbye:
  assumes "peer_inv p" and "peer_handler h" and "\<not> p_disconnectOnce p" and "0 \<le> p_UnreliableMax p"
  shows "Disconnect h p = h EvDisconnected (p\<lparr>p_disconnectOnce := True, p_State := KcpDisconnected,
       p_events := p_events p @ replicate 5 (EvRawSend (goodbye (p_Cookie p))) @ [EvDisconnected]\<rparr>)
    \<and> (\<exists>q. Disconnect h p = Some q \<and> peer_inv q \<and> p_disconnectOnce q \<and> Disconnect h q = Some q)"
proof -
  obtain q where q: "Disconnect h p = Some q" "peer_ok p q"
    using peer_handler.Disconnect_ok[OF assms(2,1)] by (auto simp: ok_from_def)
  have "Disconnect h p = h EvDisconnected (p\<lparr>p_disconnectOnce := True, p_State := KcpDisconnected,
       p_events := p_events p @ replicate 5 (EvRawSend (goodbye (p_Cookie p))) @ [EvDisconnected]\<rparr>)"
    using assms(3,4) by (simp add: Disconnect_def fire_def Let_def SendDisconnect_eq)
  moreover have "p_disconnectOnce q" by (rule peer_handler.Disconnect_once[OF assms(2,1) q(1)])
  ultimately show ?thesis using q peer_does_inv[OF q(2)] by (auto simp: Disconnect_def)
qed

theorem disconnect_says_goodbye_witness:
  "\<exists>q. Disconnect quiet demo_peer = Some q
    \<and> p_events q = replicate 5 (EvRawSend (goodbye (p_Cookie demo_peer))) @ [EvDisconnected] \<and> Disconnect quiet q = Some q"
proof -
  have "0 \<le> p_UnreliableMax demo_peer" by code_simp
  then show ?thesis
    using disconnect_says_goodbye[OF demo_peer_inv quiet_handler] demo_peer_new by (auto simp: new_peer_def quiet_def)
qed

text \<open>
  \<open>Reset\<close> brings a disconnected peer back to the connected state but not its
  \<open>disconnectOnce\<close>: from then on \<open>Disconnect\<close> does nothing, neither a goodbye nor a call of the
  handler, and the peer stays connected.
\<close>

theorem reset_keeps_once:
  assumes "config_ok c" and "p_disconnectOnce p"
  shows "\<exists>q. peer_Reset c p = Some q \<and> p_State q = KcpConnected \<and> Disconnect h q = Some q"
  using Reset_eq[OF assms(1), of p] assms(2) by (simp add: Disconnect_def)

theorem reset_keeps_once_witness:
  "\<exists>p q. Disconnect quiet demo_peer = Some p \<and> peer_Reset demo_config p = Some q \<and> Disconnect quiet q = Some q"
proof -
  obtain p where p: "Disconnect quiet demo_peer = Some p" "p_disconnectOnce p"
    using demo_peer_new by (auto simp: Disconnect_def fire_def quiet_def new_peer_def Let_def SendDisconnect_def numeral_eq_Suc SendUnreliable_eq)
  then show ?thesis using reset_keeps_once[OF demo_config_ok p(2), of quiet] by blast
qed

text \<open>
  C29: the first tick of a peer after its timeout, when the other end's hello is the message it
  reads: the peer disconnects, and then enters the authenticated state and tells its handler so. With
  that its one disconnect is used up: whatever happens to the peer afterwards (any operations, any
  datagrams of at most one MTU, any clocks), \<open>Disconnect\<close> does nothing, so there is neither a goodbye
  nor another call of \<open>OnDisconnected\<close>.
\<close>

theorem zombie_peer:
  assumes "peer_fine p" and "peer_handler h" and "p_State p = KcpConnected" and "\<not> p_disconnectOnce p"
    and "pc (p_reads p) \<ge> p_lastReceiveTime p + word_of_int (p_Timeout p)"
    and "peer_TickIncoming kc pc h p = Some q" and "p_received q = p_received p @ [reliable_byte KcpHeaderHello # m]"
  shows "(\<exists>s. count_list (p_events p) EvDisconnected = 0 \<and> count_list (p_events s) EvDisconnected = 1
        \<and> p_State s = KcpAuthenticated \<and> h EvAuthenticated s = Some q)
    \<and> (\<forall>net r. (\<forall>d \<in> net. length d \<le> unat (k_mtu (p_Kcp q))) \<longrightarrow> (peer_step net h)\<^sup>*\<^sup>* q r
        \<longrightarrow> Disconnect h r = Some r \<and> count_list (p_events r) EvDisconnected = 1)"
proof -
  let ?p = "p\<lparr>p_reads := p_reads p + 1\<rparr>"
  have inv0: "peer_inv p" using assms(1) by (simp add: peer_fine_def)
  then have inv: "peer_inv ?p" "peer_run p ?p"
    using peer_ok_run[OF peer_ok_update(2)[OF inv0]] by (simp_all add: peer_inv_def)
  have "TickIncoming_Connected kc pc h (pc (p_reads p)) ?p = Some q"
    using assms(3,6) by (simp add: peer_TickIncoming_def peer_Time_def)
  from peer_handler.timed_out_hello[OF assms(2) inv(1) this] obtain s where s: "peer_run ?p s" "p_disconnectOnce s"
      "p_State s = KcpAuthenticated" "h EvAuthenticated s = Some q"
    using assms(5,7) by auto
  have fine: "peer_fine s" by (rule peer_fine_run[OF peer_fine_run[OF assms(1) inv(2)] s(1)])
  have q: "peer_ok s q"
    using peer_handler.handler_ok[OF assms(2), of s EvAuthenticated] fine s(4) by (auto simp: ok_from_def peer_fine_def)
  have step: "peer_fine r \<and> p_disconnectOnce r \<and> k_mtu (p_Kcp r) = k_mtu (p_Kcp q)"
    if "(peer_step net h)\<^sup>*\<^sup>* q r" "\<forall>d \<in> net. length d \<le> unat (k_mtu (p_Kcp q))" for net r
    using that(1)
  proof (induction rule: rtranclp_induct)
    case base
    show ?case using peer_fine_run[OF fine peer_ok_run[OF q]] peer_does_once[OF q s(2)] by simp
  next
    case (step r r')
    then have "step_keeps net r r'" using peer_step_ok[OF step(2) assms(2)] that(2) by simp
    then show ?case using step(3) by (simp add: step_keeps_def)
  qed
  have later: "Disconnect h r = Some r \<and> count_list (p_events r) EvDisconnected = 1"
    if "\<forall>d \<in> net. length d \<le> unat (k_mtu (p_Kcp q))" "(peer_step net h)\<^sup>*\<^sup>* q r" for net r
    using step[OF that(2,1)] by (simp add: peer_fine_def Disconnect_def)
  have "count_list (p_events p) EvDisconnected = 0" "count_list (p_events s) EvDisconnected = 1"
    using assms(1,4) fine s(2) by (simp_all add: peer_fine_def)
  then show ?thesis using s(3,4) later by blast
qed

theorem zombie_peer_witness:
  "\<exists>p q. OnRawInputReliable demo_clock demo_hello demo_peer = Some p
    \<and> peer_TickIncoming demo_clock (\<lambda>_. 20000) quiet p = Some q \<and> p_State q = KcpAuthenticated
    \<and> count_list (p_events p) EvDisconnected = 0 \<and> count_list (p_events q) EvDisconnected = 1 \<and> Disconnect quiet q = Some q"
proof -
  obtain p q where p: "OnRawInputReliable demo_clock demo_hello demo_peer = Some p"
      "peer_TickIncoming demo_clock (\<lambda>_. 20000) quiet p = Some q"
    and f: "p_State p = KcpConnected" "\<not> p_disconnectOnce p" "p_lastReceiveTime p = 0" "p_Timeout p = 10000"
      "p_received p = []" "p_received q = [[1]]" "p_State q = KcpAuthenticated"
    using demo_zombie by (auto simp: bind_eq_Some_conv)
  have "length demo_hello \<le> unat (k_mtu (p_Kcp demo_peer))" by code_simp
  then have fine: "peer_fine p"
    using OnRawInputReliable_ok[OF demo_peer_inv, of demo_hello demo_clock] p(1) peer_fine_takes[OF demo_peer_fine] by auto
  have "Disconnect quiet q = Some q \<and> count_list (p_events q) EvDisconnected = 1" "count_list (p_events p) EvDisconnected = 0"
    using zombie_peer[OF fine quiet_handler f(1,2) _ p(2), of "[]"] f by auto
  then show ?thesis using p f(7) by blast
qed

section \<open>Pings\<close>

text \<open>
  The timeout checks and the pings of successive ticks of a peer to which nothing is sent, one
  reading of its clock per tick and two more per ping.
\<close>

fun silent_ticks :: "nat \<Rightarrow> clock \<Rightarrow> clock \<Rightarrow> 'a KcpPeer_scheme \<Rightarrow> 'a KcpPeer_scheme option" where
  "silent_ticks 0 kc pc p = Some p"
| "silent_ticks (Suc n) kc pc p = (let (time, p) = peer_Time pc p in
     do { p \<leftarrow> HandleTimeout quiet time p; p \<leftarrow> HandlePing kc pc quiet time p; silent_ticks n kc pc p })"

text \<open>What a peer keeps that only sends.\<close>

definition only_sent :: "'a KcpPeer_scheme \<Rightarrow> 'a KcpPeer_scheme \<Rightarrow> bool" where
  "only_sent p q \<longleftrightarrow> peer_inv q \<and> p_State q = p_State p \<and> p_disconnectOnce q = p_disconnectOnce p
     \<and> p_received q = p_received p \<and> p_Timeout q = p_Timeout p
     \<and> (EvError ErrorCodeTimeout \<in> set (p_events q) \<longrightarrow> EvError ErrorCodeTimeout \<in> set (p_events p))"

lemma only_sent_trans: "only_sent p q \<Longrightarrow> only_sent q r \<Longrightarrow> only_sent p r"
  by (simp add: only_sent_def)

lemma SendReliable_only_sent:
  assumes "peer_inv p"
  shows "\<exists>q. SendReliable kc quiet header m p = Some q \<and> only_sent p q \<and> p_lastReceiveTime q = p_lastReceiveTime p
    \<and> p_LastPingTime q = p_LastPingTime p \<and> p_reads q = p_reads p"
proof -
  obtain q where q: "SendReliable kc quiet header m p = Some q" "peer_ok p q"
    using quiet.SendReliable_ok[OF assms, of kc header m] by (auto simp: ok_from_def)
  show ?thesis
  proof (cases "1 + length m \<le> length (p_kcpSendBuffer p)")
    case False
    then show ?thesis using assms by (simp add: SendReliable_def fire_def quiet_def only_sent_def peer_inv_def)
  next
    case True
    note eq = SendReliable_eq[OF True, of kc quiet header]
    show ?thesis
      using q peer_does_inv[OF q(2)] unfolding eq
      by (auto simp: fire_def quiet_def kcp_output_def only_sent_def split: option.splits if_splits)
  qed
qed

lemma HandlePing_only_sent:
  fixes pc :: clock
  assumes "peer_inv p"
  shows "\<exists>q. HandlePing kc pc quiet time p = Some q \<and> only_sent p q
    \<and> (if time \<ge> p_LastPingTime p + PING_INTERVAL
       then p_LastPingTime q = time \<and> p_lastReceiveTime q = pc (p_reads p + 1) \<and> p_reads q = p_reads p + 2
       else q = p)"
proof (cases "time \<ge> p_LastPingTime p + PING_INTERVAL")
  case False
  then show ?thesis using assms by (simp add: HandlePing_def only_sent_def)
next
  case True
  let ?p = "p\<lparr>p_reads := p_reads p + 2, p_lastReceiveTime := pc (p_reads p + 1)\<rparr>"
  let ?m = "Encode32U (replicate 4 0) 0 (pc (p_reads p))"
  have "peer_inv ?p" using assms by (simp add: peer_inv_def)
  from SendReliable_only_sent[OF this, of kc KcpHeaderPing ?m] obtain q where
    q: "SendReliable kc quiet KcpHeaderPing ?m ?p = Some q" "only_sent ?p q" "p_lastReceiveTime q = pc (p_reads p + 1)"
      "p_reads q = p_reads p + 2" by auto
  have "HandlePing kc pc quiet time p = Some (q\<lparr>p_LastPingTime := time\<rparr>)"
    using True q(1) by (simp add: HandlePing_def SendPing_def peer_Time_def)
  moreover have "only_sent p (q\<lparr>p_LastPingTime := time\<rparr>)" using q(2) by (simp add: only_sent_def peer_inv_def)
  ultimately show ?thesis using True q(3,4) by simp
qed

lemma word_add_le:
  fixes t w :: u32
  assumes "unat w + m < 2 ^ 32"
  shows "w + of_nat m \<le> t \<longleftrightarrow> unat w + m \<le> unat t"
proof -
  have "unat (w + of_nat m) = unat w + m" using assms by (simp add: unat_word_ariths unat_of_nat)
  then show ?thesis by (simp add: word_le_nat_alt)
qed

text \<open>
  C36: the timeout counts from the last message sent or received, and pings count. A peer that
  receives nothing and ticks often enough is never found timed out: if each reading of its clock is
  at most \<open>g\<close> milliseconds after the one before and the timeout is at least 1000 milliseconds, the
  interval of the pings, and \<open>3 * g\<close>, then after any number of timeout checks and pings of successive
  ticks the peer is in the state it was in, has not disconnected and has reported no timeout. (The
  clock does not pass its 32 bits, and at the start the last ping is not older than that plus the
  gap. The check for a dead link is another matter and can disconnect the peer.)
\<close>

theorem ping_hides_timeout:
  fixes pc :: clock
  assumes "peer_inv p" and "1000 + 3 * int g \<le> p_Timeout p"
    and "\<forall>i < p_reads p + 3 * n. unat (pc i) \<le> unat (pc (Suc i)) \<and> unat (pc (Suc i)) \<le> unat (pc i) + g"
    and "\<forall>i \<le> p_reads p + 3 * n. int (unat (pc i)) + p_Timeout p < 2 ^ 32"
    and "unat (p_LastPingTime p) \<le> unat (p_lastReceiveTime p)" and "unat (p_lastReceiveTime p) \<le> unat (pc (p_reads p))"
    and "unat (pc (p_reads p)) < unat (p_LastPingTime p) + 1000 + 3 * g"
  shows "\<exists>q. silent_ticks n kc pc p = Some q \<and> p_State q = p_State p \<and> p_disconnectOnce q = p_disconnectOnce p
    \<and> p_received q = p_received p
    \<and> (EvError ErrorCodeTimeout \<in> set (p_events q) \<longrightarrow> EvError ErrorCodeTimeout \<in> set (p_events p))"
proof -
  have "\<exists>q. silent_ticks n kc pc p = Some q \<and> only_sent p q"
    using assms
  proof (induction n arbitrary: p)
    case 0
    then show ?case by (simp add: only_sent_def)
  next
    case (Suc n)
    let ?t = "pc (p_reads p)" and ?p = "p\<lparr>p_reads := p_reads p + 1\<rparr>"
    have gap: "unat (pc (p_reads p + j)) \<le> unat (pc (p_reads p + Suc j))
        \<and> unat (pc (p_reads p + Suc j)) \<le> unat (pc (p_reads p + j)) + g" if "j < 3" for j
      using Suc.prems(3) that by auto
    have reads: "unat ?t \<le> unat (pc (p_reads p + 1))" "unat (pc (p_reads p + 1)) \<le> unat ?t + g"
        "unat (pc (p_reads p + 1)) \<le> unat (pc (p_reads p + 2))" "unat (pc (p_reads p + 2)) \<le> unat (pc (p_reads p + 3))"
        "unat (pc (p_reads p + 3)) \<le> unat ?t + 3 * g"
      using gap[of 0] gap[of 1] gap[of 2] by (simp_all add: numeral_eq_Suc)
    obtain T where T: "p_Timeout p = int T" "1000 + 3 * g \<le> T"
      using Suc.prems(2) nonneg_int_cases[of "p_Timeout p"] by fastforce
    have "int (unat ?t) + int T < 2 ^ 32" using Suc.prems(4) T(1) by simp
    then have small: "unat ?t + T < 2 ^ 32" by (metis of_nat_add of_nat_less_iff of_nat_numeral of_nat_power)
    have "\<not> ?t \<ge> p_lastReceiveTime p + of_nat T"
      using word_add_le[of "p_lastReceiveTime p" T ?t] Suc.prems(5,6,7) T(2) small by linarith
    then have timeout: "HandleTimeout quiet ?t ?p = Some ?p" by (simp add: HandleTimeout_def T(1))
    have due: "?t \<ge> p_LastPingTime p + PING_INTERVAL \<longleftrightarrow> unat (p_LastPingTime p) + 1000 \<le> unat ?t"
      using word_add_le[of "p_LastPingTime p" 1000 ?t] Suc.prems(5,6) T(2) small by simp
    have inv: "peer_inv ?p" using Suc.prems(1) by (simp add: peer_inv_def)
    obtain q where q: "HandlePing kc pc quiet ?t ?p = Some q" "only_sent ?p q"
        "if ?t \<ge> p_LastPingTime p + PING_INTERVAL
         then p_LastPingTime q = ?t \<and> p_lastReceiveTime q = pc (p_reads p + 2) \<and> p_reads q = p_reads p + 3
         else q = ?p"
      using HandlePing_only_sent[OF inv, of kc pc ?t] by (auto simp: numeral_eq_Suc split: if_splits)
    have tq: "p_Timeout q = p_Timeout p" "only_sent p q" using q(2) by (simp_all add: only_sent_def)
    have rq: "p_reads q + 3 * n \<le> p_reads p + 3 * Suc n" using q(3) by (auto split: if_splits)
    have "\<exists>r. silent_ticks n kc pc q = Some r \<and> only_sent q r"
    proof (rule Suc.IH)
      show "peer_inv q" using q(2) by (simp add: only_sent_def)
      show "1000 + 3 * int g \<le> p_Timeout q" using Suc.prems(2) tq(1) by simp
      show "\<forall>i < p_reads q + 3 * n. unat (pc i) \<le> unat (pc (Suc i)) \<and> unat (pc (Suc i)) \<le> unat (pc i) + g"
        using Suc.prems(3) rq by auto
      show "\<forall>i \<le> p_reads q + 3 * n. int (unat (pc i)) + p_Timeout q < 2 ^ 32"
        using Suc.prems(4) rq tq(1) by auto
      show "unat (p_LastPingTime q) \<le> unat (p_lastReceiveTime q)" "unat (p_lastReceiveTime q) \<le> unat (pc (p_reads q))"
        "unat (pc (p_reads q)) < unat (p_LastPingTime q) + 1000 + 3 * g"
        using q(3) Suc.prems(5,6) reads due by (auto split: if_splits)
    qed
    then obtain r where "silent_ticks n kc pc q = Some r" "only_sent q r" by blast
    then show ?case using timeout q(1) only_sent_trans[OF tq(2)] by (simp add: peer_Time_def)
  qed
  then show ?thesis by (auto simp: only_sent_def)
qed

theorem ping_hides_timeout_witness:
  "\<exists>q. silent_ticks 300 demo_clock (\<lambda>i. of_nat (100 * i)) demo_peer = Some q \<and> p_State q = KcpConnected \<and> \<not> p_disconnectOnce q"
proof -
  have d: "p_LastPingTime demo_peer = 0 \<and> p_lastReceiveTime demo_peer = 0 \<and> p_Timeout demo_peer = 10000 \<and> p_reads demo_peer = 0"
    by code_simp
  let ?pc = "\<lambda>i. of_nat (100 * i) :: u32"
  have pc: "unat (?pc i) = 100 * i" if "i \<le> 1000" for i
    unfolding unat_of_nat using that by simp
  have "\<forall>i < p_reads demo_peer + 3 * 300. unat (?pc i) \<le> unat (?pc (Suc i)) \<and> unat (?pc (Suc i)) \<le> unat (?pc i) + 100"
  proof (intro allI impI)
    fix i assume "i < p_reads demo_peer + 3 * 300"
    then have "i \<le> 1000" "Suc i \<le> 1000" using d by simp_all
    then show "unat (?pc i) \<le> unat (?pc (Suc i)) \<and> unat (?pc (Suc i)) \<le> unat (?pc i) + 100"
      unfolding pc[OF \<open>i \<le> 1000\<close>] pc[OF \<open>Suc i \<le> 1000\<close>] by simp
  qed
  moreover have "\<forall>i \<le> p_reads demo_peer + 3 * 300. int (unat (?pc i)) + p_Timeout demo_peer < 2 ^ 32"
  proof (intro allI impI)
    fix i assume "i \<le> p_reads demo_peer + 3 * 300"
    then have "i \<le> 1000" using d by simp
    then show "int (unat (?pc i)) + p_Timeout demo_peer < 2 ^ 32" unfolding pc[OF \<open>i \<le> 1000\<close>] using d by simp
  qed
  ultimately show ?thesis
    using ping_hides_timeout[OF demo_peer_inv, of 100 300 ?pc demo_clock] d demo_peer_new
    by (auto simp: new_peer_def)
qed

end
