(* ===== verification/Connection.thy ===== *)
theory Connection
  imports Peer
begin

text \<open>
  A server connection (\<open>connection.go\<close>): the peer of one remote end, the callbacks it forwards
  the peer's events to, and the check of raw datagrams. The state of its owner, which the
  callbacks change, is whatever extends the peer; the callbacks are a record of functions. A nil
  callback is one that does nothing. \<open>RawSend\<close> is I/O and is only logged by the peer.
\<close>

section \<open>The code\<close>

record 'a callbacks =
  cb_onConnected :: "'a KcpPeer_scheme \<Rightarrow> 'a KcpPeer_scheme option"
  cb_onData :: "bytes \<Rightarrow> KcpChannel \<Rightarrow> 'a KcpPeer_scheme \<Rightarrow> 'a KcpPeer_scheme option"
  cb_onDisconnected :: "'a KcpPeer_scheme \<Rightarrow> 'a KcpPeer_scheme option"
  cb_onError :: "ErrorCode \<Rightarrow> 'a KcpPeer_scheme \<Rightarrow> 'a KcpPeer_scheme option"

definition conn_OnData :: "'a callbacks \<Rightarrow> bytes \<Rightarrow> KcpChannel \<Rightarrow> 'a KcpPeer_scheme \<Rightarrow> 'a KcpPeer_scheme option" where
  "conn_OnData cb message channel p = cb_onData cb message channel p"

definition conn_OnDisconnected :: "'a callbacks \<Rightarrow> 'a KcpPeer_scheme \<Rightarrow> 'a KcpPeer_scheme option" where
  "conn_OnDisconnected cb p = cb_onDisconnected cb p"

definition conn_OnError :: "'a callbacks \<Rightarrow> ErrorCode \<Rightarrow> 'a KcpPeer_scheme \<Rightarrow> 'a KcpPeer_scheme option" where
  "conn_OnError cb code p = cb_onError cb code p"

text \<open>The only event of \<open>SendHello\<close> itself is an error.\<close>

definition conn_OnAuthenticated :: "clock \<Rightarrow> 'a callbacks \<Rightarrow> 'a KcpPeer_scheme \<Rightarrow> 'a KcpPeer_scheme option" where
  "conn_OnAuthenticated kc cb p = do {
     p \<leftarrow> SendHello kc (\<lambda>ev. case ev of EvError code \<Rightarrow> conn_OnError cb code | _ \<Rightarrow> Some) p;
     cb_onConnected cb p
   }"

text \<open>The connection as the event handler of its peer.\<close>

definition conn_handler :: "clock \<Rightarrow> 'a callbacks \<Rightarrow> 'a handler" where
  "conn_handler kc cb ev =
     (case ev of
        EvAuthenticated \<Rightarrow> conn_OnAuthenticated kc cb
      | EvData message channel \<Rightarrow> conn_OnData cb message channel
      | EvDisconnected \<Rightarrow> conn_OnDisconnected cb
      | EvError code \<Rightarrow> conn_OnError cb code
      | EvRawSend data \<Rightarrow> Some)"

definition NewKcpServerConnection :: "KcpConfig \<Rightarrow> u32 \<Rightarrow> KcpPeer option" where
  "NewKcpServerConnection config cookie = NewKcpPeer cookie config"

definition conn_RawInput :: "clock \<Rightarrow> clock \<Rightarrow> 'a handler \<Rightarrow> bytes \<Rightarrow> 'a KcpPeer_scheme \<Rightarrow> 'a KcpPeer_scheme option" where
  "conn_RawInput kc pc h segment p =
     (if length segment \<le> CHANNEL_HEADER_SIZE + COOKIE_HEADER_SIZE then Some p
      else let channel = segment ! 0;
               (messageCookie, ok) = Decode32U segment 1
           in if \<not> ok then Some p
              else if p_State p = KcpAuthenticated \<and> messageCookie \<noteq> p_Cookie p then Some p
              else let message = drop (CHANNEL_HEADER_SIZE + COOKIE_HEADER_SIZE) segment
                   in if channel = channel_byte KcpReliable
                      then if length message < IKCP_OVERHEAD
                              \<or> \<not> (message ! 4 \<ge> IKCP_CMD_PUSH \<and> message ! 4 \<le> IKCP_CMD_WINS)
                           then Some p
                           else OnRawInputReliable kc message p
                      else if channel = channel_byte KcpUnreliable then OnRawInputUnreliable pc h message p
                      else Some p)"

definition conn_TickIncoming :: "clock \<Rightarrow> clock \<Rightarrow> 'a handler \<Rightarrow> 'a KcpPeer_scheme \<Rightarrow> 'a KcpPeer_scheme option" where
  "conn_TickIncoming kc pc h p = peer_TickIncoming kc pc h p"

definition conn_TickOutgoing :: "clock \<Rightarrow> clock \<Rightarrow> 'a handler \<Rightarrow> 'a KcpPeer_scheme \<Rightarrow> 'a KcpPeer_scheme option" where
  "conn_TickOutgoing kc pc h p = peer_TickOutgoing kc pc h p"

definition conn_Send :: "clock \<Rightarrow> clock \<Rightarrow> 'a handler \<Rightarrow> bytes \<Rightarrow> KcpChannel \<Rightarrow> 'a KcpPeer_scheme \<Rightarrow> 'a KcpPeer_scheme option" where
  "conn_Send kc pc h data channel p = SendData kc pc h data channel p"

definition conn_Disconnect :: "'a handler \<Rightarrow> 'a KcpPeer_scheme \<Rightarrow> 'a KcpPeer_scheme option" where
  "conn_Disconnect h p = Disconnect h p"

end
