(* ===== verification/Client.thy ===== *)
theory Client
  imports Peer
begin

text \<open>
  The client (\<open>client.go\<close>). A client is its peer together with the fields of \<open>KcpClient\<close>; of
  the socket, only whether there is one matters. The user's callbacks are a function \<open>u\<close> of the
  event, which may use the client in return. Resolving the host name and opening the socket are
  I/O: their outcome is a parameter of \<open>Connect\<close>; the datagrams that \<open>RawReceive\<close> reads in a
  tick are a list. Receive buffers and their pool are in \<open>Sockets\<close>.
\<close>

section \<open>The code\<close>

record KcpClient = KcpPeer +
  cl_config :: KcpConfig
  cl_conn :: bool
  cl_active :: bool
  cl_connected :: bool

type_synonym user = "event \<Rightarrow> KcpClient \<Rightarrow> KcpClient option"

definition NewKcpClient :: "KcpConfig \<Rightarrow> KcpClient option" where
  "NewKcpClient config =
     map_option (\<lambda>peer. KcpPeer.extend peer (KcpClient.fields config False False False)) (NewKcpPeer 0 config)"

definition client_OnAuthenticated :: "user \<Rightarrow> KcpClient \<Rightarrow> KcpClient option" where
  "client_OnAuthenticated u c = u EvAuthenticated (c\<lparr>cl_connected := True\<rparr>)"

definition client_OnData :: "user \<Rightarrow> bytes \<Rightarrow> KcpChannel \<Rightarrow> KcpClient \<Rightarrow> KcpClient option" where
  "client_OnData u data channel c = u (EvData data channel) c"

definition client_OnDisconnected :: "user \<Rightarrow> KcpClient \<Rightarrow> KcpClient option" where
  "client_OnDisconnected u c = u EvDisconnected (c\<lparr>cl_conn := False, cl_connected := False\<rparr>)"

definition client_OnError :: "user \<Rightarrow> ErrorCode \<Rightarrow> KcpClient \<Rightarrow> KcpClient option" where
  "client_OnError u code c = u (EvError code) c"

definition client_handler :: "user \<Rightarrow> event \<Rightarrow> KcpClient \<Rightarrow> KcpClient option" where
  "client_handler u ev =
     (case ev of
        EvAuthenticated \<Rightarrow> client_OnAuthenticated u
      | EvData data channel \<Rightarrow> client_OnData u data channel
      | EvDisconnected \<Rightarrow> client_OnDisconnected u
      | EvError code \<Rightarrow> client_OnError u code
      | EvRawSend data \<Rightarrow> Some)"

definition Connected :: "KcpClient \<Rightarrow> bool" where
  "Connected c = cl_connected c"

text \<open>The result is whether \<open>Connect\<close> returned an error.\<close>

definition Connect :: "clock \<Rightarrow> user \<Rightarrow> bool \<Rightarrow> bool \<Rightarrow> KcpClient \<Rightarrow> (bool \<times> KcpClient) option" where
  "Connect kc u resolved dialed c =
     (if cl_connected c then Some (False, c)
      else if \<not> resolved
      then do {
        c \<leftarrow> client_OnError u ErrorCodeDnsResolve c;
        c \<leftarrow> u EvDisconnected c;
        Some (True, c)
      }
      else do {
        c \<leftarrow> peer_Reset (cl_config c) c;
        if \<not> dialed then do { c \<leftarrow> client_OnError u ErrorCodeUnexpected c; Some (True, c) }
        else do {
          c \<leftarrow> SendHello kc (client_handler u) (c\<lparr>cl_conn := True, cl_active := True\<rparr>);
          Some (False, c)
        }
      })"

definition client_Send :: "clock \<Rightarrow> clock \<Rightarrow> user \<Rightarrow> bytes \<Rightarrow> KcpChannel \<Rightarrow> KcpClient \<Rightarrow> KcpClient option" where
  "client_Send kc pc u data channel c =
     (if \<not> cl_connected c then Some c
      else if p_Cookie c = 0 then Some c
      else SendData kc pc (client_handler u) data channel c)"

text \<open>What follows the cookie check of \<open>RawInput\<close>: the message goes to the peer by its channel.\<close>

definition client_dispatch :: "clock \<Rightarrow> clock \<Rightarrow> user \<Rightarrow> bytes \<Rightarrow> KcpClient \<Rightarrow> KcpClient option" where
  "client_dispatch kc pc u segment c =
     (let channel = segment ! 0;
          message = drop (CHANNEL_HEADER_SIZE + COOKIE_HEADER_SIZE) segment
      in if channel = channel_byte KcpReliable
         then if length message < IKCP_OVERHEAD
                 \<or> \<not> (message ! 4 \<ge> IKCP_CMD_PUSH \<and> message ! 4 \<le> IKCP_CMD_WINS)
              then Some c
              else OnRawInputReliable kc message c
         else if channel = channel_byte KcpUnreliable then OnRawInputUnreliable pc (client_handler u) message c
         else Some c)"

definition client_RawInput :: "clock \<Rightarrow> clock \<Rightarrow> user \<Rightarrow> bytes \<Rightarrow> KcpClient \<Rightarrow> KcpClient option" where
  "client_RawInput kc pc u segment c =
     (if length segment \<le> CHANNEL_HEADER_SIZE + COOKIE_HEADER_SIZE then Some c
      else case Decode32U segment 1 of (cookie, ok) \<Rightarrow>
        if ok
        then if p_Cookie c = 0 then client_dispatch kc pc u segment (c\<lparr>p_Cookie := cookie\<rparr>)
             else if p_Cookie c \<noteq> cookie then Some c
             else client_dispatch kc pc u segment c
        else client_dispatch kc pc u segment c)"

text \<open>
  The loop over the datagrams that can be read; \<open>n\<close> is the number of iterations left.
  \<open>RawReceive\<close> fails without a socket and on an empty datagram, which ends the loop.
\<close>

fun client_receive :: "nat \<Rightarrow> clock \<Rightarrow> clock \<Rightarrow> user \<Rightarrow> bytes list \<Rightarrow> KcpClient \<Rightarrow> KcpClient option" where
  "client_receive 0 kc pc u segs c = Some c"
| "client_receive (Suc n) kc pc u [] c = Some c"
| "client_receive (Suc n) kc pc u (seg # segs) c =
     (if \<not> cl_conn c \<or> seg = [] then Some c
      else do { c \<leftarrow> client_RawInput kc pc u seg c; client_receive n kc pc u segs c })"

definition client_TickIncoming :: "clock \<Rightarrow> clock \<Rightarrow> user \<Rightarrow> bytes list \<Rightarrow> KcpClient \<Rightarrow> KcpClient option" where
  "client_TickIncoming kc pc u segs c = do {
     c \<leftarrow> (if cl_active c then client_receive 100 kc pc u segs c else Some c);
     if cl_active c then peer_TickIncoming kc pc (client_handler u) c else Some c
   }"

definition client_TickOutgoing :: "clock \<Rightarrow> clock \<Rightarrow> user \<Rightarrow> KcpClient \<Rightarrow> KcpClient option" where
  "client_TickOutgoing kc pc u c =
     (if cl_active c then peer_TickOutgoing kc pc (client_handler u) c else Some c)"

definition client_Tick :: "clock \<Rightarrow> clock \<Rightarrow> user \<Rightarrow> bytes list \<Rightarrow> KcpClient \<Rightarrow> KcpClient option" where
  "client_Tick kc pc u segs c = do {
     c \<leftarrow> client_TickIncoming kc pc u segs c;
     client_TickOutgoing kc pc u c
   }"

definition client_GetRTT :: "KcpClient \<Rightarrow> u32" where
  "client_GetRTT c = GetRTT c"

definition client_Disconnect :: "user \<Rightarrow> KcpClient \<Rightarrow> KcpClient option" where
  "client_Disconnect u c = Disconnect (client_handler u) c"

definition client_GetSendQueueCount :: "int \<Rightarrow> KcpClient \<Rightarrow> nat" where
  "client_GetSendQueueCount connectionId c = SendQueueCount c"

definition client_GetSendBufferCount :: "int \<Rightarrow> KcpClient \<Rightarrow> nat" where
  "client_GetSendBufferCount connectionId c = SendBufferCount c"

definition client_GetReceiveQueueCount :: "int \<Rightarrow> KcpClient \<Rightarrow> nat" where
  "client_GetReceiveQueueCount connectionId c = ReceiveQueueCount c"

definition client_GetReceiveBufferCount :: "int \<Rightarrow> KcpClient \<Rightarrow> nat" where
  "client_GetReceiveBufferCount connectionId c = ReceiveBufferCount c"

end
