(* ===== verification/Server.thy ===== *)
theory Server
  imports Connection
begin

text \<open>
  The server (\<open>server.go\<close>): the table of connections by the hash of their address, and the
  connections to be removed at the end of the tick. A Go map has no order: the order in which the
  table is traversed is a parameter. The datagrams a tick reads come with their sender's address
  and the random bytes of the cookie a new connection would get.

  While an operation runs on one connection, that connection's peer is extended with the server,
  so that its callbacks can change the table; \<open>on_connection\<close> sets this up and writes the peer
  back. The user's callbacks are a function \<open>u\<close> of the connection's id and the event, which may
  use that connection in return. \<open>sv_log\<close> records the events of all connections, in order.
  The datagrams' way from the socket is in \<open>Sockets\<close>. Locks are not modelled; the connection pool
  and the large buffers' pool of the server are created but no operation uses them.
\<close>

section \<open>The code\<close>

record KcpServer =
  sv_config :: KcpConfig
  sv_conn :: bool
  sv_connections :: "int \<rightharpoonup> KcpPeer"
  sv_toRemove :: "int set"
  sv_log :: "(int \<times> event) list"

text \<open>A connection in use: its peer and the server behind its callbacks.\<close>

record server_conn = KcpPeer +
  sc_server :: KcpServer

type_synonym server_user = "int \<Rightarrow> event \<Rightarrow> server_conn \<Rightarrow> server_conn option"

definition NewKcpServer :: "KcpConfig \<Rightarrow> KcpServer" where
  "NewKcpServer config =
     \<lparr>sv_config = config, sv_conn = False, sv_connections = Map.empty, sv_toRemove = {}, sv_log = []\<rparr>"

definition server_IsActive :: "KcpServer \<Rightarrow> bool" where
  "server_IsActive s = sv_conn s"

definition server_Stop :: "KcpServer \<Rightarrow> KcpServer" where
  "server_Stop s = s\<lparr>sv_connections := Map.empty, sv_toRemove := {}, sv_conn := False\<rparr>"

subsection \<open>The callbacks of a connection\<close>

definition server_onConnected :: "server_user \<Rightarrow> int \<Rightarrow> server_conn \<Rightarrow> server_conn option" where
  "server_onConnected u connectionId c =
     (let s = sc_server c;
          c = c\<lparr>sc_server := s\<lparr>sv_connections := (sv_connections s)(connectionId \<mapsto> KcpPeer.truncate c)\<rparr>\<rparr>
      in u connectionId EvAuthenticated c)"

definition server_onData :: "server_user \<Rightarrow> int \<Rightarrow> bytes \<Rightarrow> KcpChannel \<Rightarrow> server_conn \<Rightarrow> server_conn option" where
  "server_onData u connectionId msg ch c = u connectionId (EvData msg ch) c"

definition server_onDisconnected :: "server_user \<Rightarrow> int \<Rightarrow> server_conn \<Rightarrow> server_conn option" where
  "server_onDisconnected u connectionId c =
     (let s = sc_server c
      in if sv_connections s connectionId = None then Some c
         else if connectionId \<in> sv_toRemove s then Some c
         else u connectionId EvDisconnected
                (c\<lparr>sc_server := s\<lparr>sv_toRemove := insert connectionId (sv_toRemove s)\<rparr>\<rparr>))"

definition server_onError :: "server_user \<Rightarrow> int \<Rightarrow> ErrorCode \<Rightarrow> server_conn \<Rightarrow> server_conn option" where
  "server_onError u connectionId code c = u connectionId (EvError code) c"

definition server_callbacks :: "server_user \<Rightarrow> int \<Rightarrow> \<lparr>sc_server :: KcpServer\<rparr> callbacks" where
  "server_callbacks u connectionId =
     \<lparr>cb_onConnected = server_onConnected u connectionId, cb_onData = server_onData u connectionId,
      cb_onDisconnected = server_onDisconnected u connectionId, cb_onError = server_onError u connectionId\<rparr>"

definition server_handler :: "clock \<Rightarrow> server_user \<Rightarrow> int \<Rightarrow> event \<Rightarrow> server_conn \<Rightarrow> server_conn option" where
  "server_handler kc u connectionId = conn_handler kc (server_callbacks u connectionId)"

text \<open>Using the connection of a peer: afterwards the table, if it holds the connection, has its new state.\<close>

definition on_connection ::
    "int \<Rightarrow> (server_conn \<Rightarrow> server_conn option) \<Rightarrow> KcpPeer \<Rightarrow> KcpServer \<Rightarrow> KcpServer option" where
  "on_connection connectionId f peer s = do {
     c \<leftarrow> f (KcpPeer.extend peer (server_conn.fields s));
     let s = sc_server c;
     let s = s\<lparr>sv_log := sv_log s @ map (Pair connectionId) (drop (length (p_events peer)) (p_events c))\<rparr>;
     Some (if sv_connections s connectionId = None then s
           else s\<lparr>sv_connections := (sv_connections s)(connectionId \<mapsto> KcpPeer.truncate c)\<rparr>)
   }"

subsection \<open>Operations\<close>

definition server_Send ::
    "clock \<Rightarrow> clock \<Rightarrow> server_user \<Rightarrow> int \<Rightarrow> bytes \<Rightarrow> KcpChannel \<Rightarrow> KcpServer \<Rightarrow> KcpServer option" where
  "server_Send kc pc u connectionId data channel s =
     (case sv_connections s connectionId of
        None \<Rightarrow> Some s
      | Some c \<Rightarrow> on_connection connectionId (conn_Send kc pc (server_handler kc u connectionId) data channel) c s)"

definition GetSendQueueCount :: "int \<Rightarrow> KcpServer \<Rightarrow> nat" where
  "GetSendQueueCount connectionId s = (case sv_connections s connectionId of None \<Rightarrow> 0 | Some c \<Rightarrow> SendQueueCount c)"

definition GetSendBufferCount :: "int \<Rightarrow> KcpServer \<Rightarrow> nat" where
  "GetSendBufferCount connectionId s = (case sv_connections s connectionId of None \<Rightarrow> 0 | Some c \<Rightarrow> SendBufferCount c)"

definition GetReceiveQueueCount :: "int \<Rightarrow> KcpServer \<Rightarrow> nat" where
  "GetReceiveQueueCount connectionId s = (case sv_connections s connectionId of None \<Rightarrow> 0 | Some c \<Rightarrow> ReceiveQueueCount c)"

definition GetReceiveBufferCount :: "int \<Rightarrow> KcpServer \<Rightarrow> nat" where
  "GetReceiveBufferCount connectionId s = (case sv_connections s connectionId of None \<Rightarrow> 0 | Some c \<Rightarrow> ReceiveBufferCount c)"

definition server_Disconnect :: "clock \<Rightarrow> server_user \<Rightarrow> int \<Rightarrow> KcpServer \<Rightarrow> KcpServer option" where
  "server_Disconnect kc u connectionId s =
     (case sv_connections s connectionId of
        None \<Rightarrow> Some s
      | Some c \<Rightarrow> on_connection connectionId (conn_Disconnect (server_handler kc u connectionId)) c s)"

definition GetConnection :: "int \<Rightarrow> KcpServer \<Rightarrow> KcpPeer option" where
  "GetConnection connectionId s = sv_connections s connectionId"

definition createConnection :: "bytes option \<Rightarrow> KcpServer \<Rightarrow> KcpPeer option" where
  "createConnection random s = NewKcpServerConnection (sv_config s) (GenerateCookie random)"

definition stray_disconnect :: "bytes \<Rightarrow> bool" where
  "stray_disconnect segment \<longleftrightarrow> length segment \<ge> 6 \<and> segment ! 0 = channel_byte KcpUnreliable
     \<and> segment ! 5 = unreliable_byte KcpHeaderUnrelDisconnect"

definition processMessage ::
    "clock \<Rightarrow> clock \<Rightarrow> server_user \<Rightarrow> bytes \<Rightarrow> Addr \<Rightarrow> bytes option \<Rightarrow> KcpServer \<Rightarrow> KcpServer option" where
  "processMessage kc pc u segment remote random s =
     (let cid = ConnectionHash remote;
          h = server_handler kc u cid
      in if cid \<in> sv_toRemove s then Some s
         else case sv_connections s cid of
           Some c \<Rightarrow> on_connection cid (conn_RawInput kc pc h segment) c s
         | None \<Rightarrow>
             if stray_disconnect segment then Some s
             else do {
               conn \<leftarrow> createConnection random s;
               on_connection cid (\<lambda>c. do { c \<leftarrow> conn_RawInput kc pc h segment c; conn_TickIncoming kc pc h c }) conn s
             })"

text \<open>The receive loop; an empty datagram ends it.\<close>

fun server_receive ::
    "clock \<Rightarrow> clock \<Rightarrow> server_user \<Rightarrow> (bytes \<times> Addr \<times> bytes option) list \<Rightarrow> KcpServer \<Rightarrow> KcpServer option" where
  "server_receive kc pc u [] s = Some s"
| "server_receive kc pc u ((segment, remote, random) # segs) s =
     (if \<not> sv_conn s \<or> segment = [] then Some s
      else do { s \<leftarrow> processMessage kc pc u segment remote random s; server_receive kc pc u segs s })"

text \<open>Ticking every connection of a list of ids.\<close>

fun server_each ::
    "(int \<Rightarrow> server_conn \<Rightarrow> server_conn option) \<Rightarrow> int list \<Rightarrow> KcpServer \<Rightarrow> KcpServer option" where
  "server_each f [] s = Some s"
| "server_each f (cid # ids) s =
     (case sv_connections s cid of
        None \<Rightarrow> server_each f ids s
      | Some c \<Rightarrow> do { s \<leftarrow> on_connection cid (f cid) c s; server_each f ids s })"

definition server_remove :: "KcpServer \<Rightarrow> KcpServer" where
  "server_remove s = s\<lparr>sv_connections := sv_connections s |` (- sv_toRemove s), sv_toRemove := {}\<rparr>"

definition server_TickIncoming ::
    "clock \<Rightarrow> clock \<Rightarrow> server_user \<Rightarrow> (bytes \<times> Addr \<times> bytes option) list \<Rightarrow> (KcpServer \<Rightarrow> int list)
      \<Rightarrow> KcpServer \<Rightarrow> KcpServer option" where
  "server_TickIncoming kc pc u segs order s = do {
     s \<leftarrow> server_receive kc pc u segs s;
     s \<leftarrow> server_each (\<lambda>cid. conn_TickIncoming kc pc (server_handler kc u cid)) (order s) s;
     Some (server_remove s)
   }"

definition server_TickOutgoing :: "clock \<Rightarrow> clock \<Rightarrow> server_user \<Rightarrow> (KcpServer \<Rightarrow> int list) \<Rightarrow> KcpServer \<Rightarrow> KcpServer option" where
  "server_TickOutgoing kc pc u order s =
     server_each (\<lambda>cid. conn_TickOutgoing kc pc (server_handler kc u cid)) (order s) s"

definition server_Tick ::
    "clock \<Rightarrow> clock \<Rightarrow> server_user \<Rightarrow> (bytes \<times> Addr \<times> bytes option) list \<Rightarrow> (KcpServer \<Rightarrow> int list)
      \<Rightarrow> KcpServer \<Rightarrow> KcpServer option" where
  "server_Tick kc pc u segs order s = do {
     s \<leftarrow> server_TickIncoming kc pc u segs order s;
     server_TickOutgoing kc pc u order s
   }"

end
