(* ===== verification/Peer_Frame.thy ===== *)
theory Peer_Frame
  imports Peer
begin

text \<open>
  What an operation of a peer does to the state that extends the peer is what its handler does
  to it. The interface: a relation \<open>E\<close> between the states before and after that holds when only
  the peer itself changes and events are added, composes, and is kept by the handler. Then every
  operation keeps it. It does not matter here whether the operation may panic.
\<close>

definition frames :: "('a KcpPeer_scheme \<Rightarrow> 'a KcpPeer_scheme \<Rightarrow> bool) \<Rightarrow> 'a KcpPeer_scheme \<Rightarrow> 'a KcpPeer_scheme option \<Rightarrow> bool" where
  "frames E p m \<longleftrightarrow> (\<forall>q. m = Some q \<longrightarrow> E p q)"

locale peer_frame =
  fixes h :: "'a handler" and E :: "'a KcpPeer_scheme \<Rightarrow> 'a KcpPeer_scheme \<Rightarrow> bool"
  assumes same: "KcpPeer.more q = KcpPeer.more p \<Longrightarrow> p_events q = p_events p @ evs \<Longrightarrow> E p q"
    and trans: "E p q \<Longrightarrow> E q r \<Longrightarrow> E p r"
    and handler_frame: "ev \<in> set (p_events p) \<Longrightarrow> h ev p = Some q \<Longrightarrow> E p q"
begin

lemma refl: "E p p"
  by (rule same[of _ _ "[]"]) simp_all

lemma frames_Some: "KcpPeer.more q = KcpPeer.more p \<Longrightarrow> p_events q = p_events p @ evs \<Longrightarrow> frames E p (Some q)"
  by (auto simp: frames_def intro: same)

lemma frames_None [simp]: "frames E p None"
  by (simp add: frames_def)

lemma frames_refl [simp]: "frames E p (Some p)"
  by (simp add: frames_def refl)

lemma frames_from: "E p q \<Longrightarrow> frames E q m \<Longrightarrow> frames E p m"
  unfolding frames_def using trans by blast

lemma frames_update:
  "frames E q m \<Longrightarrow> KcpPeer.more q = KcpPeer.more p \<Longrightarrow> p_events q = p_events p @ evs \<Longrightarrow> frames E p m"
  by (rule frames_from[OF same])

lemma frames_bind:
  assumes "frames E p m" and "\<And>q. m = Some q \<Longrightarrow> frames E q (f q)"
  shows "frames E p (m \<bind> f)"
  using assms frames_from[of p] by (cases m) (auto simp: frames_def)

lemma fire_frame: "frames E p (fire h ev p)"
  unfolding fire_def
  by (rule frames_update[where q = "p\<lparr>p_events := p_events p @ [ev]\<rparr>" and evs = "[ev]"])
     (auto simp: frames_def intro: handler_frame[of ev])

lemma SendUnreliable_more:
  "KcpPeer.more (SendUnreliable header content p) = KcpPeer.more p"
  "\<exists>evs. p_events (SendUnreliable header content p) = p_events p @ evs"
  by (simp_all add: SendUnreliable_def Let_def)

lemma SendDisconnect_more:
  "KcpPeer.more (SendDisconnect p) = KcpPeer.more p \<and> (\<exists>evs. p_events (SendDisconnect p) = p_events p @ evs)"
proof -
  have "KcpPeer.more (SendDisconnect_loop n p) = KcpPeer.more p \<and> (\<exists>evs. p_events (SendDisconnect_loop n p) = p_events p @ evs)"
    for n p
  proof (induction n arbitrary: p)
    case (Suc n)
    then show ?case
      using SendUnreliable_more[of KcpHeaderUnrelDisconnect "[]" p] by (metis SendDisconnect_loop.simps(2) append.assoc)
  qed simp
  then show ?thesis by (simp add: SendDisconnect_def)
qed

lemma Disconnect_frame: "frames E p (Disconnect h p)"
proof (cases "p_disconnectOnce p")
  case False
  let ?q = "SendDisconnect (p\<lparr>p_disconnectOnce := True, p_State := KcpDisconnected\<rparr>)"
  have "KcpPeer.more ?q = KcpPeer.more p" "\<exists>evs. p_events ?q = p_events p @ evs"
    using SendDisconnect_more[of "p\<lparr>p_disconnectOnce := True, p_State := KcpDisconnected\<rparr>"] by simp_all
  then show ?thesis
    using False frames_update[OF fire_frame[of ?q EvDisconnected]] by (auto simp: Disconnect_def Let_def)
qed (simp add: Disconnect_def)

lemma SendReliable_frame: "frames E p (SendReliable kc h header content p)"
proof -
  have f: "frames E p (fire h ev (p\<lparr>p_kcpSendBuffer := b\<rparr>))" "frames E p (fire h ev (p\<lparr>p_kcpSendBuffer := b, p_Kcp := k\<rparr>))" for ev b k
    by (rule frames_update[OF fire_frame, where evs = "[]"], simp_all)+
  have s: "frames E p (Some (p\<lparr>p_kcpSendBuffer := b, p_Kcp := k, p_sent := ms\<rparr>))" for b k ms
    by (rule frames_Some[where evs = "[]"]) simp_all
  have o: "frames E p (Some (kcp_output k' (p\<lparr>p_kcpSendBuffer := b, p_Kcp := k, p_sent := ms\<rparr>)))" for b k ms k'
    by (rule frames_Some) (simp_all add: kcp_output_def)
  show ?thesis
    unfolding SendReliable_def Let_def
    by (auto simp: bind_eq_Some_conv fire_frame f s o split: Option.bind_split)
qed

lemma SendHello_frame: "frames E p (SendHello kc h p)"
  by (simp add: SendHello_def SendReliable_frame)

lemma fail_frame: "frames E p (fire h ev p \<bind> Disconnect h)"
  by (rule frames_bind[OF fire_frame Disconnect_frame])

text \<open>A change of the peer alone before or after something that is framed.\<close>

lemma frames_before: "(\<And>p. frames E p (f p)) \<Longrightarrow> KcpPeer.more q = KcpPeer.more p \<Longrightarrow> p_events q = p_events p
    \<Longrightarrow> frames E p (f q)"
  by (rule frames_update[where q = q and evs = "[]"]) simp_all

lemma frames_after: "frames E p m \<Longrightarrow> (\<And>q. KcpPeer.more (g q) = KcpPeer.more q) \<Longrightarrow> (\<And>q. p_events (g q) = p_events q)
    \<Longrightarrow> frames E p (m \<bind> (\<lambda>q. Some (g q)))"
  by (rule frames_bind) (auto intro: frames_Some[where evs = "[]"])

lemma SendPing_frame: "frames E p (SendPing kc pc h p)"
  unfolding SendPing_def peer_Time_def Let_def prod.case
  by (rule frames_before[where f = "SendReliable kc h hd ms" for hd ms]) (simp_all add: SendReliable_frame)

lemma SendPong_frame: "frames E p (SendPong kc pc h ts p)"
  unfolding SendPong_def peer_Time_def Let_def prod.case
  by (rule frames_before[where f = "SendReliable kc h hd ms" for hd ms]) (simp_all add: SendReliable_frame)

lemma SendData_frame: "frames E p (SendData kc pc h data channel p)"
proof -
  let ?q = "p\<lparr>p_reads := p_reads p + 1, p_lastReceiveTime := pc (p_reads p)\<rparr>"
  have "frames E p (SendReliable kc h KcpHeaderData data ?q)"
    by (rule frames_before[where f = "SendReliable kc h KcpHeaderData data"]) (simp_all add: SendReliable_frame)
  moreover obtain evs where "p_events (SendUnreliable KcpHeaderUnrelData data ?q) = p_events p @ evs"
    using SendUnreliable_more(2)[of KcpHeaderUnrelData data ?q] by auto
  then have "frames E p (Some (SendUnreliable KcpHeaderUnrelData data ?q))"
    by (intro frames_Some) (simp_all add: SendUnreliable_more(1))
  ultimately show ?thesis
    by (cases channel) (simp_all add: SendData_def peer_Time_def fail_frame)
qed

lemma HandleTimeout_frame: "frames E p (HandleTimeout h time p)"
  by (simp add: HandleTimeout_def fail_frame)

lemma HandleDeadLink_frame: "frames E p (HandleDeadLink h p)"
  by (simp add: HandleDeadLink_def fail_frame)

lemma HandlePing_frame: "frames E p (HandlePing kc pc h time p)"
  by (simp add: HandlePing_def frames_after SendPing_frame)

lemma HandleChoked_frame: "frames E p (HandleChoked h p)"
proof -
  have "frames E q (Disconnect h (q\<lparr>p_Kcp := k\<rparr>))" for q k
    by (rule frames_before[where f = "Disconnect h"]) (simp_all add: Disconnect_frame)
  then show ?thesis by (simp add: HandleChoked_def Let_def frames_bind fire_frame)
qed

lemma checks_frame:
  assumes "\<And>q. frames E q (f q)"
  shows "frames E p (HandleTimeout h time p \<bind> (\<lambda>p. HandleDeadLink h p \<bind> (\<lambda>p. HandlePing kc pc h time p \<bind>
     (\<lambda>p. HandleChoked h p \<bind> f))))"
  by (intro frames_bind HandleTimeout_frame HandleDeadLink_frame HandlePing_frame HandleChoked_frame assms)

lemma ReceiveNext_frame:
  assumes "ReceiveNextReliable pc h p = Some (res, q)"
  shows "E p q"
proof -
  have f: "E p r" if "fire h ev p' \<bind> (\<lambda>p. Disconnect h p \<bind> (\<lambda>p. Some (x, p))) = Some (y, r)"
    and "KcpPeer.more p' = KcpPeer.more p" and "p_events p' = p_events p" for p' ev x y r
  proof -
    have "fire h ev p' \<bind> Disconnect h = Some r" using that(1) by (auto simp: bind_eq_Some_conv)
    then have "E p' r" using fail_frame[of p' ev] by (simp add: frames_def)
    then show ?thesis using trans same[of p' p "[]"] that(2,3) by simp
  qed
  have s: "E p (p\<lparr>p_Kcp := k, p_kcpMessageBuffer := b, p_received := ms, p_reads := n, p_lastReceiveTime := t\<rparr>)" for k b ms n t
    by (rule same[where evs = "[]"]) simp_all
  show ?thesis
    using assms unfolding ReceiveNextReliable_def Let_def
    by (auto simp: peer_Time_def refl s bind_eq_Some_conv[of "kcp_Recv _ _"] split: if_splits prod.splits elim!: f)
qed

lemma ReceiveNext_bind:
  assumes "\<And>res q. ReceiveNextReliable pc h p = Some (res, q) \<Longrightarrow> frames E q (f (res, q))"
  shows "frames E p (ReceiveNextReliable pc h p \<bind> f)"
  using assms ReceiveNext_frame[of pc p] frames_from
  by (cases "ReceiveNextReliable pc h p") fastforce+

lemma process_message_frame: "frames E p (process_message kc pc h time header message p)"
proof -
  have "frames E p (SendPong kc pc h ts p \<bind> (\<lambda>p. Some (p\<lparr>p_LastPongTime := time\<rparr>)))" for ts
    by (simp add: frames_after SendPong_frame)
  moreover have "frames E p (Some (p\<lparr>p_rtt := t\<rparr>))" for t
    by (rule frames_Some[where evs = "[]"]) simp_all
  ultimately show ?thesis
    by (cases header) (simp_all add: process_message_def Disconnect_frame fire_frame fail_frame split: prod.split)
qed

lemma receive_loop_frame: "frames E p (receive_loop fuel kc pc h time p)"
proof (induction fuel arbitrary: p)
  case (Suc fuel)
  show ?case
    unfolding receive_loop.simps
  proof (rule ReceiveNext_bind)
    fix res q
    show "frames E q (case (res, q) of (received, p) \<Rightarrow> case received of None \<Rightarrow> Some p
        | Some (header, message) \<Rightarrow> process_message kc pc h time header message p \<bind> receive_loop fuel kc pc h time)"
      by (cases res) (auto intro!: frames_bind process_message_frame Suc.IH)
  qed
qed simp

lemma TickIncoming_frame: "frames E p (peer_TickIncoming kc pc h p)"
proof -
  have c: "frames E q (TickIncoming_Connected kc pc h time q)" for q time
    unfolding TickIncoming_Connected_def
  proof (rule checks_frame, rule ReceiveNext_bind)
    fix res and p q :: "'a KcpPeer_scheme"
    have "frames E q (fire h EvAuthenticated (q\<lparr>p_State := KcpAuthenticated\<rparr>))"
      by (rule frames_before[where f = "fire h EvAuthenticated"]) (simp_all add: fire_frame)
    then show "frames E q (case (res, q) of (received, p) \<Rightarrow> case received of
       None \<Rightarrow> Some p
     | Some (KcpHeaderHello, message) \<Rightarrow> fire h EvAuthenticated (p\<lparr>p_State := KcpAuthenticated\<rparr>)
     | Some (KcpHeaderPing, message) \<Rightarrow> Some p
     | Some (KcpHeaderPong, message) \<Rightarrow> Some p
     | Some (KcpHeaderData, message) \<Rightarrow> fire h (EvError ErrorCodeInvalidReceive) p \<bind> Disconnect h)"
      by (auto simp: fail_frame split: option.split KcpHeaderReliable.split)
  qed
  have a: "frames E q (TickIncoming_Authenticated kc pc h time q)" for q time
    unfolding TickIncoming_Authenticated_def by (rule checks_frame) (rule receive_loop_frame)
  let ?q = "p\<lparr>p_reads := p_reads p + 1\<rparr>"
  show ?thesis
    unfolding peer_TickIncoming_def peer_Time_def Let_def prod.case
    by (cases "p_State p")
       (auto intro: frames_before[where f = "TickIncoming_Connected kc pc h t" for t, OF c]
         frames_before[where f = "TickIncoming_Authenticated kc pc h t" for t, OF a] frames_Some[where evs = "[]"])
qed

lemma TickOutgoing_frame: "frames E p (peer_TickOutgoing kc pc h p)"
proof -
  have "frames E q (Some ((kcp_output k q)\<lparr>p_flushInterval := t\<rparr>))"
    "frames E q (Some ((kcp_output k (q\<lparr>p_reads := n\<rparr>))\<lparr>p_flushInterval := t\<rparr>))" for q k t n
    by (rule frames_Some, simp_all add: kcp_output_def)+
  then have "frames E q (tick_flush kc pc q)" for q
    unfolding tick_flush_def peer_Time_def Let_def prod.case
    by (auto split: Option.bind_split intro: frames_Some[where evs = "[]"])
  then show ?thesis
    by (cases "p_State p") (simp_all add: peer_TickOutgoing_def frames_bind HandleDeadLink_frame)
qed

lemma OnRawInputReliable_frame: "frames E p (OnRawInputReliable kc message p)"
proof -
  have "frames E p (Some (kcp_output k p))" for k by (rule frames_Some) (simp_all add: kcp_output_def)
  then show ?thesis by (auto simp: OnRawInputReliable_def split: Option.bind_split)
qed

lemma OnRawInputUnreliable_frame: "frames E p (OnRawInputUnreliable pc h message p)"
proof -
  have "frames E p (fire h ev p \<bind> (\<lambda>p. let (now, p) = peer_Time pc p in Some (p\<lparr>p_lastReceiveTime := now\<rparr>)))" for ev
    unfolding peer_Time_def Let_def prod.case by (simp add: frames_after fire_frame)
  then show ?thesis
    by (auto simp: OnRawInputUnreliable_def fail_frame Disconnect_frame split: prod.split KcpHeaderUnreliable.split)
qed

end

end
