(* ===== verification/Connection_Contract.thy ===== *)
theory Connection_Contract
  imports Connection Client Server Peer_Session Peer_Frame
begin

text \<open>
  The two ends as handlers of their peers. The owner of a connection is an interface: if its
  callbacks keep the contract of the peer, the connection does. The server's callbacks do, with
  any user that does, and so does the client. Raw datagrams: a datagram of one end is taken in by
  the other as the message that was framed in it, and what does not carry the right cookie has no
  effect.
\<close>

section \<open>The owner of a connection\<close>

locale connection_owner =
  fixes kc :: clock and cb :: "'a callbacks"
  assumes connected_ok: "peer_inv p \<Longrightarrow> ok_from p (cb_onConnected cb p)"
    and data_ok: "peer_inv p \<Longrightarrow> ok_from p (cb_onData cb message channel p)"
    and disconnected_ok: "peer_inv p \<Longrightarrow> ok_from p (cb_onDisconnected cb p)"
    and error_ok: "peer_inv p \<Longrightarrow> ok_from p (cb_onError cb code p)"
begin

lemma errors_handler: "peer_handler (\<lambda>ev. case ev of EvError code \<Rightarrow> conn_OnError cb code | _ \<Rightarrow> Some)"
  by unfold_locales (simp add: conn_OnError_def error_ok ok_from_refl split: event.split)

lemma OnAuthenticated_ok: "peer_inv p \<Longrightarrow> ok_from p (conn_OnAuthenticated kc cb p)"
  unfolding conn_OnAuthenticated_def
  by (intro ok_from_bind[OF peer_handler.SendHello_ok[OF errors_handler]] connected_ok)

end

sublocale connection_owner \<subseteq> conn: peer_handler "conn_handler kc cb"
  by unfold_locales
     (simp add: conn_handler_def OnAuthenticated_ok conn_OnData_def data_ok conn_OnDisconnected_def disconnected_ok
        conn_OnError_def error_ok ok_from_refl split: event.split)

context connection_owner begin

lemma handler: "peer_handler (conn_handler kc cb)"
  by unfold_locales

end

text \<open>The contract does not look at what extends the peer.\<close>

lemma peer_inv_server [simp]: "peer_inv (c\<lparr>sc_server := s\<rparr>) = peer_inv c"
  by (simp add: peer_inv_def)

lemma peer_ok_server: "peer_inv c \<Longrightarrow> peer_ok c (c\<lparr>sc_server := s\<rparr>)"
  by (simp add: contract_defs)

text \<open>
  What the callbacks of one connection may do to the server: enter that connection, and schedule
  its removal once it is there.
\<close>

definition conn_rel :: "int \<Rightarrow> KcpServer \<Rightarrow> KcpServer \<Rightarrow> bool" where
  "conn_rel cid s s' \<longleftrightarrow> sv_config s' = sv_config s \<and> sv_conn s' = sv_conn s \<and> sv_log s' = sv_log s
     \<and> (\<forall>j. j \<noteq> cid \<longrightarrow> sv_connections s' j = sv_connections s j)
     \<and> (sv_connections s cid \<noteq> None \<longrightarrow> sv_connections s' cid \<noteq> None)
     \<and> sv_toRemove s \<subseteq> sv_toRemove s' \<and> sv_toRemove s' \<subseteq> insert cid (sv_toRemove s)
     \<and> (cid \<in> sv_toRemove s' \<longrightarrow> cid \<in> sv_toRemove s \<or> sv_connections s' cid \<noteq> None)"

definition conn_frame :: "int \<Rightarrow> server_conn \<Rightarrow> server_conn \<Rightarrow> bool" where
  "conn_frame cid p q \<longleftrightarrow> conn_rel cid (sc_server p) (sc_server q) \<and> prefix (p_events p) (p_events q)
     \<and> (sv_connections (sc_server p) cid = None \<and> sv_connections (sc_server q) cid \<noteq> None
          \<longrightarrow> EvAuthenticated \<in> set (p_events q))"

lemma conn_rel_refl [simp]: "conn_rel cid s s"
  by (auto simp: conn_rel_def)

lemma conn_rel_trans: "conn_rel cid s1 s2 \<Longrightarrow> conn_rel cid s2 s3 \<Longrightarrow> conn_rel cid s1 s3"
  unfolding conn_rel_def by auto

lemma conn_frame_trans: "conn_frame cid p q \<Longrightarrow> conn_frame cid q r \<Longrightarrow> conn_frame cid p r"
  unfolding conn_frame_def using conn_rel_trans set_mono_prefix by (metis prefix_order.trans subsetD)

lemma more_server:
  fixes p q :: server_conn
  shows "KcpPeer.more q = KcpPeer.more p \<Longrightarrow> sc_server q = sc_server p"
  by (cases p, cases q) simp

lemma callbacks_eqs:
  "cb_onConnected (server_callbacks u cid) = server_onConnected u cid"
  "cb_onData (server_callbacks u cid) = server_onData u cid"
  "cb_onDisconnected (server_callbacks u cid) = server_onDisconnected u cid"
  "cb_onError (server_callbacks u cid) = server_onError u cid"
  by (simp_all add: server_callbacks_def)

lemma conn_frame_same:
  "KcpPeer.more q = KcpPeer.more p \<Longrightarrow> p_events q = p_events p @ evs \<Longrightarrow> conn_frame cid p q"
  using more_server[of q p] by (auto simp: conn_frame_def)

text \<open>A user of the server, as an interface, and the server as the owner of its connections.\<close>

locale server_users =
  fixes u :: server_user
  assumes user_ok: "peer_inv c \<Longrightarrow> ok_from c (u connectionId ev c)"
    and user_frame: "u connectionId ev c = Some c' \<Longrightarrow> conn_frame connectionId c c'"

sublocale server_users \<subseteq> owner: connection_owner kc "server_callbacks u connectionId" for kc connectionId
proof unfold_locales
  fix p :: server_conn
  assume inv: "peer_inv p"
  have upd: "ok_from p (u connectionId ev (p\<lparr>sc_server := s\<rparr>))" for ev s
    using ok_from_trans[OF peer_ok_server[OF inv] user_ok] inv by simp
  show "ok_from p (cb_onConnected (server_callbacks u connectionId) p)"
    by (simp add: server_callbacks_def server_onConnected_def Let_def upd)
  show "ok_from p (cb_onData (server_callbacks u connectionId) message channel p)" for message channel
    by (simp add: server_callbacks_def server_onData_def user_ok inv)
  show "ok_from p (cb_onDisconnected (server_callbacks u connectionId) p)"
    by (simp add: server_callbacks_def server_onDisconnected_def Let_def upd ok_from_refl inv)
  show "ok_from p (cb_onError (server_callbacks u connectionId) code p)" for code
    by (simp add: server_callbacks_def server_onError_def user_ok inv)
qed

context server_users begin

lemma handler: "peer_handler (server_handler kc u connectionId)"
  unfolding server_handler_def by (rule owner.handler)

lemma errors_frame:
  "peer_frame (\<lambda>ev. case ev of EvError code \<Rightarrow> conn_OnError (server_callbacks u cid) code | _ \<Rightarrow> Some) (conn_frame cid)"
proof
  fix ev and p q :: server_conn
  assume "(case ev of EvError code \<Rightarrow> conn_OnError (server_callbacks u cid) code | _ \<Rightarrow> Some) p = Some q"
  then show "conn_frame cid p q"
    using conn_frame_same[of p p "[]" cid]
    by (auto simp: conn_OnError_def server_callbacks_def server_onError_def intro: user_frame split: event.splits)
qed (auto intro: conn_frame_same conn_frame_trans)

lemma handler_frame: "peer_frame (server_handler kc u cid) (conn_frame cid)"
proof
  fix ev and p q :: server_conn
  assume ev: "ev \<in> set (p_events p)" and h: "server_handler kc u cid ev p = Some q"
  show "conn_frame cid p q"
  proof (cases ev)
    case EvAuthenticated
    obtain r where r: "SendHello kc (\<lambda>ev. case ev of EvError code \<Rightarrow> conn_OnError (server_callbacks u cid) code | _ \<Rightarrow> Some) p = Some r"
      and q: "server_onConnected u cid r = Some q"
      using h EvAuthenticated
      by (auto simp: server_handler_def conn_handler_def conn_OnAuthenticated_def callbacks_eqs bind_eq_Some_conv)
    have pr: "conn_frame cid p r"
      using peer_frame.SendHello_frame[OF errors_frame] r by (simp add: frames_def)
    then have auth: "EvAuthenticated \<in> set (p_events r)"
      using ev EvAuthenticated set_mono_prefix by (auto simp: conn_frame_def)
    let ?r = "r\<lparr>sc_server := (sc_server r)\<lparr>sv_connections := (sv_connections (sc_server r))(cid \<mapsto> KcpPeer.truncate r)\<rparr>\<rparr>"
    have "conn_frame cid r ?r" using auth by (auto simp: conn_frame_def conn_rel_def)
    moreover have "conn_frame cid ?r q" using q by (auto simp: server_onConnected_def Let_def intro: user_frame)
    ultimately show ?thesis using pr conn_frame_trans by blast
  next
    case EvDisconnected
    let ?s = "sc_server p"
    let ?r = "p\<lparr>sc_server := ?s\<lparr>sv_toRemove := insert cid (sv_toRemove ?s)\<rparr>\<rparr>"
    have "q = p \<or> sv_connections ?s cid \<noteq> None \<and> u cid EvDisconnected ?r = Some q"
      using h EvDisconnected
      by (auto simp: server_handler_def conn_handler_def conn_OnDisconnected_def server_callbacks_def
          server_onDisconnected_def Let_def split: if_splits)
    moreover have "sv_connections ?s cid \<noteq> None \<Longrightarrow> conn_frame cid p ?r" by (auto simp: conn_frame_def conn_rel_def)
    ultimately show ?thesis using conn_frame_same[of p p "[]"] user_frame conn_frame_trans by fastforce
  next
    case (EvData m ch)
    then show ?thesis
      using h by (auto simp: server_handler_def conn_handler_def conn_OnData_def server_callbacks_def server_onData_def
          intro: user_frame)
  next
    case (EvError code)
    then show ?thesis
      using h by (auto simp: server_handler_def conn_handler_def conn_OnError_def server_callbacks_def server_onError_def
          intro: user_frame)
  next
    case (EvRawSend d)
    then show ?thesis using h conn_frame_same[of p p "[]"] by (simp add: server_handler_def conn_handler_def)
  qed
qed (auto intro: conn_frame_same conn_frame_trans)

end

text \<open>
  The user of the echo server (\<open>examples/echo\<close>): it answers every message with a prefix before
  it, on the same channel, and only prints the other events.
\<close>

definition echo_prefix :: bytes where
  "echo_prefix = [69, 99, 104, 111, 58, 32]"

definition echo_user :: "clock \<Rightarrow> clock \<Rightarrow> server_user" where
  "echo_user kc pc connectionId ev c =
     (case ev of
        EvData data ch \<Rightarrow>
          if sv_connections (sc_server c) connectionId = None then Some c
          else conn_Send kc pc (\<lambda>ev. Some) (echo_prefix @ data) ch c
      | _ \<Rightarrow> Some c)"

lemma some_handler: "peer_handler (\<lambda>ev. Some)"
  by unfold_locales (simp add: ok_from_refl)

lemma some_frame: "peer_frame (\<lambda>ev. Some) (conn_frame cid)"
  by unfold_locales (auto intro: conn_frame_same[where evs = "[]"] conn_frame_same conn_frame_trans)

interpretation echo: server_users "echo_user kc pc" for kc pc
proof
  fix c :: server_conn and connectionId ev
  assume "peer_inv c"
  then show "ok_from c (echo_user kc pc connectionId ev c)"
    by (simp add: echo_user_def conn_Send_def peer_handler.SendData_ok[OF some_handler] ok_from_refl split: event.split)
next
  fix c c' :: server_conn and connectionId ev
  assume "echo_user kc pc connectionId ev c = Some c'"
  then show "conn_frame connectionId c c'"
    using peer_frame.SendData_frame[OF some_frame, of connectionId c] conn_frame_same[of c c "[]"]
    by (auto simp: echo_user_def conn_Send_def frames_def split: event.splits if_splits)
qed

interpretation echo_frame: peer_frame "server_handler kc (echo_user kc' pc') cid" "conn_frame cid" for kc kc' pc' cid
  by (rule echo.handler_frame)

section \<open>The client\<close>

locale client_user =
  fixes u :: user
  assumes user_ok: "peer_inv c \<Longrightarrow> ok_from c (u ev c)"

lemma peer_ok_client:
  "peer_inv c \<Longrightarrow> peer_ok c (c\<lparr>cl_connected := b\<rparr>)" "peer_inv c \<Longrightarrow> peer_ok c (c\<lparr>cl_conn := d, cl_connected := b\<rparr>)"
  by (simp_all add: contract_defs)

sublocale client_user \<subseteq> client: peer_handler "client_handler u"
proof unfold_locales
  fix p :: KcpClient and ev
  assume inv: "peer_inv p"
  have "ok_from p (u ev (p\<lparr>cl_connected := b\<rparr>))" "ok_from p (u ev (p\<lparr>cl_conn := d, cl_connected := b\<rparr>))" for ev b d
    using ok_from_trans[OF peer_ok_client(1)[OF inv] user_ok[OF peer_does_inv[OF peer_ok_client(1)[OF inv]]]]
      ok_from_trans[OF peer_ok_client(2)[OF inv] user_ok[OF peer_does_inv[OF peer_ok_client(2)[OF inv]]]]
    by simp_all
  then show "ok_from p (client_handler u ev p)"
    by (simp add: client_handler_def client_OnAuthenticated_def client_OnData_def client_OnDisconnected_def
        client_OnError_def user_ok inv ok_from_refl split: event.split)
qed

context client_user begin

lemma handler: "peer_handler (client_handler u)"
  by unfold_locales

end

text \<open>The user of the echo client only prints.\<close>

definition print_user :: user where
  "print_user ev c = Some c"

interpretation print: client_user print_user
  by unfold_locales (simp add: print_user_def ok_from_refl)

section \<open>Raw datagrams\<close>

lemma framed:
  "length (ch # le32 cookie @ msg) = 5 + length msg" "(ch # le32 cookie @ msg) ! 0 = ch"
  "Decode32U (ch # le32 cookie @ msg) 1 = (cookie, True)" "drop 5 (ch # le32 cookie @ msg) = msg"
  by (simp_all add: Decode32U_def)

lemma OnRawInputReliable_checked:
  "(if length m < IKCP_OVERHEAD \<or> \<not> (m ! 4 \<ge> IKCP_CMD_PUSH \<and> m ! 4 \<le> IKCP_CMD_WINS) then Some p
    else OnRawInputReliable kc m p) = OnRawInputReliable kc m p"
  by (simp add: OnRawInputReliable_def)

text \<open>The cookie that a datagram carries.\<close>

definition raw_cookie :: "bytes \<Rightarrow> u32" where
  "raw_cookie o' = fst (Decode32U o' 1)"

lemma raw_Decode: "5 < length seg \<Longrightarrow> Decode32U seg 1 = (raw_cookie seg, True)"
  by (simp add: raw_cookie_def Decode32U_def)

text \<open>What both ends do with a datagram whose cookie they accept.\<close>

definition dispatch :: "clock \<Rightarrow> clock \<Rightarrow> 'a handler \<Rightarrow> bytes \<Rightarrow> 'a KcpPeer_scheme \<Rightarrow> 'a KcpPeer_scheme option" where
  "dispatch kc pc h seg p =
     (if seg ! 0 = channel_byte KcpReliable then OnRawInputReliable kc (drop 5 seg) p
      else if seg ! 0 = channel_byte KcpUnreliable then OnRawInputUnreliable pc h (drop 5 seg) p
      else Some p)"

lemma conn_RawInput_eq:
  "conn_RawInput kc pc h seg p =
     (if length seg \<le> 5 \<or> p_State p = KcpAuthenticated \<and> raw_cookie seg \<noteq> p_Cookie p then Some p
      else dispatch kc pc h seg p)"
proof (cases "length seg \<le> 5")
  case False
  have five: "(1 :: nat) + 4 = 5" by simp
  show ?thesis
    using False raw_Decode[of seg]
    unfolding conn_RawInput_def Let_def five OnRawInputReliable_checked dispatch_def[symmetric]
    by (simp cong: if_cong)
qed (simp add: conn_RawInput_def)

definition with_cookie :: "u32 \<Rightarrow> 'a KcpPeer_scheme \<Rightarrow> 'a KcpPeer_scheme" where
  "with_cookie cookie p = (if p_Cookie p = 0 then p\<lparr>p_Cookie := cookie\<rparr> else p)"

lemma client_dispatch_eq: "client_dispatch kc pc u seg c = dispatch kc pc (client_handler u) seg c"
proof -
  have five: "(1 :: nat) + 4 = 5" by simp
  show ?thesis
    unfolding client_dispatch_def Let_def five OnRawInputReliable_checked dispatch_def by (rule refl)
qed

lemma client_RawInput_eq:
  "client_RawInput kc pc u seg c =
     (if length seg \<le> 5 \<or> p_Cookie c \<noteq> 0 \<and> raw_cookie seg \<noteq> p_Cookie c then Some c
      else dispatch kc pc (client_handler u) seg (with_cookie (raw_cookie seg) c))"
proof (cases "length seg \<le> 5")
  case False
  then show ?thesis
    using raw_Decode[of seg]
    by (auto simp: client_RawInput_def client_dispatch_eq with_cookie_def)
qed (simp add: client_RawInput_def)

text \<open>Taking in a raw datagram never panics and keeps the invariants.\<close>

lemma dispatch_fine:
  assumes fine: "peer_fine p" and h: "peer_handler h" and len: "length seg \<le> 5 + unat (k_mtu (p_Kcp p))"
  shows "\<exists>q. dispatch kc pc h seg p = Some q \<and> peer_fine q \<and> peer_fixed p q"
proof -
  have inv: "peer_inv p" and auth: "auth_log p" using fine by (simp_all add: peer_fine_def)
  obtain q where q: "OnRawInputReliable kc (drop 5 seg) p = Some q" "peer_takes (drop 5 seg) p q"
    using OnRawInputReliable_ok[OF inv, of "drop 5 seg" kc] len by force
  obtain r where r: "OnRawInputUnreliable pc h (drop 5 seg) p = Some r" "peer_ok p r"
    using peer_handler.OnRawInputUnreliable_ok[OF h inv auth] by (auto simp: ok_from_def)
  have "peer_fine r" "peer_fixed p r" using peer_fine_run[OF fine peer_ok_run[OF r(2)]] r(2) by (simp_all add: peer_does_def)
  moreover have "peer_fine q" "peer_fixed p q" using peer_fine_takes[OF fine q(2)] q(2) by (simp_all add: peer_takes_def)
  moreover have "peer_fixed p p" by (simp add: peer_fixed_def)
  ultimately show ?thesis using fine q(1) r(1) by (simp add: dispatch_def)
qed

lemma conn_RawInput_fine:
  assumes "peer_fine p" and "peer_handler h" and "length seg \<le> 5 + unat (k_mtu (p_Kcp p))"
  shows "\<exists>q. conn_RawInput kc pc h seg p = Some q \<and> peer_fine q \<and> peer_fixed p q"
  using dispatch_fine[OF assms, of kc pc] assms(1) by (simp add: conn_RawInput_eq peer_fixed_def)

lemma peer_fine_cookie: "peer_fine p \<Longrightarrow> peer_fine (with_cookie cookie p)"
  by (simp add: with_cookie_def peer_fine_def peer_inv_def auth_log_def)

lemma client_RawInput_fine:
  assumes "peer_fine c" and "client_user u" and "length seg \<le> 5 + unat (k_mtu (p_Kcp c))"
  shows "\<exists>q. client_RawInput kc pc u seg c = Some q \<and> peer_fine q \<and> k_mtu (p_Kcp q) = k_mtu (p_Kcp c)
    \<and> prefix (p_sent c) (p_sent q) \<and> (p_Cookie c \<noteq> 0 \<longrightarrow> p_Cookie q = p_Cookie c)"
proof -
  let ?c = "with_cookie (raw_cookie seg) c"
  have k: "k_mtu (p_Kcp ?c) = k_mtu (p_Kcp c)" "p_sent ?c = p_sent c" "p_Cookie c \<noteq> 0 \<Longrightarrow> p_Cookie ?c = p_Cookie c"
    by (simp_all add: with_cookie_def)
  obtain q where q: "dispatch kc pc (client_handler u) seg ?c = Some q" "peer_fine q" "peer_fixed ?c q"
    using dispatch_fine[OF peer_fine_cookie[OF assms(1)] client_user.handler[OF assms(2)], of seg "raw_cookie seg" kc pc]
      assms(3) k(1) by auto
  show ?thesis
    unfolding client_RawInput_eq q(1) using q(2,3) k assms(1) by (auto simp: peer_fixed_def)
qed

text \<open>
  A datagram can be trusted if it is not one of KCP, or if its KCP part was put on the wire by
  the other end. One that carries a wrong cookie need not be trusted.
\<close>

definition trusted :: "bytes set \<Rightarrow> bytes \<Rightarrow> bool" where
  "trusted net seg \<longleftrightarrow> (take 1 seg = [channel_byte KcpReliable] \<longrightarrow> drop 5 seg \<in> net)"

lemma trusted_wire: "EvRawSend seg \<in> set evs \<Longrightarrow> trusted (set (outs evs)) seg"
  by (force simp: trusted_def outs_def wire_out_def)

lemma step_keeps_refl: "peer_fine p \<Longrightarrow> step_keeps net p p"
  by (simp add: step_keeps_def)

lemma step_keeps_trans: "step_keeps net p q \<Longrightarrow> step_keeps net q r \<Longrightarrow> step_keeps net p r"
  unfolding step_keeps_def by (auto intro: prefix_order.trans)

lemma dispatch_keeps:
  assumes fine: "peer_fine p" and h: "peer_handler h" and net: "\<forall>d \<in> net. length d \<le> unat (k_mtu (p_Kcp p))"
    and tr: "trusted net seg" and ne: "5 < length seg"
    and run: "dispatch kc pc h seg p = Some q"
  shows "step_keeps net p q \<and> p_Cookie q = p_Cookie p"
proof -
  have inv: "peer_inv p" and auth: "auth_log p" using fine by (simp_all add: peer_fine_def)
  obtain b bs where seg: "seg = b # bs" using ne by (cases seg) auto
  consider "seg ! 0 = channel_byte KcpReliable" | "seg ! 0 = channel_byte KcpUnreliable"
    | "seg ! 0 \<noteq> channel_byte KcpReliable" "seg ! 0 \<noteq> channel_byte KcpUnreliable" by blast
  then show ?thesis
  proof cases
    case 1
    then have d: "drop 5 seg \<in> net" using tr seg by (simp add: trusted_def)
    then obtain r where "OnRawInputReliable kc (drop 5 seg) p = Some r" "peer_takes (drop 5 seg) p r"
      using OnRawInputReliable_ok[OF inv, of "drop 5 seg" kc] net by blast
    then show ?thesis
      using run 1 step_keeps_takes[OF fine _ d] by (simp add: dispatch_def peer_takes_def peer_fixed_def)
  next
    case 2
    then have "ok_from p (Some q)"
      using run peer_handler.OnRawInputUnreliable_ok[OF h inv auth, of pc "drop 5 seg"] by (simp add: dispatch_def)
    then show ?thesis
      using step_keeps_run[OF fine run_from_ok, of q net] by (simp add: ok_from_def peer_does_def peer_fixed_def)
  next
    case 3
    then show ?thesis using run step_keeps_refl[OF fine] by (simp add: dispatch_def)
  qed
qed

lemma conn_RawInput_keeps:
  assumes "peer_fine p" and "peer_handler h" and "\<forall>d \<in> net. length d \<le> unat (k_mtu (p_Kcp p))"
    and "trusted net seg \<or> p_State p = KcpAuthenticated \<and> raw_cookie seg \<noteq> p_Cookie p"
    and "conn_RawInput kc pc h seg p = Some q"
  shows "step_keeps net p q"
proof (cases "length seg \<le> 5 \<or> p_State p = KcpAuthenticated \<and> raw_cookie seg \<noteq> p_Cookie p")
  case True
  then show ?thesis using assms(5) step_keeps_refl[OF assms(1)] unfolding conn_RawInput_eq by simp
next
  case False
  then show ?thesis
    using dispatch_keeps[OF assms(1,2,3), of seg kc pc q] assms(4,5) unfolding conn_RawInput_eq by auto
qed

lemma step_keeps_cookie: "peer_fine p \<Longrightarrow> step_keeps net p (with_cookie cookie p)"
  using peer_fine_cookie[of p cookie] by (simp add: step_keeps_def in_sync_def calm_def with_cookie_def peer_end_def)

lemma client_RawInput_keeps:
  assumes "peer_fine c" and "client_user u" and "\<forall>d \<in> net. length d \<le> unat (k_mtu (p_Kcp c))"
    and "trusted net seg \<or> p_Cookie c \<noteq> 0 \<and> raw_cookie seg \<noteq> p_Cookie c"
    and "client_RawInput kc pc u seg c = Some q"
  shows "step_keeps net c q \<and> (p_Cookie c \<noteq> 0 \<longrightarrow> p_Cookie q = p_Cookie c)"
proof (cases "length seg \<le> 5 \<or> p_Cookie c \<noteq> 0 \<and> raw_cookie seg \<noteq> p_Cookie c")
  case True
  then show ?thesis using assms(5) step_keeps_refl[OF assms(1)] unfolding client_RawInput_eq by simp
next
  case False
  let ?c = "with_cookie (raw_cookie seg) c"
  have c: "k_mtu (p_Kcp ?c) = k_mtu (p_Kcp c)" "p_Cookie c \<noteq> 0 \<Longrightarrow> p_Cookie ?c = p_Cookie c"
    by (simp_all add: with_cookie_def)
  then have "step_keeps net ?c q \<and> p_Cookie q = p_Cookie ?c"
    using dispatch_keeps[OF peer_fine_cookie[OF assms(1)] client_user.handler[OF assms(2)], of net "raw_cookie seg" seg kc pc q]
      assms(3-5) False unfolding client_RawInput_eq by auto
  then show ?thesis using step_keeps_trans[OF step_keeps_cookie[OF assms(1)]] c(2) by auto
qed

end
