(* ===== verification/Server_Contract.thy ===== *)
theory Server_Contract
  imports Connection_Contract
begin

text \<open>
  The invariant of the server and what its operations keep. Every connection in the table keeps
  the contract of a peer and has been through a handshake, and only connections of the table wait
  for their removal. An operation on one connection leaves every other one alone. The lemmas are
  proved for every user of the server that keeps the contract (\<open>server_users\<close>).
\<close>

section \<open>Peers inside and outside of the server\<close>

lemma extend_simps [simp]:
  "p_Kcp (KcpPeer.extend p x) = p_Kcp p" "p_events (KcpPeer.extend p x) = p_events p"
  "p_State (KcpPeer.extend p x) = p_State p" "p_Cookie (KcpPeer.extend p x) = p_Cookie p"
  "p_received (KcpPeer.extend p x) = p_received p" "p_disconnectOnce (KcpPeer.extend p x) = p_disconnectOnce p"
  "sc_server (KcpPeer.extend p (server_conn.fields s)) = s"
  by (simp_all add: KcpPeer.defs server_conn.defs)

lemma truncate_simps [simp]:
  "p_Kcp (KcpPeer.truncate p) = p_Kcp p" "p_events (KcpPeer.truncate p) = p_events p"
  "p_State (KcpPeer.truncate p) = p_State p" "p_Cookie (KcpPeer.truncate p) = p_Cookie p"
  "p_received (KcpPeer.truncate p) = p_received p" "p_disconnectOnce (KcpPeer.truncate p) = p_disconnectOnce p"
  by (simp_all add: KcpPeer.defs)

text \<open>A connection of a server with the configuration \<open>cfg\<close>.\<close>

definition conn_fine :: "KcpConfig \<Rightarrow> 'a KcpPeer_scheme \<Rightarrow> bool" where
  "conn_fine cfg p \<longleftrightarrow> peer_fine p \<and> k_mtu (p_Kcp p) = k_mtu (reset_kcp cfg)"

lemma conn_fine_moves [simp]:
  "conn_fine cfg (KcpPeer.extend p x) = conn_fine cfg p" "conn_fine cfg (KcpPeer.truncate q) = conn_fine cfg q"
  by (simp_all add: conn_fine_def peer_fine_def peer_inv_def auth_log_def KcpPeer.defs)

lemma authenticated_moves [simp]:
  "authenticated (KcpPeer.extend p x) = authenticated p" "authenticated (KcpPeer.truncate q) = authenticated q"
  by (simp_all add: authenticated_def)

text \<open>The events the server reports of one connection; nothing is delivered before it is authenticated.\<close>

definition log_of :: "int \<Rightarrow> KcpServer \<Rightarrow> event list" where
  "log_of cid s = map snd (filter (\<lambda>x. fst x = cid) (sv_log s))"

definition no_early :: "event list \<Rightarrow> bool" where
  "no_early evs \<longleftrightarrow> (\<forall>e \<in> set (takeWhile (\<lambda>e. e \<noteq> EvAuthenticated) evs). \<not> is_data e)"

lemma no_early_append: "no_early (xs @ ys) \<longleftrightarrow> no_early xs \<and> (EvAuthenticated \<in> set xs \<or> no_early ys)"
  by (induction xs) (auto simp: no_early_def)

definition server_inv :: "KcpServer \<Rightarrow> bool" where
  "server_inv s \<longleftrightarrow> config_ok (sv_config s) \<and> sv_toRemove s \<subseteq> dom (sv_connections s)
     \<and> (\<forall>cid c. sv_connections s cid = Some c \<longrightarrow> conn_fine (sv_config s) c \<and> authenticated c)
     \<and> (\<forall>cid. no_early (log_of cid s) \<and> (sv_connections s cid \<noteq> None \<longrightarrow> EvAuthenticated \<in> set (log_of cid s)))"

text \<open>What an operation on the connection \<open>cid\<close> does to the server.\<close>

definition conn_after :: "int \<Rightarrow> KcpServer \<Rightarrow> KcpServer \<Rightarrow> bool" where
  "conn_after cid s s' \<longleftrightarrow> conn_rel cid (s\<lparr>sv_log := sv_log s'\<rparr>) s'
     \<and> (\<exists>evs. sv_log s' = sv_log s @ map (Pair cid) evs)"

lemma conn_after_others: "conn_after cid s s' \<Longrightarrow> j \<noteq> cid \<Longrightarrow> sv_connections s' j = sv_connections s j"
  by (simp add: conn_after_def conn_rel_def)

lemma conn_after_refl: "conn_after cid s s"
  by (simp add: conn_after_def)

definition conn_op :: "KcpConfig \<Rightarrow> int \<Rightarrow> (server_conn \<Rightarrow> server_conn option) \<Rightarrow> bool" where
  "conn_op cfg cid f \<longleftrightarrow> (\<forall>c. conn_fine cfg c \<longrightarrow>
     (\<exists>c'. f c = Some c' \<and> conn_fine cfg c' \<and> p_Cookie c' = p_Cookie c \<and> conn_frame cid c c'))"

lemma conn_op_bind:
  assumes "conn_op cfg cid f" and "conn_op cfg cid g"
  shows "conn_op cfg cid (\<lambda>c. do { c \<leftarrow> f c; g c })"
  unfolding conn_op_def
proof (intro allI impI)
  fix c :: server_conn
  assume "conn_fine cfg c"
  then obtain d where d: "f c = Some d" "conn_fine cfg d" "p_Cookie d = p_Cookie c" "conn_frame cid c d"
    using assms(1) unfolding conn_op_def by blast
  then obtain e where e: "g d = Some e" "conn_fine cfg e" "p_Cookie e = p_Cookie d" "conn_frame cid d e"
    using assms(2) unfolding conn_op_def by blast
  have "conn_frame cid c e" using conn_frame_trans[OF d(4) e(4)] .
  then show "\<exists>c'. (do { c \<leftarrow> f c; g c }) = Some c' \<and> conn_fine cfg c' \<and> p_Cookie c' = p_Cookie c \<and> conn_frame cid c c'"
    using d(1,3) e(1-3) by simp
qed

lemma conn_op_run:
  assumes "\<And>c :: server_conn. peer_inv c \<Longrightarrow> auth_log c \<Longrightarrow> run_from c (f c)" and "\<And>c. frames (conn_frame cid) c (f c)"
  shows "conn_op cfg cid f"
  unfolding conn_op_def
proof (intro allI impI)
  fix c :: server_conn
  assume c: "conn_fine cfg c"
  obtain d where d: "f c = Some d" "peer_run c d" using assms(1)[of c] c by (auto simp: conn_fine_def peer_fine_def run_from_def)
  have "conn_fine cfg d" "p_Cookie d = p_Cookie c"
    using c peer_fine_run[OF _ d(2)] d(2) by (simp_all add: conn_fine_def peer_run_def peer_fixed_def)
  then show "\<exists>c'. f c = Some c' \<and> conn_fine cfg c' \<and> p_Cookie c' = p_Cookie c \<and> conn_frame cid c c'"
    using d(1) assms(2)[of c] by (simp add: frames_def)
qed

text \<open>An operation on a connection, run in the server.\<close>

lemma on_connection_ok:
  assumes inv: "server_inv s" and op: "conn_op (sv_config s) cid f" and peer: "conn_fine (sv_config s) peer"
    and old: "if sv_connections s cid = None then p_events peer = [] else authenticated peer"
  shows "\<exists>s' c. on_connection cid f peer s = Some s' \<and> server_inv s' \<and> conn_after cid s s'
    \<and> sv_connections s' cid \<in> {None, Some c} \<and> p_Cookie c = p_Cookie peer"
proof -
  let ?c = "KcpPeer.extend peer (server_conn.fields s)"
  have "conn_fine (sv_config s) ?c" using peer by simp
  then obtain c where c: "f ?c = Some c" "conn_fine (sv_config s) c" "p_Cookie c = p_Cookie ?c" "conn_frame cid ?c c"
    using op unfolding conn_op_def by blast
  let ?s = "sc_server c"
  let ?s1 = "?s\<lparr>sv_log := sv_log ?s @ map (Pair cid) (drop (length (p_events peer)) (p_events c))\<rparr>"
  let ?s2 = "if sv_connections ?s1 cid = None then ?s1
    else ?s1\<lparr>sv_connections := (sv_connections ?s1)(cid \<mapsto> KcpPeer.truncate c)\<rparr>"
  have run: "on_connection cid f peer s = Some ?s2" using c(1) by (simp add: on_connection_def Let_def)
  have rel: "conn_rel cid s ?s" and ev: "prefix (p_events peer) (p_events c)"
    and new: "sv_connections s cid = None \<Longrightarrow> sv_connections ?s cid \<noteq> None \<Longrightarrow> authenticated c"
    using c(4) by (auto simp: conn_frame_def authenticated_def)
  have auth: "authenticated c" if "sv_connections ?s cid \<noteq> None"
    using old new[OF _ that] set_mono_prefix[OF ev] by (cases "sv_connections s cid") (auto simp: authenticated_def)
  have early: "no_early (p_events c)"
    using c(2) by (simp add: conn_fine_def peer_fine_def auth_log_def no_early_def)
  define t where "t = ?s2"
  have t: "sv_config t = sv_config s" "sv_toRemove t = sv_toRemove ?s" "sv_conn t = sv_conn s"
    "sv_log t = sv_log s @ map (Pair cid) (drop (length (p_events peer)) (p_events c))"
    "sv_connections t cid = (if sv_connections ?s cid = None then None else Some (KcpPeer.truncate c))"
    "j \<noteq> cid \<Longrightarrow> sv_connections t j = sv_connections s j" for j
    using rel by (simp_all add: t_def conn_rel_def)
  have r: "sv_connections s cid \<noteq> None \<Longrightarrow> sv_connections ?s cid \<noteq> None" "sv_toRemove s \<subseteq> sv_toRemove ?s"
    "sv_toRemove ?s \<subseteq> insert cid (sv_toRemove s)"
    "cid \<in> sv_toRemove ?s \<Longrightarrow> cid \<in> sv_toRemove s \<or> sv_connections ?s cid \<noteq> None"
    using rel unfolding conn_rel_def by blast+
  have here: "sv_connections t cid \<noteq> None \<longleftrightarrow> sv_connections ?s cid \<noteq> None" using t(5) by simp
  have "conn_rel cid (s\<lparr>sv_log := sv_log t\<rparr>) t"
    unfolding conn_rel_def using t(1-3,6) r here by simp
  then have "conn_after cid s t" using t(4) by (auto simp: conn_after_def)
  moreover have "server_inv t"
    unfolding server_inv_def
  proof (intro conjI allI impI)
    show "config_ok (sv_config t)" using inv t(1) by (simp add: server_inv_def)
    show "sv_toRemove t \<subseteq> dom (sv_connections t)"
    proof
      fix j
      assume j: "j \<in> sv_toRemove t"
      have d: "sv_toRemove s \<subseteq> dom (sv_connections s)" using inv by (simp add: server_inv_def)
      show "j \<in> dom (sv_connections t)"
        using j d r here t(2) t(6)[of j] by (cases "j = cid") auto
    qed
  next
    fix j d
    assume j: "sv_connections t j = Some d"
    then have "j = cid \<and> d = KcpPeer.truncate c \<and> sv_connections ?s cid \<noteq> None \<or> sv_connections s j = Some d"
      using t(5) t(6)[of j] by (cases "j = cid") (simp_all split: if_splits)
    then show "conn_fine (sv_config t) d" "authenticated d"
      using c(2) auth inv t(1) by (auto simp: server_inv_def)
  next
    fix j
    let ?evs = "drop (length (p_events peer)) (p_events c)"
    have log: "log_of cid t = log_of cid s @ ?evs" "j \<noteq> cid \<Longrightarrow> log_of j t = log_of j s"
      using t(4) by (simp_all add: log_of_def filter_map comp_def)
    have "no_early (log_of cid t) \<and> (sv_connections t cid \<noteq> None \<longrightarrow> EvAuthenticated \<in> set (log_of cid t))"
      using inv old early auth here unfolding log(1)
      by (auto simp: server_inv_def no_early_append authenticated_def split: if_splits)
    then have j: "no_early (log_of j t) \<and> (sv_connections t j \<noteq> None \<longrightarrow> EvAuthenticated \<in> set (log_of j t))"
      using log(2) t(6)[of j] inv by (cases "j = cid") (simp_all add: server_inv_def)
    show "no_early (log_of j t)" using j by simp
    show "EvAuthenticated \<in> set (log_of j t)" if "sv_connections t j \<noteq> None" using j that by simp
  qed
  moreover have "sv_connections t cid \<in> {None, Some (KcpPeer.truncate c)}" using t(5) by simp
  ultimately show ?thesis using run c(3) unfolding t_def[symmetric]
    by (intro exI[of _ t] exI[of _ "KcpPeer.truncate c"]) simp
qed

section \<open>The operations of a connection\<close>

context server_users begin

lemma conn_ops:
  "conn_op cfg cid (conn_Send kc pc (server_handler kc u cid) data channel)"
  "conn_op cfg cid (conn_Disconnect (server_handler kc u cid))"
  "conn_op cfg cid (conn_TickIncoming kc pc (server_handler kc u cid))"
  "conn_op cfg cid (conn_TickOutgoing kc pc (server_handler kc u cid))"
proof -
  note h = handler[of kc cid] and frame = handler_frame[of kc cid]
  note ok = peer_handler.SendData_ok[OF h] peer_handler.Disconnect_ok[OF h] peer_handler.TickOutgoing_ok[OF h]
    peer_handler.TickIncoming_ok[OF h]
  note frames = peer_frame.SendData_frame[OF frame] peer_frame.Disconnect_frame[OF frame]
    peer_frame.TickOutgoing_frame[OF frame] peer_frame.TickIncoming_frame[OF frame]
  show "conn_op cfg cid (conn_Send kc pc (server_handler kc u cid) data channel)"
    by (rule conn_op_run) (simp_all add: conn_Send_def run_from_ok ok frames)
  show "conn_op cfg cid (conn_Disconnect (server_handler kc u cid))"
    by (rule conn_op_run) (simp_all add: conn_Disconnect_def run_from_ok ok frames)
  show "conn_op cfg cid (conn_TickIncoming kc pc (server_handler kc u cid))"
    by (rule conn_op_run) (simp_all add: conn_TickIncoming_def ok frames)
  show "conn_op cfg cid (conn_TickOutgoing kc pc (server_handler kc u cid))"
    by (rule conn_op_run) (simp_all add: conn_TickOutgoing_def run_from_ok ok frames)
qed

lemma raw_op:
  assumes "config_ok cfg" and "int (length seg) \<le> cf_Mtu cfg"
  shows "conn_op cfg cid (conn_RawInput kc pc (server_handler kc u cid) seg)"
  unfolding conn_op_def
proof (intro allI impI)
  fix c :: server_conn
  let ?h = "server_handler kc u cid"
  assume c: "conn_fine cfg c"
  then have mtu: "k_mtu (p_Kcp c) = k_mtu (reset_kcp cfg)" by (simp add: conn_fine_def)
  have "length seg \<le> 5 + unat (k_mtu (p_Kcp c))"
    unfolding mtu using reset_kcp_inv(3)[OF assms(1)] assms(2) by linarith
  then obtain q where q: "conn_RawInput kc pc ?h seg c = Some q" "peer_fine q" "peer_fixed c q"
    using conn_RawInput_fine[OF _ handler[of kc cid], of c seg kc pc] c unfolding conn_fine_def by blast
  note frame = handler_frame[of kc cid]
  have "frames (conn_frame cid) c (conn_RawInput kc pc ?h seg c)"
    by (simp add: conn_RawInput_eq dispatch_def peer_frame.OnRawInputReliable_frame[OF frame]
        peer_frame.OnRawInputUnreliable_frame[OF frame] peer_frame.frames_refl[OF frame])
  then show "\<exists>c'. conn_RawInput kc pc ?h seg c = Some c' \<and> conn_fine cfg c' \<and> p_Cookie c' = p_Cookie c \<and> conn_frame cid c c'"
    using q c by (simp add: frames_def conn_fine_def peer_fixed_def)
qed

end

section \<open>The operations of the server\<close>

definition server_goes :: "KcpServer \<Rightarrow> KcpServer option \<Rightarrow> bool" where
  "server_goes s m \<longleftrightarrow> (\<exists>s'. m = Some s' \<and> server_inv s' \<and> sv_config s' = sv_config s
     \<and> sv_toRemove s \<subseteq> sv_toRemove s' \<and> prefix (sv_log s) (sv_log s'))"

lemma server_goes_refl: "server_inv s \<Longrightarrow> server_goes s (Some s)"
  by (simp add: server_goes_def)

lemma server_goes_bind:
  assumes "server_goes s m" and "\<And>s'. m = Some s' \<Longrightarrow> server_inv s' \<Longrightarrow> sv_config s' = sv_config s \<Longrightarrow> server_goes s' (f s')"
  shows "server_goes s (m \<bind> f)"
proof -
  obtain t where t: "m = Some t" "server_inv t" "sv_config t = sv_config s" "sv_toRemove s \<subseteq> sv_toRemove t"
    "prefix (sv_log s) (sv_log t)" using assms(1) unfolding server_goes_def by blast
  obtain r where "f t = Some r" "server_inv r" "sv_config r = sv_config t" "sv_toRemove t \<subseteq> sv_toRemove r"
    "prefix (sv_log t) (sv_log r)" using assms(2)[OF t(1-3)] unfolding server_goes_def by blast
  then show ?thesis using t prefix_order.trans[of "sv_log s" "sv_log t" "sv_log r"] by (auto simp: server_goes_def)
qed

lemma server_goes_after: "server_inv s' \<Longrightarrow> conn_after cid s s' \<Longrightarrow> server_goes s (Some s')"
  by (auto simp: server_goes_def conn_after_def conn_rel_def prefix_def)

lemma on_table_ok:
  assumes "server_inv s" and "sv_connections s cid = Some c" and "conn_op (sv_config s) cid f"
  shows "\<exists>s'. on_connection cid f c s = Some s' \<and> server_inv s' \<and> conn_after cid s s'"
proof -
  have "conn_fine (sv_config s) c" "authenticated c" using assms(1,2) by (auto simp: server_inv_def)
  then show ?thesis using on_connection_ok[OF assms(1,3), of c] assms(2) by fastforce
qed

lemma createConnection_ok:
  assumes "server_inv s"
  shows "\<exists>p. createConnection random s = Some p \<and> conn_fine (sv_config s) p \<and> p_Cookie p = GenerateCookie random
    \<and> new_peer (sv_config s) p"
proof -
  have ok: "config_ok (sv_config s)" using assms by (simp add: server_inv_def)
  obtain p where p: "createConnection random s = Some p" "p_Cookie p = GenerateCookie random"
    using NewKcpPeer_eq[OF ok, of "GenerateCookie random"] by (auto simp: createConnection_def NewKcpServerConnection_def)
  then have "new_peer (sv_config s) p"
    using NewKcpPeer_new[OF ok] by (auto simp: createConnection_def NewKcpServerConnection_def)
  moreover from this have "conn_fine (sv_config s) p"
    using new_peers_fine[OF ok, of p p] by (simp add: conn_fine_def peers_fine_def)
  ultimately show ?thesis using p by blast
qed

lemma server_each_ok:
  assumes "server_inv s" and "\<And>cid. conn_op (sv_config s) cid (f cid)"
  shows "server_goes s (server_each f ids s)"
  using assms
proof (induction ids arbitrary: s)
  case Nil
  then show ?case by (simp add: server_goes_refl)
next
  case (Cons cid ids)
  show ?case
  proof (cases "sv_connections s cid")
    case None
    then show ?thesis using Cons by simp
  next
    case (Some c)
    then obtain s' where "on_connection cid (f cid) c s = Some s'" "server_inv s'" "conn_after cid s s'"
      using on_table_ok[OF Cons.prems(1) Some Cons.prems(2)] by blast
    then have "server_goes s (on_connection cid (f cid) c s)" using server_goes_after by simp
    then show ?thesis using Some Cons by (auto intro: server_goes_bind)
  qed
qed

lemma server_remove_inv: "server_inv s \<Longrightarrow> server_inv (server_remove s)"
  by (auto simp: server_inv_def server_remove_def restrict_map_def log_of_def split: if_splits)

context server_users begin

lemma processMessage_ok:
  assumes inv: "server_inv s" and len: "int (length seg) \<le> cf_Mtu (sv_config s)"
  shows "\<exists>s'. processMessage kc pc u seg remote random s = Some s' \<and> server_inv s'
    \<and> conn_after (ConnectionHash remote) s s' \<and> (ConnectionHash remote \<in> sv_toRemove s \<longrightarrow> s' = s)
    \<and> (\<forall>c. sv_connections s (ConnectionHash remote) = None \<longrightarrow> sv_connections s' (ConnectionHash remote) = Some c
          \<longrightarrow> p_Cookie c = GenerateCookie random)"
proof -
  let ?cid = "ConnectionHash remote"
  have "config_ok (sv_config s)" using inv by (simp add: server_inv_def)
  note raw = raw_op[OF this len, of ?cid kc pc]
  consider "?cid \<in> sv_toRemove s" | c where "?cid \<notin> sv_toRemove s" "sv_connections s ?cid = Some c"
    | "?cid \<notin> sv_toRemove s" "sv_connections s ?cid = None" by blast
  then show ?thesis
  proof cases
    case 1
    then show ?thesis using inv by (simp add: processMessage_def conn_after_refl)
  next
    case 2
    then show ?thesis using on_table_ok[OF inv 2(2) raw] by (auto simp: processMessage_def)
  next
    case 3
    obtain p where p: "createConnection random s = Some p" "conn_fine (sv_config s) p" "p_Cookie p = GenerateCookie random"
        "p_events p = []"
      using createConnection_ok[OF inv, of random] by (auto simp: new_peer_def)
    have old: "if sv_connections s ?cid = None then p_events p = [] else authenticated p" using 3(2) p(4) by simp
    obtain s' c where "on_connection ?cid (\<lambda>c. do { c \<leftarrow> conn_RawInput kc pc (server_handler kc u ?cid) seg c;
          conn_TickIncoming kc pc (server_handler kc u ?cid) c }) p s = Some s'"
        "server_inv s'" "conn_after ?cid s s'" "sv_connections s' ?cid \<in> {None, Some c}" "p_Cookie c = p_Cookie p"
      using on_connection_ok[OF inv conn_op_bind[OF raw conn_ops(3)] p(2) old] by blast
    then show ?thesis using 3 p inv
      by (cases "stray_disconnect seg") (auto simp: processMessage_def Let_def conn_after_refl)
  qed
qed

lemma server_receive_ok:
  assumes "server_inv s" and "\<forall>(seg, remote, random) \<in> set segs. int (length seg) \<le> cf_Mtu (sv_config s)"
  shows "server_goes s (server_receive kc pc u segs s)"
  using assms
proof (induction segs arbitrary: s)
  case (Cons d segs)
  obtain seg remote random where d: "d = (seg, remote, random)" by (cases d) auto
  show ?case
  proof (cases "\<not> sv_conn s \<or> seg = []")
    case False
    have "int (length seg) \<le> cf_Mtu (sv_config s)" using Cons.prems(2) d by simp
    then obtain t where t: "processMessage kc pc u seg remote random s = Some t" "server_inv t" "conn_after (ConnectionHash remote) s t"
      using processMessage_ok[OF Cons.prems(1)] by blast
    have "server_goes s (processMessage kc pc u seg remote random s \<bind> server_receive kc pc u segs)"
      using server_goes_after[OF t(2,3)] t(1) Cons by (intro server_goes_bind) auto
    then show ?thesis unfolding d using False by simp
  qed (use Cons.prems(1) d in \<open>simp add: server_goes_refl\<close>)
qed (simp add: server_goes_refl)

lemma server_TickOutgoing_ok: "server_inv s \<Longrightarrow> server_goes s (server_TickOutgoing kc pc u order s)"
  unfolding server_TickOutgoing_def by (rule server_each_ok[OF _ conn_ops(4)])

lemma server_TickIncoming_ok:
  assumes "server_inv s" and "\<forall>(seg, remote, random) \<in> set segs. int (length seg) \<le> cf_Mtu (sv_config s)"
  shows "\<exists>s1 s2. server_receive kc pc u segs s = Some s1 \<and> server_inv s1
    \<and> server_each (\<lambda>cid. conn_TickIncoming kc pc (server_handler kc u cid)) (order s1) s1 = Some s2 \<and> server_inv s2
    \<and> sv_config s2 = sv_config s \<and> sv_toRemove s \<subseteq> sv_toRemove s2
    \<and> server_TickIncoming kc pc u segs order s = Some (server_remove s2)"
proof -
  obtain s1 where s1: "server_receive kc pc u segs s = Some s1" "server_inv s1" "sv_config s1 = sv_config s"
      "sv_toRemove s \<subseteq> sv_toRemove s1"
    using server_receive_ok[OF assms, of kc pc] unfolding server_goes_def by blast
  have each: "server_goes s1 (server_each (\<lambda>cid. conn_TickIncoming kc pc (server_handler kc u cid)) (order s1) s1)"
    by (rule server_each_ok[OF s1(2) conn_ops(3)])
  obtain s2 where "server_each (\<lambda>cid. conn_TickIncoming kc pc (server_handler kc u cid)) (order s1) s1 = Some s2"
      "server_inv s2" "sv_config s2 = sv_config s1" "sv_toRemove s1 \<subseteq> sv_toRemove s2"
    using each unfolding server_goes_def by blast
  then show ?thesis using s1 by (auto simp: server_TickIncoming_def)
qed

lemma on_table_goes:
  assumes "server_inv s" and "\<And>cid. conn_op (sv_config s) cid (f cid)"
  shows "server_goes s (case sv_connections s cid of None \<Rightarrow> Some s | Some c \<Rightarrow> on_connection cid (f cid) c s)"
proof (cases "sv_connections s cid")
  case None
  then show ?thesis using assms(1) by (simp add: server_goes_refl)
next
  case (Some c)
  then show ?thesis using on_table_ok[OF assms(1) Some assms(2)] server_goes_after by auto
qed

lemma server_Send_ok: "server_inv s \<Longrightarrow> server_goes s (server_Send kc pc u cid data channel s)"
  unfolding server_Send_def by (rule on_table_goes[OF _ conn_ops(1)])

lemma server_Disconnect_ok: "server_inv s \<Longrightarrow> server_goes s (server_Disconnect kc u cid s)"
  unfolding server_Disconnect_def by (rule on_table_goes[OF _ conn_ops(2)])

end

section \<open>Reachable servers\<close>

text \<open>The datagrams that \<open>RawReceive\<close> reads: at most as many bytes as the MTU.\<close>

definition short_datagrams :: "KcpConfig \<Rightarrow> (bytes \<times> Addr \<times> bytes option) list \<Rightarrow> bool" where
  "short_datagrams cfg segs \<longleftrightarrow> (\<forall>(seg, remote, random) \<in> set segs. int (length seg) \<le> cf_Mtu cfg)"

inductive server_reach :: "KcpConfig \<Rightarrow> server_user \<Rightarrow> KcpServer \<Rightarrow> bool" for cfg u where
  reach_new: "server_reach cfg u (NewKcpServer cfg)"
| reach_start: "server_reach cfg u s \<Longrightarrow> server_reach cfg u (s\<lparr>sv_conn := True\<rparr>)"
| reach_stop: "server_reach cfg u s \<Longrightarrow> server_reach cfg u (server_Stop s)"
| reach_in: "server_reach cfg u s \<Longrightarrow> short_datagrams cfg segs \<Longrightarrow> server_TickIncoming kc pc u segs order s = Some s'
     \<Longrightarrow> server_reach cfg u s'"
| reach_out: "server_reach cfg u s \<Longrightarrow> server_TickOutgoing kc pc u order s = Some s' \<Longrightarrow> server_reach cfg u s'"
| reach_send: "server_reach cfg u s \<Longrightarrow> server_Send kc pc u cid data channel s = Some s' \<Longrightarrow> server_reach cfg u s'"
| reach_disconnect: "server_reach cfg u s \<Longrightarrow> server_Disconnect kc u cid s = Some s' \<Longrightarrow> server_reach cfg u s'"

lemma server_inv_New: "config_ok cfg \<Longrightarrow> server_inv (NewKcpServer cfg)"
  by (simp add: server_inv_def NewKcpServer_def log_of_def no_early_def)

context server_users begin

lemma reach_inv:
  assumes "server_reach cfg u s" and "config_ok cfg"
  shows "server_inv s \<and> sv_config s = cfg"
  using assms(1)
proof (induction rule: server_reach.induct)
  case reach_new
  then show ?case using server_inv_New[OF assms(2)] by (simp add: NewKcpServer_def)
next
  case (reach_start s)
  then show ?case by (auto simp: server_inv_def log_of_def)
next
  case (reach_stop s)
  then show ?case by (auto simp: server_inv_def server_Stop_def log_of_def)
next
  case (reach_in s segs kc pc order s')
  have inv: "server_inv s" "sv_config s = cfg" using reach_in.IH by simp_all
  have short: "\<forall>(seg, remote, random) \<in> set segs. int (length seg) \<le> cf_Mtu (sv_config s)"
    using reach_in.hyps(2) inv(2) by (simp add: short_datagrams_def)
  obtain s2 where "server_inv s2" "sv_config s2 = sv_config s" "s' = server_remove s2"
    using server_TickIncoming_ok[OF inv(1) short, of kc pc order] reach_in.hyps(3) by auto
  then show ?case using server_remove_inv inv(2) by (simp add: server_remove_def)
next
  case (reach_out s kc pc order s')
  then show ?case using server_TickOutgoing_ok[of s kc pc order] by (simp add: server_goes_def)
next
  case (reach_send s kc pc cid data channel s')
  then show ?case using server_Send_ok[of s kc pc cid data channel] by (simp add: server_goes_def)
next
  case (reach_disconnect s kc cid s')
  then show ?case using server_Disconnect_ok[of s kc cid] by (simp add: server_goes_def)
qed

end

end
