(* ===== verification/Link_Session.thy ===== *)
theory Link_Session
  imports Server_Contract
begin

text \<open>
  A client and a connection of a server. They exchange raw datagrams over a network that may
  lose, repeat, delay and reorder them, and on which others may put what they like, as long as
  it is not of the reliable channel or does not carry the cookie of an authenticated connection.
  Each operation of either end is one that keeps the KCP session between them.
\<close>

section \<open>The client\<close>

definition client_accepts :: "bytes set \<Rightarrow> bytes \<Rightarrow> KcpClient \<Rightarrow> bool" where
  "client_accepts net seg c \<longleftrightarrow> trusted net seg \<or> p_Cookie c \<noteq> 0 \<and> raw_cookie seg \<noteq> p_Cookie c"

text \<open>The steps of a connected client, with the datagrams a tick reads.\<close>

inductive client_step :: "bytes set \<Rightarrow> user \<Rightarrow> KcpClient \<Rightarrow> KcpClient \<Rightarrow> bool" for net u where
  client_step_send: "client_Send kc pc u data channel c = Some c' \<Longrightarrow> client_step net u c c'"
| client_step_in: "\<forall>seg \<in> set segs. client_accepts net seg c \<Longrightarrow> client_TickIncoming kc pc u segs c = Some c'
     \<Longrightarrow> client_step net u c c'"
| client_step_out: "client_TickOutgoing kc pc u c = Some c' \<Longrightarrow> client_step net u c c'"
| client_step_disconnect: "client_Disconnect u c = Some c' \<Longrightarrow> client_step net u c c'"

lemma accepts_after:
  "client_accepts net seg c \<Longrightarrow> (p_Cookie c \<noteq> 0 \<longrightarrow> p_Cookie d = p_Cookie c) \<Longrightarrow> client_accepts net seg d"
  by (auto simp: client_accepts_def)

lemma client_receive_keeps:
  assumes u: "client_user u" and "peer_fine c" and "\<forall>d \<in> net. length d \<le> unat (k_mtu (p_Kcp c))"
    and "\<forall>seg \<in> set segs. client_accepts net seg c" and "client_receive n kc pc u segs c = Some c'"
  shows "step_keeps net c c'"
  using assms(2-)
proof (induction n arbitrary: segs c)
  case (Suc n)
  show ?case
  proof (cases "segs = [] \<or> \<not> cl_conn c \<or> hd segs = []")
    case True
    then show ?thesis using Suc.prems step_keeps_refl by (cases segs) auto
  next
    case False
    then obtain seg rest d where segs: "segs = seg # rest"
        and d: "client_RawInput kc pc u seg c = Some d" "client_receive n kc pc u rest d = Some c'"
      using Suc.prems(4) by (cases segs) (auto simp: bind_eq_Some_conv)
    have k: "step_keeps net c d \<and> (p_Cookie c \<noteq> 0 \<longrightarrow> p_Cookie d = p_Cookie c)"
      using client_RawInput_keeps[OF Suc.prems(1) u Suc.prems(2) _ d(1)] Suc.prems(3) segs by (simp add: client_accepts_def)
    have "step_keeps net d c'"
    proof (rule Suc.IH[OF _ _ _ d(2)])
      show "peer_fine d" "\<forall>e \<in> net. length e \<le> unat (k_mtu (p_Kcp d))"
        using k Suc.prems(2) by (simp_all add: step_keeps_def)
      show "\<forall>seg \<in> set rest. client_accepts net seg d"
        using k Suc.prems(3) segs by (auto intro: accepts_after)
    qed
    then show ?thesis using k step_keeps_trans by blast
  qed
qed (simp add: step_keeps_refl)

lemma client_step_keeps:
  assumes "client_step net u c c'" and u: "client_user u" and fine: "peer_fine c"
    and net: "\<forall>d \<in> net. length d \<le> unat (k_mtu (p_Kcp c))"
  shows "step_keeps net c c'"
proof -
  note h = client_user.handler[OF u]
  note keeps = peer_step_ok[OF _ h]
  show ?thesis
    using assms(1)
  proof cases
    case (client_step_send kc pc data channel)
    then have "c' = c \<or> SendData kc pc (client_handler u) data channel c = Some c'"
      by (auto simp: client_Send_def split: if_splits)
    then show ?thesis using keeps[OF step_send fine net] step_keeps_refl[OF fine] by blast
  next
    case (client_step_in segs kc pc)
    then obtain d where d: "(if cl_active c then client_receive 100 kc pc u segs c else Some c) = Some d"
        "(if cl_active d then peer_TickIncoming kc pc (client_handler u) d else Some d) = Some c'"
      by (auto simp: client_TickIncoming_def bind_eq_Some_conv)
    have k: "step_keeps net c d"
      using d(1) client_receive_keeps[OF u fine net client_step_in(1)] step_keeps_refl[OF fine] by (auto split: if_splits)
    then have f: "peer_fine d" "\<forall>e \<in> net. length e \<le> unat (k_mtu (p_Kcp d))" using net by (simp_all add: step_keeps_def)
    then have "step_keeps net d c'"
      using d(2) keeps[OF step_in f] step_keeps_refl[OF f(1)] by (auto split: if_splits)
    then show ?thesis using k step_keeps_trans by blast
  next
    case (client_step_out kc pc)
    then show ?thesis
      using keeps[OF step_out fine net] step_keeps_refl[OF fine] by (auto simp: client_TickOutgoing_def split: if_splits)
  next
    case client_step_disconnect
    then show ?thesis using keeps[OF step_disconnect fine net] by (simp add: client_Disconnect_def)
  qed
qed

section \<open>The connection\<close>

text \<open>
  The steps of a connection. Between two of them the rest of the server, which the connection's
  callbacks see, may change in any way.
\<close>

inductive conn_step :: "bytes set \<Rightarrow> (event \<Rightarrow> server_conn \<Rightarrow> server_conn option) \<Rightarrow> server_conn \<Rightarrow> server_conn \<Rightarrow> bool"
  for net h where
  conn_step_send: "conn_Send kc pc h data channel c = Some c' \<Longrightarrow> conn_step net h c c'"
| conn_step_raw: "trusted net seg \<or> p_State c = KcpAuthenticated \<and> raw_cookie seg \<noteq> p_Cookie c
     \<Longrightarrow> conn_RawInput kc pc h seg c = Some c' \<Longrightarrow> conn_step net h c c'"
| conn_step_in: "conn_TickIncoming kc pc h c = Some c' \<Longrightarrow> conn_step net h c c'"
| conn_step_out: "conn_TickOutgoing kc pc h c = Some c' \<Longrightarrow> conn_step net h c c'"
| conn_step_disconnect: "conn_Disconnect h c = Some c' \<Longrightarrow> conn_step net h c c'"
| conn_step_server: "conn_step net h c (c\<lparr>sc_server := s\<rparr>)"

lemma conn_step_keeps:
  assumes "conn_step net h c c'" and h: "peer_handler h" and fine: "peer_fine c"
    and net: "\<forall>d \<in> net. length d \<le> unat (k_mtu (p_Kcp c))"
  shows "step_keeps net c c'"
proof -
  note keeps = peer_step_ok[OF _ h fine net]
  show ?thesis
    using assms(1)
  proof cases
    case (conn_step_send kc pc data channel)
    then show ?thesis using keeps[OF step_send] by (simp add: conn_Send_def)
  next
    case (conn_step_raw seg kc pc)
    then show ?thesis using conn_RawInput_keeps[OF fine h net] by blast
  next
    case (conn_step_in kc pc)
    then show ?thesis using keeps[OF step_in] by (simp add: conn_TickIncoming_def)
  next
    case (conn_step_out kc pc)
    then show ?thesis using keeps[OF step_out] by (simp add: conn_TickOutgoing_def)
  next
    case conn_step_disconnect
    then show ?thesis using keeps[OF step_disconnect] by (simp add: conn_Disconnect_def)
  next
    case (conn_step_server s)
    then show ?thesis
      using fine by (simp add: step_keeps_def peer_fine_def peer_inv_def auth_log_def in_sync_def calm_def peer_end_def)
  qed
qed

section \<open>Both ends\<close>

inductive link_session ::
    "user \<Rightarrow> (event \<Rightarrow> server_conn \<Rightarrow> server_conn option) \<Rightarrow> KcpClient \<times> server_conn \<Rightarrow> KcpClient \<times> server_conn \<Rightarrow> bool"
  for u h start where
  link_start: "link_session u h start start"
| link_client: "link_session u h start (c, d) \<Longrightarrow> client_step (set (outs (p_events d))) u c c' \<Longrightarrow> link_session u h start (c', d)"
| link_conn: "link_session u h start (c, d) \<Longrightarrow> conn_step (set (outs (p_events c))) h d d' \<Longrightarrow> link_session u h start (c, d')"

lemma link_session_fine:
  assumes "link_session u h (c0, d0) s" and u: "client_user u" and h: "peer_handler h"
    and fine: "peers_fine mtu mss c0 d0"
  shows "peers_fine mtu mss (fst s) (snd s)"
  using assms(1)
proof (induction rule: link_session.induct)
  case link_start
  then show ?case using fine by simp
next
  case (link_client c d c')
  have f: "peers_fine mtu mss c d" using link_client(3) by simp
  then have "peer_fine c" by (simp add: peers_fine_def)
  then show ?case
    using peers_fine_keeps[OF client_step_keeps[OF link_client(2) u _ peers_fine_net[OF f]] f] by simp
next
  case (link_conn c d d')
  have f: "peers_fine mtu mss d c" using link_conn(3) peers_fine_sym by simp
  then have "peer_fine d" by (simp add: peers_fine_def)
  then have "peers_fine mtu mss d' c"
    using peers_fine_keeps[OF conn_step_keeps[OF link_conn(2) h _ peers_fine_net[OF f]] f] by simp
  then show ?case using peers_fine_sym by simp
qed

text \<open>The start: a new client has connected, and the server has a connection for it.\<close>

lemma new_peer_extend: "new_peer cfg p \<Longrightarrow> new_peer cfg (KcpPeer.extend p x)"
  by (auto simp: new_peer_def peer_inv_def KcpPeer.defs)

lemma client_extend_simps:
  "cl_config (KcpPeer.extend p (KcpClient.fields cfg a b d)) = cfg"
  "cl_conn (KcpPeer.extend p (KcpClient.fields cfg a b d)) = a"
  "cl_active (KcpPeer.extend p (KcpClient.fields cfg a b d)) = b"
  "cl_connected (KcpPeer.extend p (KcpClient.fields cfg a b d)) = d"
  by (simp_all add: KcpPeer.defs KcpClient.defs)

lemma NewKcpClient_new:
  assumes "config_ok cfg"
  shows "\<exists>c. NewKcpClient cfg = Some c \<and> new_peer cfg c \<and> cl_config c = cfg \<and> \<not> cl_connected c \<and> \<not> cl_active c \<and> p_Cookie c = 0"
proof -
  obtain p where p: "NewKcpPeer 0 cfg = Some p" "p_Cookie p = 0" using NewKcpPeer_eq[OF assms, of 0] by blast
  have "new_peer cfg (KcpPeer.extend p (KcpClient.fields cfg False False False))"
    by (rule new_peer_extend[OF NewKcpPeer_new[OF assms p(1)]])
  moreover have "NewKcpClient cfg = Some (KcpPeer.extend p (KcpClient.fields cfg False False False))"
    unfolding NewKcpClient_def p(1) option.map(2) ..
  moreover have "p_Cookie (KcpPeer.extend p (KcpClient.fields cfg False False False)) = 0"
    unfolding extend_simps p(2) ..
  ultimately show ?thesis using client_extend_simps(1,3,4)[of p cfg False False False] by blast
qed

lemma new_peer_flags: "new_peer cfg c \<Longrightarrow> new_peer cfg (c\<lparr>cl_conn := a, cl_active := b\<rparr>)"
  by (auto simp: new_peer_def peer_inv_def)

text \<open>A successful \<open>Connect\<close> resets the peer and says hello.\<close>

lemma Connect_resets:
  assumes "config_ok (cl_config c)" and "\<not> cl_connected c" and "Connect kc u True True c = Some (err, c1)"
  shows "\<exists>c'. peer_Reset (cl_config c) c = Some c' \<and> \<not> err
    \<and> SendHello kc (client_handler u) (c'\<lparr>cl_conn := True, cl_active := True\<rparr>) = Some c1"
proof -
  obtain c' where "peer_Reset (cl_config c) c = Some c'" using Reset_eq[OF assms(1)] by blast
  then show ?thesis using assms(2,3) by (auto simp: Connect_def bind_eq_Some_conv)
qed

lemma Reset_new:
  assumes "config_ok cfg" and "new_peer cfg p" and "peer_Reset cfg p = Some q"
  shows "new_peer cfg q"
  using assms(2) Reset_inv[OF assms(1,3)] Reset_eq[OF assms(1), of p] assms(3) by (auto simp: new_peer_def)

lemma link_start_fine:
  assumes ok: "config_ok cfg" and u: "client_user u" and c0: "NewKcpClient cfg = Some c0"
    and c1: "Connect kc u True True c0 = Some (err, c1)" and d: "NewKcpServerConnection cfg cookie = Some d"
  shows "peers_fine (k_mtu (reset_kcp cfg)) (k_mss (reset_kcp cfg)) c1 (KcpPeer.extend d x)"
proof -
  let ?d = "KcpPeer.extend d x"
  have new: "new_peer cfg c0" "cl_config c0 = cfg" "\<not> cl_connected c0" using NewKcpClient_new[OF ok] c0 by auto
  then obtain c' where c': "peer_Reset cfg c0 = Some c'"
      "SendHello kc (client_handler u) (c'\<lparr>cl_conn := True, cl_active := True\<rparr>) = Some c1"
    using Connect_resets[of c0 kc u err c1] ok c1 by auto
  let ?c = "c'\<lparr>cl_conn := True, cl_active := True\<rparr>"
  have "new_peer cfg ?c" using Reset_new[OF ok new(1) c'(1)] by (rule new_peer_flags)
  moreover have "new_peer cfg ?d"
    using new_peer_extend[OF NewKcpPeer_new[OF ok, of cookie d]] d by (simp add: NewKcpServerConnection_def)
  ultimately have f: "peers_fine (k_mtu (reset_kcp cfg)) (k_mss (reset_kcp cfg)) ?c ?d"
    by (rule new_peers_fine[OF ok])
  then show ?thesis
    using peers_fine_step[OF step_hello[OF c'(2)] client_user.handler[OF u] f] by simp
qed

end
