(* ===== verification/Client_Frame.thy ===== *)
theory Client_Frame
  imports Link_Session
begin

text \<open>
  What a client tells its user of the connection. A user is discreet when its callbacks do not touch
  the client's flag that it is connected; then the flag is raised only together with the call of
  \<open>OnConnected\<close>. A client that has learned a cookie keeps it until the next \<open>Connect\<close>.
\<close>

definition told :: "KcpClient \<Rightarrow> KcpClient \<Rightarrow> bool" where
  "told c c' \<longleftrightarrow> prefix (p_events c) (p_events c')
     \<and> (cl_connected c' \<longrightarrow> cl_connected c \<or> EvAuthenticated \<in> set (p_events c'))"

lemma told_trans: "told c d \<Longrightarrow> told d e \<Longrightarrow> told c e"
  unfolding told_def using set_mono_prefix by (metis prefix_order.trans subsetD)

lemma told_same: "KcpPeer.more d = KcpPeer.more c \<Longrightarrow> p_events d = p_events c @ evs \<Longrightarrow> told c d"
  by (cases c, cases d) (simp add: told_def)

locale discreet_user = client_user +
  assumes discreet: "u ev c = Some c' \<Longrightarrow> prefix (p_events c) (p_events c') \<and> cl_connected c' = cl_connected c"

sublocale discreet_user \<subseteq> flag: peer_frame "client_handler u" told
proof unfold_locales
  fix ev and p q :: KcpClient
  assume ev: "ev \<in> set (p_events p)" and h: "client_handler u ev p = Some q"
  have "ev \<in> set (p_events q)" if "prefix (p_events p) (p_events q)" using ev set_mono_prefix[OF that] by blast
  then show "told p q"
    using h by (auto simp: client_handler_def client_OnAuthenticated_def client_OnData_def client_OnDisconnected_def
        client_OnError_def told_def dest!: discreet split: event.splits)
qed (auto intro: told_same told_trans)

context discreet_user begin

lemma told_frame: "peer_frame (client_handler u) told"
  by unfold_locales

lemma dispatch_told: "frames told c (dispatch kc pc (client_handler u) seg c)"
  by (simp add: dispatch_def flag.OnRawInputReliable_frame flag.OnRawInputUnreliable_frame)

lemma RawInput_told: "frames told c (client_RawInput kc pc u seg c)"
proof -
  have "told c (with_cookie k c)" for k
    by (rule told_same[where evs = "[]"]) (simp_all add: with_cookie_def)
  then show ?thesis
    using flag.frames_from[OF _ dispatch_told] by (simp add: client_RawInput_eq)
qed

lemma receive_told: "frames told c (client_receive n kc pc u segs c)"
proof (induction n arbitrary: segs c)
  case (Suc n)
  then show ?case by (cases segs) (auto intro: flag.frames_bind RawInput_told)
qed simp

lemma client_step_told:
  assumes "client_step net u c c'"
  shows "told c c'"
  using assms
proof cases
  case (client_step_send kc pc data channel)
  then show ?thesis
    using flag.SendData_frame[of c kc pc data channel] flag.refl[of c]
    by (auto simp: client_Send_def frames_def split: if_splits)
next
  case (client_step_in segs kc pc)
  have "frames told c (client_TickIncoming kc pc u segs c)"
    unfolding client_TickIncoming_def
    by (rule flag.frames_bind) (simp_all add: receive_told flag.TickIncoming_frame)
  then show ?thesis using client_step_in(2) by (simp add: frames_def)
next
  case (client_step_out kc pc)
  then show ?thesis
    using flag.TickOutgoing_frame[of c kc pc] flag.refl[of c] by (auto simp: client_TickOutgoing_def frames_def split: if_splits)
next
  case client_step_disconnect
  then show ?thesis using flag.Disconnect_frame[of c] by (simp add: client_Disconnect_def frames_def)
qed

end

interpretation printing: discreet_user print_user
  by unfold_locales (simp add: print_user_def)

section \<open>The cookie\<close>

lemma run_from_cookie: "run_from c (Some c') \<Longrightarrow> p_Cookie c' = p_Cookie c"
  by (simp add: run_from_def peer_run_def peer_fixed_def)

lemma client_receive_cookie:
  assumes u: "client_user u" and "peer_fine c" and "\<forall>d \<in> net. length d \<le> unat (k_mtu (p_Kcp c))"
    and "\<forall>seg \<in> set segs. client_accepts net seg c" and "client_receive n kc pc u segs c = Some c'" and "p_Cookie c \<noteq> 0"
  shows "p_Cookie c' = p_Cookie c"
  using assms(2-)
proof (induction n arbitrary: segs c)
  case (Suc n)
  show ?case
  proof (cases "segs = [] \<or> \<not> cl_conn c \<or> hd segs = []")
    case True
    then show ?thesis using Suc.prems(4) by (cases segs) auto
  next
    case False
    then obtain seg rest d where segs: "segs = seg # rest"
        and d: "client_RawInput kc pc u seg c = Some d" "client_receive n kc pc u rest d = Some c'"
      using Suc.prems(4) by (cases segs) (auto simp: bind_eq_Some_conv)
    have k: "step_keeps net c d \<and> (p_Cookie c \<noteq> 0 \<longrightarrow> p_Cookie d = p_Cookie c)"
      using client_RawInput_keeps[OF Suc.prems(1) u Suc.prems(2) _ d(1)] Suc.prems(3) segs by (simp add: client_accepts_def)
    then have cd: "p_Cookie d = p_Cookie c" using Suc.prems(5) by simp
    have "p_Cookie c' = p_Cookie d"
    proof (rule Suc.IH[OF _ _ _ d(2)])
      show "peer_fine d" "\<forall>e \<in> net. length e \<le> unat (k_mtu (p_Kcp d))" "p_Cookie d \<noteq> 0"
        using k Suc.prems(2,5) by (simp_all add: step_keeps_def)
      show "\<forall>seg \<in> set rest. client_accepts net seg d"
        using k Suc.prems(3) segs by (auto intro: accepts_after)
    qed
    then show ?thesis using cd by simp
  qed
qed simp

lemma client_step_cookie:
  assumes "client_step net u c c'" and u: "client_user u" and fine: "peer_fine c"
    and net: "\<forall>d \<in> net. length d \<le> unat (k_mtu (p_Kcp c))" and "p_Cookie c \<noteq> 0"
  shows "p_Cookie c' = p_Cookie c"
proof -
  note h = client_user.handler[OF u]
  have inv: "peer_inv c" using fine by (simp add: peer_fine_def)
  note ok = run_from_cookie[OF run_from_ok]
  show ?thesis
    using assms(1)
  proof cases
    case (client_step_send kc pc data channel)
    then show ?thesis
      using ok[of c c'] peer_handler.SendData_ok[OF h inv, of kc pc data channel] by (auto simp: client_Send_def split: if_splits)
  next
    case (client_step_in segs kc pc)
    then obtain d where d: "(if cl_active c then client_receive 100 kc pc u segs c else Some c) = Some d"
        "(if cl_active d then peer_TickIncoming kc pc (client_handler u) d else Some d) = Some c'"
      by (auto simp: client_TickIncoming_def bind_eq_Some_conv)
    have "p_Cookie d = p_Cookie c"
      using d(1) client_receive_cookie[OF u fine net client_step_in(1) _ assms(5)] by (auto split: if_splits)
    moreover have "peer_fine d"
      using d(1) client_receive_keeps[OF u fine net client_step_in(1)] fine by (auto simp: step_keeps_def split: if_splits)
    then have "p_Cookie c' = p_Cookie d"
      using d(2) peer_handler.TickIncoming_ok[OF h, of d kc pc] run_from_cookie[of d c']
      by (auto simp: peer_fine_def split: if_splits)
    ultimately show ?thesis by simp
  next
    case (client_step_out kc pc)
    then show ?thesis
      using ok[of c c'] peer_handler.TickOutgoing_ok[OF h inv, of kc pc] by (auto simp: client_TickOutgoing_def split: if_splits)
  next
    case client_step_disconnect
    then show ?thesis using ok[of c c'] peer_handler.Disconnect_ok[OF h inv] by (simp add: client_Disconnect_def)
  qed
qed

section \<open>A client whose first datagram came from a connection that is gone\<close>

text \<open>
  The client and a connection that has said nothing: from then on the client takes in only what that
  connection has put on the wire, acknowledgements at most, and never hears of a connection.
\<close>

lemma link_clients:
  assumes "link_session u h start (c, d)" and "(client_step (set (outs (p_events d))) u)\<^sup>*\<^sup>* c c'"
  shows "link_session u h start (c', d)"
  using assms(2) by (induction rule: rtranclp_induct) (auto intro: assms(1) link_client)

lemma link_told:
  assumes "discreet_user u" and "link_session u h (c0, d0) s"
  shows "told c0 (fst s)"
  using assms(2)
proof (induction rule: link_session.induct)
  case link_start
  show ?case by (simp add: told_def)
next
  case (link_client c d c')
  then show ?case using told_trans discreet_user.client_step_told[OF assms(1)] by fastforce
qed simp

lemma nothing_heard:
  assumes "peers_fine mtu mss c d" and "p_sent d = []" and "seg_total (unat mss) (p_sent c) < 2 ^ 32"
  shows "p_received c = [] \<and> EvAuthenticated \<notin> set (p_events c) \<and> p_State c \<noteq> KcpAuthenticated"
proof -
  have "session_ok (peer_end c) (peer_end d)" using assms by (simp add: peers_fine_def seg_total_def)
  then have "prefix (p_received c) (p_sent d)"
    using session_ok_delivers[of "peer_end c" "peer_end d"] by (simp add: peer_end_def)
  then have "p_received c = []" using assms(2) by simp
  moreover have "auth_log c" using assms(1) by (simp add: peers_fine_def peer_fine_def)
  ultimately show ?thesis by (auto simp: auth_log_def hello_in_def)
qed

lemma client_steps_cookie:
  assumes "(client_step (set (outs (p_events d))) u)\<^sup>*\<^sup>* c c'" and u: "client_user u" and fine: "peers_fine mtu mss c d"
    and "p_Cookie c \<noteq> 0"
  shows "p_Cookie c' = p_Cookie c"
proof -
  have "peers_fine mtu mss c' d \<and> p_Cookie c' = p_Cookie c"
    using assms(1)
  proof (induction rule: rtranclp_induct)
    case base
    show ?case using fine by simp
  next
    case (step e e')
    then have f: "peers_fine mtu mss e d" "peer_fine e" by (simp_all add: peers_fine_def)
    have "peers_fine mtu mss e' d"
      by (rule peers_fine_keeps[OF client_step_keeps[OF step(2) u f(2) peers_fine_net[OF f(1)]] f(1)])
    then show ?case
      using client_step_cookie[OF step(2) u f(2) peers_fine_net[OF f(1)]] step(3) assms(4) by simp
  qed
  then show ?thesis by simp
qed

lemma Connect_told:
  assumes "config_ok cfg" and u: "discreet_user u" and "NewKcpClient cfg = Some c0"
    and "Connect kc u True True c0 = Some (err, c1)"
  shows "\<not> cl_connected c1 \<or> EvAuthenticated \<in> set (p_events c1)"
proof -
  have new: "cl_config c0 = cfg" "\<not> cl_connected c0" using NewKcpClient_new[OF assms(1)] assms(3) by auto
  obtain c' where c': "peer_Reset cfg c0 = Some c'"
      "SendHello kc (client_handler u) (c'\<lparr>cl_conn := True, cl_active := True\<rparr>) = Some c1"
    using Connect_resets[of c0 kc u err c1] assms(1,4) new by auto
  have "cl_connected c' = cl_connected c0" using c'(1) unfolding Reset_eq[OF assms(1)] by auto
  then show ?thesis
    using c'(2) peer_frame.SendHello_frame[OF discreet_user.told_frame[OF u], of "c'\<lparr>cl_conn := True, cl_active := True\<rparr>" kc] new(2)
    by (auto simp: frames_def told_def)
qed

lemma print_discreet: "discreet_user print_user"
  by unfold_locales

end
