(* ===== verification/Server_Examples.thy ===== *)
theory Server_Examples
  imports Client_Frame Peer_Examples
begin

text \<open>
  Runs of a client and a server of a small configuration, evaluated. In the first, a client and
  the echo server shake hands, and a message is echoed; in the second, the first datagram of
  the client is lost and its ping arrives at the server before its hello.
\<close>

definition raw_sends :: "event list \<Rightarrow> bytes list" where
  "raw_sends evs = concat (map (\<lambda>ev. case ev of EvRawSend d \<Rightarrow> [d] | _ \<Rightarrow> []) evs)"

definition demo_addr :: Addr where
  "demo_addr = UDPAddr [127, 0, 0, 1] 4000"

definition demo_id :: int where
  "demo_id = ConnectionHash demo_addr"

definition demo_server :: KcpServer where
  "demo_server = (NewKcpServer demo_config)\<lparr>sv_conn := True\<rparr>"

abbreviation (input) at :: "u32 \<Rightarrow> clock" where
  "at t \<equiv> \<lambda>_. t"

section \<open>The echo\<close>

text \<open>What the client is given: the hello of the server in \<open>ds2\<close>, the echo in \<open>ds4\<close>.\<close>

definition demo_client_run :: "bytes list \<Rightarrow> bytes list \<Rightarrow> KcpClient option" where
  "demo_client_run ds2 ds4 = do {
     c \<leftarrow> NewKcpClient demo_config;
     (_, c) \<leftarrow> Connect (at 100) print_user True True c;
     c \<leftarrow> client_TickOutgoing (at 100) (at 100) print_user c;
     c \<leftarrow> client_TickIncoming (at 100) (at 100) print_user ds2 c;
     c \<leftarrow> client_Send (at 100) (at 100) print_user [72, 105] KcpReliable c;
     c \<leftarrow> client_TickOutgoing (at 100) (at 100) print_user c;
     client_TickIncoming (at 100) (at 100) print_user ds4 c
   }"

text \<open>What the server is given, two ticks of datagrams from one address.\<close>

definition demo_server_run :: "bytes list \<Rightarrow> bytes list \<Rightarrow> KcpServer option" where
  "demo_server_run ds1 ds3 = do {
     s \<leftarrow> server_Tick (at 100) (at 100) (echo_user (at 100) (at 100)) (map (\<lambda>d. (d, demo_addr, Some [1, 2, 3, 4])) ds1)
            (\<lambda>s. [demo_id]) demo_server;
     server_Tick (at 100) (at 100) (echo_user (at 100) (at 100)) (map (\<lambda>d. (d, demo_addr, None)) ds3) (\<lambda>s. [demo_id]) s
   }"

definition demo_ds1 :: "bytes list" where
  "demo_ds1 =
    [[1, 0, 0, 0, 0, 0, 0, 0, 0, 81, 0, 2, 0, 100, 0, 0, 0, 0, 0, 0, 0, 0, 0, 0, 0, 1, 0, 0, 0, 1]]"

definition demo_ds2 :: "bytes list" where
  "demo_ds2 =
    [[1, 1, 2, 3, 4, 0, 0, 0, 0, 82, 0, 1, 0, 100, 0, 0, 0, 0, 0, 0, 0, 1, 0, 0, 0, 0, 0, 0, 0],
     [1, 1, 2, 3, 4, 0, 0, 0, 0, 81, 0, 2, 0, 100, 0, 0, 0, 0, 0, 0, 0, 1, 0, 0, 0, 1, 0, 0, 0, 1]]"

definition demo_ds3 :: "bytes list" where
  "demo_ds3 =
    [[1, 1, 2, 3, 4, 0, 0, 0, 0, 82, 0, 1, 0, 100, 0, 0, 0, 0, 0, 0, 0, 1, 0, 0, 0, 0, 0, 0, 0],
     [1, 1, 2, 3, 4, 0, 0, 0, 0, 81, 0, 2, 0, 100, 0, 0, 0, 1, 0, 0, 0, 1, 0, 0, 0, 3, 0, 0, 0, 3, 72, 105]]"

definition demo_ds4 :: "bytes list" where
  "demo_ds4 =
    [[1, 1, 2, 3, 4, 0, 0, 0, 0, 82, 0, 1, 0, 100, 0, 0, 0, 1, 0, 0, 0, 2, 0, 0, 0, 0, 0, 0, 0],
     [1, 1, 2, 3, 4, 0, 0, 0, 0, 81, 0, 2, 0, 100, 0, 0, 0, 1, 0, 0, 0, 2, 0, 0, 0, 9, 0, 0, 0, 3, 69, 99, 104, 111, 58, 32, 72, 105]]"

lemma demo_client_run:
  "map_option (\<lambda>c. (raw_sends (p_events c), delivered (p_events c), cl_connected c)) (demo_client_run demo_ds2 demo_ds4)
     = Some (demo_ds1 @ demo_ds3 @ [[1, 1, 2, 3, 4, 0, 0, 0, 0, 82, 0, 1, 0, 100, 0, 0, 0, 1, 0, 0, 0, 2, 0, 0, 0, 0, 0, 0, 0]],
             [[69, 99, 104, 111, 58, 32, 72, 105]], True)"
  by code_simp

lemma demo_server_run:
  "map_option (\<lambda>s. (raw_sends (map snd (sv_log s)), delivered (map snd (sv_log s)),
        map_option p_disconnectOnce (sv_connections s demo_id)))
      (demo_server_run demo_ds1 demo_ds3)
     = Some (demo_ds2 @ demo_ds4, [[72, 105]], Some False)"
  by code_simp

text \<open>The same exchange as a session of the client and its connection, one operation at a time.\<close>

abbreviation (input) demo_handler :: "event \<Rightarrow> server_conn \<Rightarrow> server_conn option" where
  "demo_handler \<equiv> server_handler (at 100) (echo_user (at 100) (at 100)) demo_id"

definition link_client_start :: "KcpClient option" where
  "link_client_start = do {
     c \<leftarrow> NewKcpClient demo_config;
     (_, c) \<leftarrow> Connect (at 100) print_user True True c;
     client_TickOutgoing (at 100) (at 100) print_user c
   }"

definition link_client_data :: "bytes list \<Rightarrow> KcpClient \<Rightarrow> KcpClient option" where
  "link_client_data ds c = do {
     c \<leftarrow> client_TickIncoming (at 100) (at 100) print_user ds c;
     c \<leftarrow> client_Send (at 100) (at 100) print_user [72, 105] KcpReliable c;
     client_TickOutgoing (at 100) (at 100) print_user c
   }"

definition link_conn_start :: "bytes \<Rightarrow> server_conn option" where
  "link_conn_start m = do {
     d \<leftarrow> NewKcpServerConnection demo_config 0x04030201;
     d \<leftarrow> conn_RawInput (at 100) (at 100) demo_handler m (KcpPeer.extend d (server_conn.fields demo_server));
     d \<leftarrow> conn_TickIncoming (at 100) (at 100) demo_handler d;
     conn_TickOutgoing (at 100) (at 100) demo_handler d
   }"

definition link_conn_data :: "bytes \<Rightarrow> server_conn \<Rightarrow> server_conn option" where
  "link_conn_data m d = do {
     d \<leftarrow> conn_RawInput (at 100) (at 100) demo_handler m d;
     conn_TickIncoming (at 100) (at 100) demo_handler d
   }"

lemma link_client_runs:
  "map_option (\<lambda>(a, b). (raw_sends (p_events a), raw_sends (p_events b), p_sent b))
     (do { a \<leftarrow> link_client_start; b \<leftarrow> link_client_data demo_ds2 a; Some (a, b) })
   = Some (demo_ds1, demo_ds1 @ demo_ds3, [[1], [3, 72, 105]])"
  by code_simp

lemma link_conn_runs:
  "map_option (\<lambda>(a, b). (raw_sends (p_events a), delivered (p_events b), p_sent b))
     (do { a \<leftarrow> link_conn_start (demo_ds1 ! 0); b \<leftarrow> link_conn_data (demo_ds3 ! 1) a; Some (a, b) })
   = Some (demo_ds2, [[72, 105]], [[1], [3, 69, 99, 104, 111, 58, 32, 72, 105]])"
  by code_simp

lemma raw_sends_iff: "d \<in> set (raw_sends evs) \<longleftrightarrow> EvRawSend d \<in> set evs"
  by (induction evs) (auto simp: raw_sends_def split: event.split)

lemma raw_sends_trusted: "d \<in> set (raw_sends evs) \<Longrightarrow> trusted (set (outs evs)) d"
  using raw_sends_iff trusted_wire by blast

lemma print_handler: "client_user print_user"
  by unfold_locales

lemma echo_users: "server_users (echo_user kc pc)"
  by unfold_locales

lemma demo_handler: "peer_handler demo_handler"
  by (rule server_users.handler[OF echo_users])

lemma demo_link_states:
  "\<exists>c0 err c1 d0 c d a x. NewKcpClient demo_config = Some c0 \<and> Connect (at 100) print_user True True c0 = Some (err, c1)
     \<and> NewKcpServerConnection demo_config 0x04030201 = Some d0
     \<and> link_session print_user demo_handler (c1, KcpPeer.extend d0 (server_conn.fields demo_server)) (c, d)
     \<and> p_sent c = [[1], [3, 72, 105]] \<and> p_sent d = [[1], [3, 69, 99, 104, 111, 58, 32, 72, 105]]
     \<and> delivered (p_events d) = [[72, 105]] \<and> link_client_start = Some a \<and> link_client_data demo_ds2 a = Some c
     \<and> link_conn_start (demo_ds1 ! 0) = Some x \<and> link_conn_data (demo_ds3 ! 1) x = Some d"
proof -
  obtain a c where a: "link_client_start = Some a" "link_client_data demo_ds2 a = Some c" "raw_sends (p_events a) = demo_ds1"
      "raw_sends (p_events c) = demo_ds1 @ demo_ds3" "p_sent c = [[1], [3, 72, 105]]"
    using link_client_runs by (auto simp: bind_eq_Some_conv)
  obtain x d where x: "link_conn_start (demo_ds1 ! 0) = Some x" "link_conn_data (demo_ds3 ! 1) x = Some d"
      "raw_sends (p_events x) = demo_ds2" "delivered (p_events d) = [[72, 105]]"
      "p_sent d = [[1], [3, 69, 99, 104, 111, 58, 32, 72, 105]]"
    using link_conn_runs by (auto simp: bind_eq_Some_conv)
  obtain c0 err c1 where c: "NewKcpClient demo_config = Some c0" "Connect (at 100) print_user True True c0 = Some (err, c1)"
      "client_TickOutgoing (at 100) (at 100) print_user c1 = Some a"
    using a(1) by (auto simp: link_client_start_def bind_eq_Some_conv)
  obtain a1 a2 where b: "client_TickIncoming (at 100) (at 100) print_user demo_ds2 a = Some a1"
      "client_Send (at 100) (at 100) print_user [72, 105] KcpReliable a1 = Some a2"
      "client_TickOutgoing (at 100) (at 100) print_user a2 = Some c"
    using a(2) by (auto simp: link_client_data_def bind_eq_Some_conv)
  obtain d0 x1 x2 where d: "NewKcpServerConnection demo_config 0x04030201 = Some d0"
      "conn_RawInput (at 100) (at 100) demo_handler (demo_ds1 ! 0) (KcpPeer.extend d0 (server_conn.fields demo_server)) = Some x1"
      "conn_TickIncoming (at 100) (at 100) demo_handler x1 = Some x2"
      "conn_TickOutgoing (at 100) (at 100) demo_handler x2 = Some x"
    using x(1) by (auto simp: link_conn_start_def bind_eq_Some_conv)
  obtain y where y: "conn_RawInput (at 100) (at 100) demo_handler (demo_ds3 ! 1) x = Some y"
      "conn_TickIncoming (at 100) (at 100) demo_handler y = Some d"
    using x(2) by (auto simp: link_conn_data_def bind_eq_Some_conv)
  let ?S = "link_session print_user demo_handler (c1, KcpPeer.extend d0 (server_conn.fields demo_server))"
  have t1: "trusted (set (outs (p_events a))) (demo_ds1 ! 0)"
    by (rule raw_sends_trusted) (simp add: a(3) demo_ds1_def)
  have t2: "\<forall>seg \<in> set demo_ds2. client_accepts (set (outs (p_events x))) seg a"
    using raw_sends_trusted[of _ "p_events x"] by (simp add: x(3) client_accepts_def)
  have t3: "trusted (set (outs (p_events c))) (demo_ds3 ! 1)"
    by (rule raw_sends_trusted) (simp add: a(4) demo_ds3_def)
  have "?S (a, KcpPeer.extend d0 (server_conn.fields demo_server))"
    by (rule link_client[OF link_start client_step_out[OF c(3)]])
  from link_conn[OF this conn_step_raw[OF disjI1[OF t1] d(2)]] have "?S (a, x1)" .
  from link_conn[OF link_conn[OF this conn_step_in[OF d(3)]] conn_step_out[OF d(4)]] have "?S (a, x)" .
  from link_client[OF link_client[OF this client_step_in[OF t2 b(1)]] client_step_send[OF b(2)]] have "?S (a2, x)" .
  from link_client[OF this client_step_out[OF b(3)]] have "?S (c, x)" .
  from link_conn[OF link_conn[OF this conn_step_raw[OF disjI1[OF t3] y(1)]] conn_step_in[OF y(2)]] have "?S (c, d)" .
  then show ?thesis using c(1,2) d(1) a(1,2,5) x(1,2,4,5) by blast
qed

lemma demo_link:
  "\<exists>c0 err c1 d0 c d. NewKcpClient demo_config = Some c0 \<and> Connect (at 100) print_user True True c0 = Some (err, c1)
     \<and> NewKcpServerConnection demo_config 0x04030201 = Some d0
     \<and> link_session print_user demo_handler (c1, KcpPeer.extend d0 (server_conn.fields demo_server)) (c, d)
     \<and> p_sent c = [[1], [3, 72, 105]] \<and> p_sent d = [[1], [3, 69, 99, 104, 111, 58, 32, 72, 105]]
     \<and> delivered (p_events d) = [[72, 105]]"
  using demo_link_states by blast

text \<open>The connection answers, and the client learns that everything has arrived.\<close>

definition uncongested :: "event list \<Rightarrow> bool" where
  "uncongested evs \<longleftrightarrow> list_all (\<lambda>ev. ev \<noteq> EvError ErrorCodeCongestion) evs"

lemma uncongested_iff: "uncongested evs \<longleftrightarrow> EvError ErrorCodeCongestion \<notin> set evs"
  by (auto simp: uncongested_def list_all_iff)

lemma link_acked_runs:
  "map_option (\<lambda>(c, d). ((p_sent c, SendWaiting c, uncongested (p_events c)),
       (p_sent d, ReceiveQueueCount d, uncongested (p_events d), raw_sends (p_events d))))
     (do { a \<leftarrow> link_client_start; c \<leftarrow> link_client_data demo_ds2 a;
           c \<leftarrow> client_TickIncoming (at 100) (at 100) print_user demo_ds4 c;
           x \<leftarrow> link_conn_start (demo_ds1 ! 0); d \<leftarrow> link_conn_data (demo_ds3 ! 1) x;
           d \<leftarrow> conn_TickOutgoing (at 100) (at 100) demo_handler d; Some (c, d) })
   = Some (([[1], [3, 72, 105]], 0, True),
           ([[1], [3, 69, 99, 104, 111, 58, 32, 72, 105]], 0, True, demo_ds2 @ demo_ds4))"
  by code_simp

lemma demo_link_acked:
  "\<exists>c0 err c1 d0 c d. NewKcpClient demo_config = Some c0 \<and> Connect (at 100) print_user True True c0 = Some (err, c1)
     \<and> NewKcpServerConnection demo_config 0x04030201 = Some d0
     \<and> link_session print_user demo_handler (c1, KcpPeer.extend d0 (server_conn.fields demo_server)) (c, d)
     \<and> p_sent c = [[1], [3, 72, 105]] \<and> p_sent d = [[1], [3, 69, 99, 104, 111, 58, 32, 72, 105]]
     \<and> SendWaiting c = 0 \<and> ReceiveQueueCount d = 0 \<and> uncongested (p_events c) \<and> uncongested (p_events d)"
proof -
  obtain c0 err c1 d0 c d a x where l: "NewKcpClient demo_config = Some c0"
      "Connect (at 100) print_user True True c0 = Some (err, c1)" "NewKcpServerConnection demo_config 0x04030201 = Some d0"
      "link_session print_user demo_handler (c1, KcpPeer.extend d0 (server_conn.fields demo_server)) (c, d)"
    and s: "link_client_start = Some a" "link_client_data demo_ds2 a = Some c"
      "link_conn_start (demo_ds1 ! 0) = Some x" "link_conn_data (demo_ds3 ! 1) x = Some d"
    using demo_link_states by blast
  obtain c' d' where e: "client_TickIncoming (at 100) (at 100) print_user demo_ds4 c = Some c'"
      "conn_TickOutgoing (at 100) (at 100) demo_handler d = Some d'" "raw_sends (p_events d') = demo_ds2 @ demo_ds4"
    and r: "p_sent c' = [[1], [3, 72, 105]]" "p_sent d' = [[1], [3, 69, 99, 104, 111, 58, 32, 72, 105]]"
      "SendWaiting c' = 0" "ReceiveQueueCount d' = 0" "uncongested (p_events c')" "uncongested (p_events d')"
    using link_acked_runs by (auto simp: s bind_eq_Some_conv simp del: One_nat_def)
  have t: "\<forall>seg \<in> set demo_ds4. client_accepts (set (outs (p_events d'))) seg c"
    using raw_sends_trusted[of _ "p_events d'"] by (simp add: e(3) client_accepts_def)
  from link_client[OF link_conn[OF l(4) conn_step_out[OF e(2)]] client_step_in[OF t e(1)]]
  have "link_session print_user demo_handler (c1, KcpPeer.extend d0 (server_conn.fields demo_server)) (c', d')" .
  then show ?thesis using l(1-3) r by blast
qed


lemma demo_link_short:
  "seg_total (unat (k_mss (reset_kcp demo_config))) [[1], [3, 72, 105]] = 2"
  "seg_total (unat (k_mss (reset_kcp demo_config))) [[1], [3, 69, 99, 104, 111, 58, 32, 72, 105]] = 2"
proof -
  have "unat (k_mss (reset_kcp demo_config)) = 31" "frag_count 31 [1 :: byte] = 1" "frag_count 31 [3, 72, 105 :: byte] = 1"
    "frag_count 31 [3, 69, 99, 104, 111, 58, 32, 72, 105 :: byte] = 1"
    by code_simp+
  then show "seg_total (unat (k_mss (reset_kcp demo_config))) [[1], [3, 72, 105]] = 2"
    "seg_total (unat (k_mss (reset_kcp demo_config))) [[1], [3, 69, 99, 104, 111, 58, 32, 72, 105]] = 2"
    by (simp_all add: seg_total_def)
qed

text \<open>The server of the run, as a reachable one.\<close>

lemma demo_reach:
  "server_reach demo_config u demo_server"
  "\<exists>s c. server_reach demo_config (echo_user (at 100) (at 100)) s \<and> GetConnection demo_id s = Some c \<and> \<not> p_disconnectOnce c"
proof -
  let ?u = "echo_user (at 100) (at 100)"
  show start: "server_reach demo_config u demo_server" for u
    unfolding demo_server_def by (rule reach_start[OF reach_new])
  obtain s where s: "demo_server_run demo_ds1 demo_ds3 = Some s" "map_option p_disconnectOnce (sv_connections s demo_id) = Some False"
    using demo_server_run by auto
  have short: "short_datagrams demo_config (map (\<lambda>d. (d, demo_addr, Some [1, 2, 3, 4])) demo_ds1)"
    "short_datagrams demo_config (map (\<lambda>d. (d, demo_addr, None)) demo_ds3)" by code_simp+
  obtain s1 s2 s3 where t: "server_TickIncoming (at 100) (at 100) ?u (map (\<lambda>d. (d, demo_addr, Some [1, 2, 3, 4])) demo_ds1)
        (\<lambda>s. [demo_id]) demo_server = Some s1" "server_TickOutgoing (at 100) (at 100) ?u (\<lambda>s. [demo_id]) s1 = Some s2"
      "server_TickIncoming (at 100) (at 100) ?u (map (\<lambda>d. (d, demo_addr, None)) demo_ds3) (\<lambda>s. [demo_id]) s2 = Some s3"
      "server_TickOutgoing (at 100) (at 100) ?u (\<lambda>s. [demo_id]) s3 = Some s"
    using s(1) by (auto simp: demo_server_run_def server_Tick_def bind_eq_Some_conv)
  have "server_reach demo_config ?u s"
    by (rule reach_out[OF reach_in[OF reach_out[OF reach_in[OF start short(1) t(1)] t(2)] short(2) t(3)] t(4)])
  then show "\<exists>s c. server_reach demo_config ?u s \<and> GetConnection demo_id s = Some c \<and> \<not> p_disconnectOnce c"
    using s(2) by (auto simp: GetConnection_def)
qed

section \<open>A ping before the hello\<close>

text \<open>
  The client's hello is lost; a second later it pings, and its next hello comes too late. What the
  server sends in return is \<open>ds1\<close> for the ping and \<open>ds2\<close> for the hello.
\<close>

definition early_client :: "bytes list \<Rightarrow> bytes list \<Rightarrow> KcpClient option" where
  "early_client ds1 ds2 = do {
     c \<leftarrow> NewKcpClient demo_config;
     (_, c) \<leftarrow> Connect (at 970) print_user True True c;
     c \<leftarrow> client_TickOutgoing (at 970) (at 970) print_user c;
     c \<leftarrow> client_Tick (at 1000) (at 1000) print_user [] c;
     c \<leftarrow> client_Tick (at 1200) (at 1200) print_user ds1 c;
     client_Tick (at 1210) (at 1210) print_user ds2 c
   }"

definition early_server :: "(bytes \<times> Addr \<times> bytes option) list \<Rightarrow> KcpServer option" where
  "early_server ds = server_Tick (at 100) (at 100) (echo_user (at 100) (at 100)) ds (\<lambda>s. [demo_id]) demo_server"

definition early_hello :: bytes where
  "early_hello = [1, 0, 0, 0, 0, 0, 0, 0, 0, 81, 0, 2, 0, 202, 3, 0, 0, 0, 0, 0, 0, 0, 0, 0, 0, 1, 0, 0, 0, 1]"

definition early_ping :: bytes where
  "early_ping = [1, 0, 0, 0, 0, 0, 0, 0, 0, 81, 0, 2, 0, 232, 3, 0, 0, 1, 0, 0, 0, 0, 0, 0, 0, 5, 0, 0, 0, 2, 232, 3, 0, 0]"

definition early_ack :: bytes where
  "early_ack = [1, 1, 2, 3, 4, 0, 0, 0, 0, 82, 0, 2, 0, 232, 3, 0, 0, 1, 0, 0, 0, 0, 0, 0, 0, 0, 0, 0, 0]"

definition early_retry :: bytes where
  "early_retry = [1, 1, 2, 3, 4, 0, 0, 0, 0, 81, 0, 2, 0, 176, 4, 0, 0, 0, 0, 0, 0, 0, 0, 0, 0, 1, 0, 0, 0, 1]"

definition early_replies :: "bytes list" where
  "early_replies =
    [[1, 5, 6, 7, 8, 0, 0, 0, 0, 82, 0, 1, 0, 176, 4, 0, 0, 0, 0, 0, 0, 1, 0, 0, 0, 0, 0, 0, 0],
     [1, 5, 6, 7, 8, 0, 0, 0, 0, 81, 0, 2, 0, 100, 0, 0, 0, 0, 0, 0, 0, 1, 0, 0, 0, 1, 0, 0, 0, 1]]"

lemma early_client_run:
  "map_option (\<lambda>c. (raw_sends (p_events c), p_Cookie c, cl_connected c)) (early_client [early_ack] early_replies)
     = Some ([early_hello, early_ping, early_retry], 0x04030201, False)"
  by code_simp

lemma early_server_run:
  "map_option (\<lambda>s. (raw_sends (map snd (sv_log s)), sv_connections s demo_id = None))
      (early_server [(early_ping, demo_addr, Some [1, 2, 3, 4])]) = Some ([early_ack], True)"
  "map_option (\<lambda>s. (raw_sends (map snd (sv_log s)), map_option p_Cookie (sv_connections s demo_id)))
      (early_server [(early_ping, demo_addr, Some [1, 2, 3, 4]), (early_retry, demo_addr, Some [5, 6, 7, 8])])
     = Some (early_ack # early_replies, Some 0x08070605)"
  by code_simp+

text \<open>The same as a session of the client and the connection that was made for the ping.\<close>

definition early_start :: "KcpClient option" where
  "early_start = do {
     c \<leftarrow> NewKcpClient demo_config;
     (_, c) \<leftarrow> Connect (at 970) print_user True True c;
     c \<leftarrow> client_TickOutgoing (at 970) (at 970) print_user c;
     client_Tick (at 1000) (at 1000) print_user [] c
   }"

definition early_conn :: "server_conn option" where
  "early_conn = do {
     d \<leftarrow> NewKcpServerConnection demo_config 0x04030201;
     d \<leftarrow> conn_RawInput (at 100) (at 100) demo_handler early_ping (KcpPeer.extend d (server_conn.fields demo_server));
     conn_TickIncoming (at 100) (at 100) demo_handler d
   }"

definition early_later :: "KcpClient \<Rightarrow> (KcpClient \<times> KcpClient) option" where
  "early_later c = do {
     c1 \<leftarrow> client_Tick (at 1200) (at 1200) print_user [early_ack] c;
     c2 \<leftarrow> client_Tick (at 1210) (at 1210) print_user early_replies c1;
     Some (c1, c2)
   }"

lemma early_link_runs:
  "map_option (\<lambda>(c, d, c1, c2). (raw_sends (p_events c), (p_sent d, raw_sends (p_events d)),
        p_Cookie c1, (raw_sends (p_events c2), p_Cookie c2, p_sent c2)))
     (do { c \<leftarrow> early_start; d \<leftarrow> early_conn; (c1, c2) \<leftarrow> early_later c; Some (c, d, c1, c2) })
   = Some ([early_hello, early_ping], ([], [early_ack]), 0x04030201,
       ([early_hello, early_ping, early_retry], 0x04030201, [[1], [2, 232, 3, 0, 0]]))"
  by code_simp

lemma Tick_steps:
  assumes "client_Tick kc pc u segs c = Some c'" and "\<forall>seg \<in> set segs. client_accepts net seg c"
  shows "(client_step net u)\<^sup>*\<^sup>* c c'"
proof -
  obtain d where "client_TickIncoming kc pc u segs c = Some d" "client_TickOutgoing kc pc u d = Some c'"
    using assms(1) by (auto simp: client_Tick_def bind_eq_Some_conv)
  then show ?thesis
    using client_step_in[OF assms(2)] client_step_out by (meson rtranclp.rtrancl_into_rtrancl rtranclp.rtrancl_refl)
qed

lemma early_link:
  "\<exists>c0 err c1 d0 c d c2. NewKcpClient demo_config = Some c0 \<and> Connect (at 970) print_user True True c0 = Some (err, c1)
     \<and> NewKcpServerConnection demo_config 0x04030201 = Some d0
     \<and> link_session print_user demo_handler (c1, KcpPeer.extend d0 (server_conn.fields demo_server)) (c, d)
     \<and> p_sent d = [] \<and> raw_sends (p_events d) = [early_ack]
     \<and> (client_step (set (outs (p_events d))) print_user)\<^sup>*\<^sup>* c c2
     \<and> p_Cookie c2 = 0x04030201 \<and> raw_sends (p_events c2) = [early_hello, early_ping, early_retry]
     \<and> p_sent c2 = [[1], [2, 232, 3, 0, 0]]"
proof -
  obtain c d e c2 where r: "early_start = Some c" "early_conn = Some d" "early_later c = Some (e, c2)"
    and f: "raw_sends (p_events c) = [early_hello, early_ping]" "p_sent d = []" "raw_sends (p_events d) = [early_ack]"
      "p_Cookie e = 0x04030201" "raw_sends (p_events c2) = [early_hello, early_ping, early_retry]"
      "p_Cookie c2 = 0x04030201" "p_sent c2 = [[1], [2, 232, 3, 0, 0]]"
    using early_link_runs by (auto simp: bind_eq_Some_conv)
  obtain c0 err c1 ca where c: "NewKcpClient demo_config = Some c0" "Connect (at 970) print_user True True c0 = Some (err, c1)"
      "client_TickOutgoing (at 970) (at 970) print_user c1 = Some ca" "client_Tick (at 1000) (at 1000) print_user [] ca = Some c"
    using r(1) by (auto simp: early_start_def bind_eq_Some_conv)
  obtain d0 da where d: "NewKcpServerConnection demo_config 0x04030201 = Some d0"
      "conn_RawInput (at 100) (at 100) demo_handler early_ping (KcpPeer.extend d0 (server_conn.fields demo_server)) = Some da"
      "conn_TickIncoming (at 100) (at 100) demo_handler da = Some d"
    using r(2) by (auto simp: early_conn_def bind_eq_Some_conv)
  have l: "client_Tick (at 1200) (at 1200) print_user [early_ack] c = Some e"
      "client_Tick (at 1210) (at 1210) print_user early_replies e = Some c2"
    using r(3) by (auto simp: early_later_def bind_eq_Some_conv)
  let ?d = "KcpPeer.extend d0 (server_conn.fields demo_server)" and ?net = "set (outs (p_events d))"
  have "(client_step (set (outs (p_events ?d))) print_user)\<^sup>*\<^sup>* c1 c"
    by (rule converse_rtranclp_into_rtranclp[OF client_step_out[OF c(3)] Tick_steps[OF c(4)]]) simp
  from link_clients[OF link_start this]
  have s0: "link_session print_user demo_handler (c1, ?d) (c, ?d)" .
  have "trusted (set (outs (p_events c))) early_ping"
    by (rule raw_sends_trusted) (simp add: f(1))
  from link_conn[OF link_conn[OF s0 conn_step_raw[OF disjI1[OF this] d(2)]] conn_step_in[OF d(3)]]
  have s1: "link_session print_user demo_handler (c1, ?d) (c, d)" .
  have t1: "(client_step ?net print_user)\<^sup>*\<^sup>* c e"
    by (rule Tick_steps[OF l(1)]) (use raw_sends_trusted[of early_ack "p_events d"] in \<open>simp add: f(3) client_accepts_def\<close>)
  have t2: "(client_step ?net print_user)\<^sup>*\<^sup>* e c2"
  proof (rule Tick_steps[OF l(2)])
    have "list_all (\<lambda>seg. raw_cookie seg \<noteq> 0x04030201) early_replies" by code_simp
    then show "\<forall>seg \<in> set early_replies. client_accepts ?net seg e"
      by (simp add: list_all_iff client_accepts_def f(4))
  qed
  note steps = rtranclp_trans[OF t1 t2]
  show ?thesis
    by (intro exI[of _ c0] exI[of _ err] exI[of _ c1] exI[of _ d0] exI[of _ c] exI[of _ d] exI[of _ c2] conjI
        c(1,2) d(1) s1 steps f(2,3,5,6,7))
qed

lemma early_short: "seg_total (unat (k_mss (reset_kcp demo_config))) [[1], [2, 232, 3, 0, 0]] = 2"
proof -
  have "unat (k_mss (reset_kcp demo_config)) = 31" "frag_count 31 [1 :: byte] = 1" "frag_count 31 [2, 232, 3, 0, 0 :: byte] = 1"
    by code_simp+
  then show ?thesis by (simp add: seg_total_def)
qed

end
