(* ===== verification/Server_Properties.thy ===== *)
theory Server_Properties
  imports Server_Examples
begin

text \<open>
  The properties of the server, of its connections and of the client (\<open>server.go\<close>,
  \<open>connection.go\<close>, \<open>client.go\<close>, \<open>common.go\<close>), and of all of them together.
\<close>

section \<open>The server\<close>



text \<open>
  C11: no operation of a server panics, in any state it can reach and whatever datagrams arrive;
  after an incoming tick no connection waits for removal.
\<close>

theorem server_never_panics:
  assumes "config_ok cfg" and "server_users u" and "server_reach cfg u s" and "short_datagrams cfg segs"
  shows "(\<exists>s'. server_TickIncoming kc pc u segs order s = Some s' \<and> sv_toRemove s' = {})
    \<and> (\<exists>s'. server_TickOutgoing kc pc u order s = Some s') \<and> (\<exists>s'. server_Tick kc pc u segs order s = Some s')
    \<and> (\<exists>s'. server_Send kc pc u cid data channel s = Some s') \<and> (\<exists>s'. server_Disconnect kc u cid s = Some s')"
proof -
  have inv: "server_inv s" "sv_config s = cfg" using server_users.reach_inv[OF assms(2,3,1)] by simp_all
  then have short: "\<forall>(seg, remote, random) \<in> set segs. int (length seg) \<le> cf_Mtu (sv_config s)"
    using assms(4) by (simp add: short_datagrams_def)
  obtain s2 where s2: "server_inv s2" "server_TickIncoming kc pc u segs order s = Some (server_remove s2)"
    using server_users.server_TickIncoming_ok[OF assms(2) inv(1) short, of kc pc order] by blast
  have "server_goes (server_remove s2) (server_TickOutgoing kc pc u order (server_remove s2))"
    by (rule server_users.server_TickOutgoing_ok[OF assms(2) server_remove_inv[OF s2(1)]])
  then have "\<exists>s'. server_Tick kc pc u segs order s = Some s'"
    using s2(2) by (auto simp: server_Tick_def server_goes_def)
  moreover have "sv_toRemove (server_remove s2) = {}" by (simp add: server_remove_def)
  moreover have "server_goes s m \<Longrightarrow> \<exists>s'. m = Some s'" for m by (auto simp: server_goes_def)
  ultimately show ?thesis
    using s2(2) server_users.server_TickOutgoing_ok[OF assms(2) inv(1), of kc pc order]
      server_users.server_Send_ok[OF assms(2) inv(1), of kc pc cid data channel]
      server_users.server_Disconnect_ok[OF assms(2) inv(1), of kc cid] by blast
qed

theorem server_never_panics_witness:
  "\<exists>s. server_TickIncoming (at 100) (at 100) (echo_user (at 100) (at 100)) [(replicate 30 255, demo_addr, None)] (\<lambda>_. [])
     demo_server = Some s \<and> sv_toRemove s = {}"
proof -
  have "short_datagrams demo_config [(replicate 30 255, demo_addr, None)]" by code_simp
  then show ?thesis using server_never_panics[OF demo_config_ok echo_users demo_reach(1)] by blast
qed

text \<open>
  C15: a datagram makes a connection only for its sender's address, never when it is a stray
  disconnect, and only once a hello was received; the connection's cookie is the random one it
  was created with. Nothing changes for any other connection, and nothing at all when the sender's
  connection waits for removal.
\<close>

theorem only_handshake_connects:
  assumes "config_ok cfg" and "server_users u" and "server_reach cfg u s" and "int (length seg) \<le> cf_Mtu cfg"
  shows "\<exists>s'. processMessage kc pc u seg remote random s = Some s'
    \<and> (\<forall>c. GetConnection (ConnectionHash remote) s = None \<and> GetConnection (ConnectionHash remote) s' = Some c
          \<longrightarrow> \<not> stray_disconnect seg \<and> hello_in (p_received c) \<and> p_Cookie c = GenerateCookie random)
    \<and> (\<forall>j. j \<noteq> ConnectionHash remote \<longrightarrow> GetConnection j s' = GetConnection j s \<and> log_of j s' = log_of j s)
    \<and> (ConnectionHash remote \<in> sv_toRemove s \<longrightarrow> s' = s)"
proof -
  have inv: "server_inv s" "sv_config s = cfg" using server_users.reach_inv[OF assms(2,3,1)] by simp_all
  then obtain s' where s': "processMessage kc pc u seg remote random s = Some s'" "server_inv s'"
      "conn_after (ConnectionHash remote) s s'" "ConnectionHash remote \<in> sv_toRemove s \<longrightarrow> s' = s"
      "\<forall>c. sv_connections s (ConnectionHash remote) = None \<longrightarrow> sv_connections s' (ConnectionHash remote) = Some c
          \<longrightarrow> p_Cookie c = GenerateCookie random"
    using server_users.processMessage_ok[OF assms(2) inv(1), of seg kc pc remote random] assms(4) by auto
  have log: "log_of j s' = log_of j s" if "j \<noteq> ConnectionHash remote" for j
    using s'(3) that by (auto simp: conn_after_def log_of_def filter_map comp_def)
  have hello: "hello_in (p_received c)" if "sv_connections s' (ConnectionHash remote) = Some c" for c
    using s'(2) that by (auto simp: server_inv_def conn_fine_def peer_fine_def auth_log_def authenticated_def)
  have stray: "s' = s" if "stray_disconnect seg" "sv_connections s (ConnectionHash remote) = None"
    using s'(1) that by (auto simp: processMessage_def Let_def split: if_splits)
  have new: "\<not> stray_disconnect seg \<and> hello_in (p_received c) \<and> p_Cookie c = GenerateCookie random"
    if "sv_connections s (ConnectionHash remote) = None" "sv_connections s' (ConnectionHash remote) = Some c" for c
    using that s'(5) hello stray by fastforce
  show ?thesis
    unfolding GetConnection_def using s'(1,4) new log conn_after_others[OF s'(3)] by blast
qed

theorem only_handshake_connects_witness:
  "\<exists>s. processMessage (at 100) (at 100) (echo_user (at 100) (at 100)) (demo_ds1 ! 0) demo_addr None demo_server = Some s
    \<and> GetConnection (demo_id + 1) s = None"
proof -
  have "int (length (demo_ds1 ! 0)) \<le> cf_Mtu demo_config" by code_simp
  moreover have "GetConnection j demo_server = None" for j by (simp add: GetConnection_def demo_server_def NewKcpServer_def)
  ultimately show ?thesis
    using only_handshake_connects[OF demo_config_ok echo_users demo_reach(1), of "demo_ds1 ! 0" "at 100" "at 100" "at 100" "at 100" demo_addr None]
    by (auto simp: demo_id_def)
qed




section \<open>Addresses\<close>

text \<open>
  Two ports of one address never share a connection, but two addresses can: the next address
  and 31 ports less have the same hash, so the server takes them for one connection.
\<close>

theorem connection_hash:
  assumes "0 \<le> p" and "p < 2 ^ 16" and "0 \<le> q" and "q < 2 ^ 16" and "d < 255"
  shows "(ConnectionHash (UDPAddr ip p) = ConnectionHash (UDPAddr ip q) \<longleftrightarrow> p = q)
    \<and> ConnectionHash (UDPAddr (ip @ [d + 1]) p) = ConnectionHash (UDPAddr (ip @ [d]) (p + 31))"
proof -
  let ?H = "hash_loop (map uint ip) 0"
  have inj: "p = q" if "go_int (?H * 31 + p) = go_int (?H * 31 + q)"
  proof -
    have "word_of_int (?H * 31) + (word_of_int p :: 64 word) = word_of_int (?H * 31) + word_of_int q"
      using arg_cong[OF that, of "word_of_int :: int \<Rightarrow> 64 word"] by (simp add: go_int_def)
    then have "uint (word_of_int p :: 64 word) = uint (word_of_int q :: 64 word)" by simp
    then show ?thesis using assms(1-4) by (simp add: uint_word_of_int)
  qed
  have eq: "ConnectionHash (UDPAddr (ip @ [b]) r) = go_int ((?H * 31 + uint b) * 31 + r)" for b r
    by (simp add: hash_loop_append go_int_mod)
  have u: "uint (d + 1) = uint d + 1" using assms(5) by (simp add: uint_plus_if' word_less_def)
  have "ConnectionHash (UDPAddr (ip @ [d + 1]) p) = ConnectionHash (UDPAddr (ip @ [d]) (p + 31))"
    unfolding eq u by (rule arg_cong[of _ _ go_int]) simp
  then show ?thesis using inj by auto
qed

theorem connection_hash_witness:
  "ConnectionHash (UDPAddr [10, 0, 0, 2] 5000) = ConnectionHash (UDPAddr [10, 0, 0, 1] 5031)
    \<and> ConnectionHash (UDPAddr [10, 0, 0] 5000) \<noteq> ConnectionHash (UDPAddr [10, 0, 0] 5001)"
  using connection_hash[of 5000 5001 1 "[10, 0, 0]"] by simp

section \<open>Raw datagrams\<close>

text \<open>
  C25: a connection and a client read back what a peer put on the wire, framed with its cookie, on
  either channel: a KCP datagram of at least one byte, and an unreliable message of at most
  \<open>UnreliableMax\<close> bytes. Once a cookie is agreed (for a connection, once it is authenticated), a datagram
  with another one changes nothing. A client without a cookie takes that of the datagram it gets.
\<close>

theorem raw_frames:
  assumes "0 < length d"
  shows "conn_RawInput kc pc h (raw_reliable cookie d) p
      = (if p_State p = KcpAuthenticated \<and> cookie \<noteq> p_Cookie p then Some p else OnRawInputReliable kc d p)
    \<and> client_RawInput kc pc u (raw_reliable cookie d) c
      = (if p_Cookie c \<noteq> 0 \<and> cookie \<noteq> p_Cookie c then Some c else OnRawInputReliable kc d (c\<lparr>p_Cookie := cookie\<rparr>))
    \<and> (int (length m) \<le> p_UnreliableMax q \<longrightarrow>
        (\<exists>seg. p_events (SendUnreliable header m q) = p_events q @ [EvRawSend seg]
          \<and> conn_RawInput kc pc h seg p = (if p_State p = KcpAuthenticated \<and> p_Cookie q \<noteq> p_Cookie p then Some p
               else OnRawInputUnreliable pc h (unreliable_byte header # m) p)
          \<and> client_RawInput kc pc u seg c = (if p_Cookie c \<noteq> 0 \<and> p_Cookie q \<noteq> p_Cookie c then Some c
               else OnRawInputUnreliable pc (client_handler u) (unreliable_byte header # m) (c\<lparr>p_Cookie := p_Cookie q\<rparr>))))"
proof -
  have c: "p_Cookie c = k \<Longrightarrow> c\<lparr>p_Cookie := k\<rparr> = c" for k by (cases c) simp
  have raw: "raw_cookie (ch # le32 k @ m) = k" "dispatch kc pc h' (ch # le32 k @ m) r
      = (if ch = channel_byte KcpReliable then OnRawInputReliable kc m r
         else if ch = channel_byte KcpUnreliable then OnRawInputUnreliable pc h' m r else Some r)" for ch k m h' r
    unfolding raw_cookie_def framed(3) dispatch_def framed(2,4) by simp_all
  show ?thesis
    using assms by (auto simp: c conn_RawInput_eq client_RawInput_eq raw_reliable_eq raw with_cookie_def SendUnreliable_eq)
qed

theorem raw_frames_witness:
  "conn_RawInput (at 1) (at 1) quiet (raw_reliable 8 (replicate 24 81)) (demo_peer\<lparr>p_State := KcpAuthenticated\<rparr>)
     = Some (demo_peer\<lparr>p_State := KcpAuthenticated\<rparr>)"
proof -
  let ?p = "demo_peer\<lparr>p_State := KcpAuthenticated\<rparr>"
  have "p_Cookie demo_peer = 7" using NewKcpPeer_eq[OF demo_config_ok, of 7] demo_peer by auto
  moreover have "conn_RawInput (at 1) (at 1) quiet (raw_reliable 8 (replicate 24 81)) ?p
      = (if p_State ?p = KcpAuthenticated \<and> 8 \<noteq> p_Cookie ?p then Some ?p else OnRawInputReliable (at 1) (replicate 24 81) ?p)"
    by (rule conjunct1[OF raw_frames]) simp
  ultimately show ?thesis by simp
qed

section \<open>A client and its connection\<close>

text \<open>
  C2: the reliable channel between a client that connected and the connection of a server with the
  same configuration, whatever their users do within the contract of a handler, over a network
  that loses, repeats, delays and reorders. The datagrams of the reliable channel that an end takes in
  were put on the wire by the other end, or are dropped for their cookie; so until the connection is
  authenticated, and until the client has learned a cookie, those datagrams are taken to be
  genuine. Anything else, in particular unreliable messages, anybody may send at any time. Then the
  messages one end takes from KCP are a prefix of those the other end sent, and the data its user is
  given as reliable are, in order and at most once each, data the other user sent as reliable, as long
  as neither sends 2 to the 32 segments. Nothing is promised of data given as unreliable.
\<close>

theorem client_server_deliver:
  assumes "config_ok cfg" and "client_user u" and "peer_handler h"
    and "NewKcpClient cfg = Some c0" and "Connect kc u True True c0 = Some (err, c1)"
    and "NewKcpServerConnection cfg cookie = Some d0"
    and "link_session u h (c1, KcpPeer.extend d0 x) (c, d)"
    and "seg_total (unat (k_mss (reset_kcp cfg))) (p_sent c) < 2 ^ 32"
    and "seg_total (unat (k_mss (reset_kcp cfg))) (p_sent d) < 2 ^ 32"
  shows "prefix (p_received d) (p_sent c) \<and> subseq (delivered (p_events d)) (data_of (p_sent c))
    \<and> prefix (p_received c) (p_sent d) \<and> subseq (delivered (p_events c)) (data_of (p_sent d))"
proof -
  have fine: "peers_fine (k_mtu (reset_kcp cfg)) (k_mss (reset_kcp cfg)) c d"
    using link_session_fine[OF assms(7,2,3) link_start_fine[OF assms(1,2,4,5,6)]] by simp
  then have "session_ok (peer_end c) (peer_end d)" using assms(8,9) by (simp add: peers_fine_def)
  then have "prefix (p_received d) (p_sent c)" "prefix (p_received c) (p_sent d)"
    using session_ok_delivers[of "peer_end c" "peer_end d"] by (simp_all add: peer_end_def)
  moreover have "subseq (delivered (p_events c)) (data_of (p_received c))" "subseq (delivered (p_events d)) (data_of (p_received d))"
    using fine by (simp_all add: peers_fine_def peer_fine_def)
  ultimately show ?thesis using delivered_prefix by blast
qed

theorem client_server_deliver_witness:
  "\<exists>c1 d0 c d. link_session print_user demo_handler (c1, d0) (c, d) \<and> delivered (p_events d) = [[72, 105]]
    \<and> subseq (delivered (p_events d)) (data_of (p_sent c))"
proof -
  obtain c0 err c1 d0 c d where l: "NewKcpClient demo_config = Some c0"
      "Connect (at 100) print_user True True c0 = Some (err, c1)" "NewKcpServerConnection demo_config 0x04030201 = Some d0"
      "link_session print_user demo_handler (c1, KcpPeer.extend d0 (server_conn.fields demo_server)) (c, d)"
    and s: "p_sent c = [[1], [3, 72, 105]]" "p_sent d = [[1], [3, 69, 99, 104, 111, 58, 32, 72, 105]]"
      "delivered (p_events d) = [[72, 105]]"
    using demo_link by blast
  have "seg_total (unat (k_mss (reset_kcp demo_config))) (p_sent c) < 2 ^ 32"
    "seg_total (unat (k_mss (reset_kcp demo_config))) (p_sent d) < 2 ^ 32"
    unfolding s(1,2) demo_link_short by simp_all
  from client_server_deliver[OF demo_config_ok print_handler demo_handler l this] show ?thesis using l(4) s(3) by blast
qed

text \<open>
  C5: a client whose queues are empty knows that everything it sent has arrived. As long as no
  congestion was reported (that is when a peer throws away what is in flight) and the segments
  are fewer than 2 to the 31, then if nothing waits in the client's send queue and send buffer, and
  nothing in the receive queue of the server's connection, the connection has received
  every message of the client; and so with the roles exchanged.
\<close>

theorem client_server_drained:
  assumes "config_ok cfg" and "client_user u" and "peer_handler h"
    and "NewKcpClient cfg = Some c0" and "Connect kc u True True c0 = Some (err, c1)"
    and "NewKcpServerConnection cfg cookie = Some d0"
    and "link_session u h (c1, KcpPeer.extend d0 x) (c, d)"
    and "seg_total (unat (k_mss (reset_kcp cfg))) (p_sent c) < 2 ^ 31"
    and "seg_total (unat (k_mss (reset_kcp cfg))) (p_sent d) < 2 ^ 31"
    and "EvError ErrorCodeCongestion \<notin> set (p_events c)" and "EvError ErrorCodeCongestion \<notin> set (p_events d)"
  shows "(SendQueueCount c + SendBufferCount c = 0 \<and> ReceiveQueueCount d = 0 \<longrightarrow> p_received d = p_sent c)
    \<and> (SendQueueCount d + SendBufferCount d = 0 \<and> ReceiveQueueCount c = 0 \<longrightarrow> p_received c = p_sent d)"
proof -
  have fine: "peers_fine (k_mtu (reset_kcp cfg)) (k_mss (reset_kcp cfg)) c d"
    using link_session_fine[OF assms(7,2,3) link_start_fine[OF assms(1,2,4,5,6)]] by simp
  show ?thesis
    using peers_drained[OF fine assms(8-11)] peers_drained[OF peers_fine_sym[OF fine] assms(9,8,11,10)]
    by (simp add: SendWaiting_def)
qed

theorem client_server_drained_witness:
  "\<exists>c1 d0 c d. link_session print_user demo_handler (c1, d0) (c, d) \<and> p_sent c = [[1], [3, 72, 105]]
    \<and> p_received d = p_sent c"
proof -
  obtain c0 err c1 d0 c d where l: "NewKcpClient demo_config = Some c0"
      "Connect (at 100) print_user True True c0 = Some (err, c1)" "NewKcpServerConnection demo_config 0x04030201 = Some d0"
      "link_session print_user demo_handler (c1, KcpPeer.extend d0 (server_conn.fields demo_server)) (c, d)"
    and s: "p_sent c = [[1], [3, 72, 105]]" "p_sent d = [[1], [3, 69, 99, 104, 111, 58, 32, 72, 105]]"
      "SendWaiting c = 0" "ReceiveQueueCount d = 0" "uncongested (p_events c)" "uncongested (p_events d)"
    using demo_link_acked by blast
  have "seg_total (unat (k_mss (reset_kcp demo_config))) (p_sent c) < 2 ^ 31"
    "seg_total (unat (k_mss (reset_kcp demo_config))) (p_sent d) < 2 ^ 31"
    unfolding s(1,2) demo_link_short by simp_all
  from client_server_drained[OF demo_config_ok print_handler demo_handler l this] s
  have "p_received d = p_sent c" by (simp add: uncongested_iff SendWaiting_def)
  then show ?thesis using l(4) s(1) by blast
qed

section \<open>Connecting\<close>

lemma set_up_fields:
  "k_snd_queue (snd (kcp_SetMtu m k)) = k_snd_queue k" "k_snd_buf (snd (kcp_SetMtu m k)) = k_snd_buf k"
  "k_rmt_wnd (snd (kcp_SetMtu m k)) = k_rmt_wnd k" "k_snd_wnd (snd (kcp_SetMtu m k)) = k_snd_wnd k"
  "k_snd_queue (snd (kcp_WndSize a b k)) = k_snd_queue k" "k_snd_buf (snd (kcp_WndSize a b k)) = k_snd_buf k"
  "k_rmt_wnd (snd (kcp_WndSize a b k)) = k_rmt_wnd k"
  "k_snd_wnd (snd (kcp_WndSize a b k)) = (if a > 0 then word_of_int a else k_snd_wnd k)"
  "k_snd_queue (snd (kcp_NoDelay a b x d k)) = k_snd_queue k" "k_snd_buf (snd (kcp_NoDelay a b x d k)) = k_snd_buf k"
  "k_rmt_wnd (snd (kcp_NoDelay a b x d k)) = k_rmt_wnd k" "k_snd_wnd (snd (kcp_NoDelay a b x d k)) = k_snd_wnd k"
  by (simp_all add: kcp_SetMtu_def kcp_WndSize_def kcp_NoDelay_def Let_def)

lemma reset_kcp_windows:
  assumes "config_ok c"
  shows "kcp_WaitSnd (reset_kcp c) < unat (k_snd_wnd (reset_kcp c))"
    "kcp_WaitSnd (reset_kcp c) < unat (k_rmt_wnd (reset_kcp c))"
proof -
  have "sint (cf_SendWindowSize c) < 2 ^ 31" using assms sint_small by (auto simp: config_ok_def)
  then have "0 < sint (cf_SendWindowSize c) \<Longrightarrow>
      unat (word_of_int (sint (cf_SendWindowSize c)) :: u32) = nat (sint (cf_SendWindowSize c))"
    by (intro unat_word_of_int32) simp_all
  moreover have "kcp_WaitSnd (reset_kcp c) = 0" "k_rmt_wnd (reset_kcp c) = IKCP_WND_RCV"
    "k_snd_wnd (reset_kcp c) = (if 0 < sint (cf_SendWindowSize c) then word_of_int (sint (cf_SendWindowSize c)) else IKCP_WND_SND)"
    by (simp_all add: reset_kcp_def set_up_fields kcp_WaitSnd_def) (simp_all add: NewKCP_def NewRingBuffer_def rb_Len_def)
  ultimately show "kcp_WaitSnd (reset_kcp c) < unat (k_snd_wnd (reset_kcp c))"
    "kcp_WaitSnd (reset_kcp c) < unat (k_rmt_wnd (reset_kcp c))" by simp_all
qed

text \<open>
  C27: \<open>Connect\<close> does nothing for a connected client; it reports an error, and starts nothing, when the
  host is unknown or the socket cannot be opened; otherwise it resets the peer, which then owes the
  server exactly a hello, and the client ticks but is not connected before the server answers. Until
  then \<open>Send\<close> does nothing.
\<close>

theorem connect_outcomes:
  assumes "config_ok (cl_config c)" and "\<not> cl_connected c"
  shows "Connect kc u False dialed c = map_option (Pair True) (do { c \<leftarrow> u (EvError ErrorCodeDnsResolve) c; u EvDisconnected c })
    \<and> (\<exists>q. peer_Reset (cl_config c) c = Some q
          \<and> Connect kc u True False c = map_option (Pair True) (u (EvError ErrorCodeUnexpected) q))
    \<and> (\<exists>q. Connect kc u True True c = Some (False, q) \<and> p_sent q = p_sent c @ [[reliable_byte KcpHeaderHello]]
          \<and> p_State q = KcpConnected \<and> cl_active q \<and> cl_conn q \<and> \<not> cl_connected q \<and> client_Send kc pc u data ch q = Some q)
    \<and> Connect kc u resolved dialed (c\<lparr>cl_connected := True\<rparr>) = Some (False, c\<lparr>cl_connected := True\<rparr>)"
proof -
  obtain q where q: "peer_Reset (cl_config c) c = Some q" using Reset_eq[OF assms(1)] by blast
  let ?q = "q\<lparr>cl_conn := True, cl_active := True\<rparr>"
  have f: "p_Kcp q = reset_kcp (cl_config c)" "p_State q = KcpConnected" "p_sent q = p_sent c" "0 \<le> p_ReliableMax q"
    "cl_connected q = cl_connected c"
    using q reset_max_bounds(1)[OF assms(1)] unfolding Reset_eq[OF assms(1)] by auto
  have "peer_inv ?q" using Reset_inv[OF assms(1) q] by (simp add: peer_inv_def)
  then obtain r where r: "SendHello kc (client_handler u) ?q = Some r" "p_sent r = p_sent c @ [[reliable_byte KcpHeaderHello]]"
      "p_State r = KcpConnected" "KcpPeer.more r = KcpPeer.more ?q"
    using SendReliable_cases[of ?q "[]" kc "client_handler u" KcpHeaderHello] f reset_kcp_windows[OF assms(1)]
    by (auto simp: SendHello_def)
  have "cl_active r" "cl_conn r" "\<not> cl_connected r"
    using r(4) f(5) assms(2) by (cases r; cases q; simp)+
  moreover have "m \<bind> (\<lambda>c. u EvDisconnected c \<bind> (\<lambda>c. Some (True, c))) = map_option (Pair True) (m \<bind> u EvDisconnected)" for m
    by (cases m) (auto simp: map_option_case split: option.split)
  ultimately show ?thesis
    using assms(2) q r by (auto simp: Connect_def client_OnError_def client_Send_def map_option_case split: option.split)
qed

theorem connect_outcomes_witness:
  "\<exists>c q. NewKcpClient demo_config = Some c \<and> Connect (at 100) print_user True True c = Some (False, q)
    \<and> p_sent q = [[1]] \<and> client_Send (at 100) (at 100) print_user [72] KcpReliable q = Some q"
proof -
  obtain c where c: "NewKcpClient demo_config = Some c" "new_peer demo_config c" "cl_config c = demo_config" "\<not> cl_connected c"
    using NewKcpClient_new[OF demo_config_ok] by blast
  then have "config_ok (cl_config c)" using demo_config_ok by simp
  then have "\<exists>q. Connect (at 100) print_user True True c = Some (False, q) \<and> p_sent q = p_sent c @ [[reliable_byte KcpHeaderHello]]
      \<and> client_Send (at 100) (at 100) print_user [72] KcpReliable q = Some q"
    using connect_outcomes[OF _ c(4), of "at 100" print_user] by blast
  then show ?thesis using c(1,2) by (auto simp: new_peer_def)
qed

section \<open>Runs\<close>

text \<open>
  A client and the echo server shake hands, the client sends a message, and the server's
  answer comes back: each end is given exactly the datagrams the other has put on the wire.
\<close>

theorem echo_round_trip:
  "\<exists>c s acks. demo_client_run demo_ds2 demo_ds4 = Some c \<and> demo_server_run demo_ds1 demo_ds3 = Some s
    \<and> raw_sends (p_events c) = demo_ds1 @ demo_ds3 @ acks \<and> raw_sends (map snd (sv_log s)) = demo_ds2 @ demo_ds4
    \<and> cl_connected c \<and> delivered (map snd (sv_log s)) = [[72, 105]] \<and> delivered (p_events c) = [echo_prefix @ [72, 105]]"
  using demo_client_run demo_server_run by (auto simp: echo_prefix_def)



end
