(* ===== verification/Kcp_Output.thy ===== *)
theory Kcp_Output
  imports Kcp_Input
begin

text \<open>
  The output function only receives: no operation of \<open>kcp.go\<close> reads what was handed to it. So
  the operations commute with a change of the datagrams logged so far, and a peer, which moves
  the datagrams of every operation to its own log, runs the same KCP as one that keeps them.
\<close>

section \<open>Another log\<close>

definition logs :: "bytes list \<Rightarrow> KCP \<Rightarrow> KCP" where
  "logs ds k = k\<lparr>k_output := ds\<rparr>"

lemma logs_simps [simp]:
  "k_conv (logs ds k) = k_conv k" "k_mtu (logs ds k) = k_mtu k" "k_mss (logs ds k) = k_mss k"
  "k_state (logs ds k) = k_state k" "k_snd_una (logs ds k) = k_snd_una k" "k_snd_nxt (logs ds k) = k_snd_nxt k"
  "k_rcv_nxt (logs ds k) = k_rcv_nxt k" "k_ssthresh (logs ds k) = k_ssthresh k"
  "k_rx_rttvar (logs ds k) = k_rx_rttvar k" "k_rx_srtt (logs ds k) = k_rx_srtt k" "k_rx_rto (logs ds k) = k_rx_rto k"
  "k_rx_minrto (logs ds k) = k_rx_minrto k" "k_snd_wnd (logs ds k) = k_snd_wnd k"
  "k_rcv_wnd (logs ds k) = k_rcv_wnd k" "k_rmt_wnd (logs ds k) = k_rmt_wnd k" "k_cwnd (logs ds k) = k_cwnd k"
  "k_probe (logs ds k) = k_probe k" "k_interval (logs ds k) = k_interval k" "k_ts_flush (logs ds k) = k_ts_flush k"
  "k_nodelay (logs ds k) = k_nodelay k" "k_updated (logs ds k) = k_updated k" "k_ts_probe (logs ds k) = k_ts_probe k"
  "k_probe_wait (logs ds k) = k_probe_wait k" "k_dead_link (logs ds k) = k_dead_link k"
  "k_incr (logs ds k) = k_incr k" "k_fastresend (logs ds k) = k_fastresend k" "k_nocwnd (logs ds k) = k_nocwnd k"
  "k_stream (logs ds k) = k_stream k" "k_snd_queue (logs ds k) = k_snd_queue k"
  "k_rcv_queue (logs ds k) = k_rcv_queue k" "k_snd_buf (logs ds k) = k_snd_buf k"
  "k_rcv_buf (logs ds k) = k_rcv_buf k" "k_acklist (logs ds k) = k_acklist k" "k_buffer (logs ds k) = k_buffer k"
  "k_reads (logs ds k) = k_reads k"
  "k_output (logs ds k) = ds" "(logs ds k)\<lparr>k_output := xs\<rparr> = logs xs k" "logs ds (logs xs k) = logs ds k"
  by (simp_all add: logs_def)

lemma logs_update [simp]:
  "(logs ds k)\<lparr>k_conv := v_conv\<rparr> = logs ds (k\<lparr>k_conv := v_conv\<rparr>)"
  "(logs ds k)\<lparr>k_mtu := v_mtu\<rparr> = logs ds (k\<lparr>k_mtu := v_mtu\<rparr>)"
  "(logs ds k)\<lparr>k_mss := v_mss\<rparr> = logs ds (k\<lparr>k_mss := v_mss\<rparr>)"
  "(logs ds k)\<lparr>k_state := v_state\<rparr> = logs ds (k\<lparr>k_state := v_state\<rparr>)"
  "(logs ds k)\<lparr>k_snd_una := v_snd_una\<rparr> = logs ds (k\<lparr>k_snd_una := v_snd_una\<rparr>)"
  "(logs ds k)\<lparr>k_snd_nxt := v_snd_nxt\<rparr> = logs ds (k\<lparr>k_snd_nxt := v_snd_nxt\<rparr>)"
  "(logs ds k)\<lparr>k_rcv_nxt := v_rcv_nxt\<rparr> = logs ds (k\<lparr>k_rcv_nxt := v_rcv_nxt\<rparr>)"
  "(logs ds k)\<lparr>k_ssthresh := v_ssthresh\<rparr> = logs ds (k\<lparr>k_ssthresh := v_ssthresh\<rparr>)"
  "(logs ds k)\<lparr>k_rx_rttvar := v_rx_rttvar\<rparr> = logs ds (k\<lparr>k_rx_rttvar := v_rx_rttvar\<rparr>)"
  "(logs ds k)\<lparr>k_rx_srtt := v_rx_srtt\<rparr> = logs ds (k\<lparr>k_rx_srtt := v_rx_srtt\<rparr>)"
  "(logs ds k)\<lparr>k_rx_rto := v_rx_rto\<rparr> = logs ds (k\<lparr>k_rx_rto := v_rx_rto\<rparr>)"
  "(logs ds k)\<lparr>k_rx_minrto := v_rx_minrto\<rparr> = logs ds (k\<lparr>k_rx_minrto := v_rx_minrto\<rparr>)"
  "(logs ds k)\<lparr>k_snd_wnd := v_snd_wnd\<rparr> = logs ds (k\<lparr>k_snd_wnd := v_snd_wnd\<rparr>)"
  "(logs ds k)\<lparr>k_rcv_wnd := v_rcv_wnd\<rparr> = logs ds (k\<lparr>k_rcv_wnd := v_rcv_wnd\<rparr>)"
  "(logs ds k)\<lparr>k_rmt_wnd := v_rmt_wnd\<rparr> = logs ds (k\<lparr>k_rmt_wnd := v_rmt_wnd\<rparr>)"
  "(logs ds k)\<lparr>k_cwnd := v_cwnd\<rparr> = logs ds (k\<lparr>k_cwnd := v_cwnd\<rparr>)"
  "(logs ds k)\<lparr>k_probe := v_probe\<rparr> = logs ds (k\<lparr>k_probe := v_probe\<rparr>)"
  "(logs ds k)\<lparr>k_interval := v_interval\<rparr> = logs ds (k\<lparr>k_interval := v_interval\<rparr>)"
  "(logs ds k)\<lparr>k_ts_flush := v_ts_flush\<rparr> = logs ds (k\<lparr>k_ts_flush := v_ts_flush\<rparr>)"
  "(logs ds k)\<lparr>k_nodelay := v_nodelay\<rparr> = logs ds (k\<lparr>k_nodelay := v_nodelay\<rparr>)"
  "(logs ds k)\<lparr>k_updated := v_updated\<rparr> = logs ds (k\<lparr>k_updated := v_updated\<rparr>)"
  "(logs ds k)\<lparr>k_ts_probe := v_ts_probe\<rparr> = logs ds (k\<lparr>k_ts_probe := v_ts_probe\<rparr>)"
  "(logs ds k)\<lparr>k_probe_wait := v_probe_wait\<rparr> = logs ds (k\<lparr>k_probe_wait := v_probe_wait\<rparr>)"
  "(logs ds k)\<lparr>k_dead_link := v_dead_link\<rparr> = logs ds (k\<lparr>k_dead_link := v_dead_link\<rparr>)"
  "(logs ds k)\<lparr>k_incr := v_incr\<rparr> = logs ds (k\<lparr>k_incr := v_incr\<rparr>)"
  "(logs ds k)\<lparr>k_fastresend := v_fastresend\<rparr> = logs ds (k\<lparr>k_fastresend := v_fastresend\<rparr>)"
  "(logs ds k)\<lparr>k_nocwnd := v_nocwnd\<rparr> = logs ds (k\<lparr>k_nocwnd := v_nocwnd\<rparr>)"
  "(logs ds k)\<lparr>k_stream := v_stream\<rparr> = logs ds (k\<lparr>k_stream := v_stream\<rparr>)"
  "(logs ds k)\<lparr>k_snd_queue := v_snd_queue\<rparr> = logs ds (k\<lparr>k_snd_queue := v_snd_queue\<rparr>)"
  "(logs ds k)\<lparr>k_rcv_queue := v_rcv_queue\<rparr> = logs ds (k\<lparr>k_rcv_queue := v_rcv_queue\<rparr>)"
  "(logs ds k)\<lparr>k_snd_buf := v_snd_buf\<rparr> = logs ds (k\<lparr>k_snd_buf := v_snd_buf\<rparr>)"
  "(logs ds k)\<lparr>k_rcv_buf := v_rcv_buf\<rparr> = logs ds (k\<lparr>k_rcv_buf := v_rcv_buf\<rparr>)"
  "(logs ds k)\<lparr>k_acklist := v_acklist\<rparr> = logs ds (k\<lparr>k_acklist := v_acklist\<rparr>)"
  "(logs ds k)\<lparr>k_buffer := v_buffer\<rparr> = logs ds (k\<lparr>k_buffer := v_buffer\<rparr>)"
  "(logs ds k)\<lparr>k_reads := v_reads\<rparr> = logs ds (k\<lparr>k_reads := v_reads\<rparr>)"
  by (simp_all add: logs_def)

lemma logs_own [simp]: "logs (k_output k) k = k"
  by (simp add: logs_def)

section \<open>Input\<close>

lemma ack_logs [simp]:
  "kcp_update_ack rtt (logs ds k) = logs ds (kcp_update_ack rtt k)"
  "kcp_shrink_buf (logs ds k) = logs ds (kcp_shrink_buf k)"
  "kcp_parse_ack sn (logs ds k) = logs ds (kcp_parse_ack sn k)"
  "kcp_parse_fastack sn ts (logs ds k) = logs ds (kcp_parse_fastack sn ts k)"
  "kcp_parse_una una (logs ds k) = map_prod id (logs ds) (kcp_parse_una una k)"
  "kcp_ack_push sn ts (logs ds k) = logs ds (kcp_ack_push sn ts k)"
  "currentMs clk (logs ds k) = map_prod id (logs ds) (currentMs clk k)"
  by (simp_all add: kcp_update_ack_def kcp_shrink_buf_def kcp_parse_ack_def kcp_parse_fastack_def kcp_parse_una_def
      kcp_ack_push_def currentMs_def Let_def split: option.split prod.split)

lemma move_ready_logs [simp]: "move_ready (logs ds k) = logs ds (move_ready k)"
proof (induction k rule: move_ready.induct)
  case (1 k)
  show ?case
  proof (cases "heap_Pop (k_rcv_buf k)")
    case None
    then show ?thesis by (simp add: move_ready.simps[of k] move_ready.simps[of "logs ds k"])
  next
    case (Some x)
    obtain seg h where x: "x = (seg, h)" by (cases x)
    then show ?thesis
      using 1[OF Some, of seg h] Some by (simp add: move_ready.simps[of k] move_ready.simps[of "logs ds k"])
  qed
qed

lemma parse_data_logs [simp]: "kcp_parse_data seg (logs ds k) = map_option (map_prod id (logs ds)) (kcp_parse_data seg k)"
  by (simp add: kcp_parse_data_def Let_def)

definition v_logs :: "bytes list \<Rightarrow> input_vars \<Rightarrow> input_vars" where
  "v_logs ds v = (logs ds (fst v), snd v)"

lemma v_logs_pair [simp]: "v_logs ds (k, vs) = (logs ds k, vs)" "fst (v_logs ds v) = logs ds (fst v)"
  by (simp_all add: v_logs_def)

lemma input_segment_logs [simp]:
  "input_segment regular seg (v_logs ds v) = map_option (v_logs ds) (input_segment regular seg v)"
proof -
  obtain k flag latest slides where v: "v = (k, flag, latest, slides)" by (cases v)
  obtain n ku where "kcp_parse_una (sg_una seg) (if regular then k\<lparr>k_rmt_wnd := ucast (sg_wnd seg)\<rparr> else k) = (n, ku)"
    by fastforce
  then show ?thesis
    by (cases regular) (auto simp: input_segment_def v Let_def bind_map_option comp_def map_prod_def case_prod_beta
        map_option_bind split: option.split)
qed

lemma input_loop_logs [simp]:
  "input_loop regular data (v_logs ds v) = map_option (map_sum (map_prod id (logs ds)) (v_logs ds)) (input_loop regular data v)"
proof (induction regular data v rule: input_loop.induct)
  case (1 regular data v)
  show ?case
  proof (cases "length data < IKCP_OVERHEAD \<or> input_header data = None")
    case True
    then show ?thesis by (auto simp: input_loop.simps[of regular data])
  next
    case False
    then obtain seg len rest where "\<not> length data < IKCP_OVERHEAD" "input_header data = Some (seg, len, rest)" by auto
    then show ?thesis
      using 1[of "(seg, len, rest)" seg "(len, rest)" len rest]
      by (auto simp: input_loop.simps[of regular data] split: option.split)
  qed
qed

lemma input_rtt_logs [simp]: "input_rtt clk regular flag latest (logs ds k) = logs ds (input_rtt clk regular flag latest k)"
  by (simp add: input_rtt_def currentMs_def Let_def)

lemma cwnd_avoid_logs [simp]: "cwnd_avoid (logs ds k) = map_option (logs ds) (cwnd_avoid k)"
  unfolding cwnd_avoid_def Let_def logs_simps by simp

lemma input_cwnd_logs [simp]: "input_cwnd una (logs ds k) = map_option (logs ds) (input_cwnd una k)"
  unfolding input_cwnd_def logs_simps cwnd_avoid_logs by (cases "cwnd_avoid k") auto

section \<open>Flush\<close>

lemma flush_acks_logs [simp]: "flush_acks (logs ds k) acks seg wr = flush_acks k acks seg wr"
  by (induction acks arbitrary: seg wr) (simp_all add: Let_def split: option.split)

lemma flush_move_logs [simp]: "flush_move fuel cwnd n (logs ds k) = map_option (map_prod id (logs ds)) (flush_move fuel cwnd n k)"
  by (induction fuel arbitrary: n k) (simp_all add: Let_def split: option.split prod.split)

lemma flush_parts_logs [simp]:
  "flush_probe_wait clk (logs ds k) = logs ds (flush_probe_wait clk k)"
  "flush_probe_cmd (logs ds k) flag cmd sw = flush_probe_cmd k flag cmd sw"
  "flush_congestion cwnd resent change lost (logs ds k) = logs ds (flush_congestion cwnd resent change lost k)"
  "kcp_wnd_unused (logs ds k) = kcp_wnd_unused k"
  "need_send (logs ds k) resent n x rt = need_send k resent n x rt"
  "send_segment clk (logs ds k) seg x rt = send_segment clk k seg x rt"
  by (simp_all add: flush_probe_wait_def flush_probe_cmd_def flush_congestion_def Let_def kcp_wnd_unused_def
      need_send_def send_segment_def currentMs_def split: prod.split)

lemma send_visit_logs [simp]: "send_visit clk (logs ds k) resent n seg = send_visit clk k resent n seg"
  by (simp only: send_visit_def fun_eq_iff flush_parts_logs) simp

text \<open>The datagrams of a flush come after those logged before.\<close>

definition sent_after :: "bytes list \<Rightarrow> 'r \<times> KCP \<Rightarrow> 'r \<times> KCP" where
  "sent_after ds = map_prod id (\<lambda>k. logs (ds @ k_output k) k)"

lemma flush_move_keeps: "flush_move f cwnd n k = Some (m, k') \<Longrightarrow> k_output k' = k_output k"
  by (induction f arbitrary: n k) (auto simp: Let_def split: if_splits option.splits prod.splits)

lemma flush_congestion_keeps: "k_output (flush_congestion cwnd resent change lost k) = k_output k"
  by (simp add: flush_congestion_def Let_def)

definition flush_rest :: "clock \<Rightarrow> segment \<Rightarrow> writer \<Rightarrow> u32 \<Rightarrow> nat \<Rightarrow> KCP \<Rightarrow> (u32 \<times> KCP) option" where
  "flush_rest clk seg wr cwnd n k =
     (let resent = (if sint (k_fastresend k) \<le> 0 then 0xffffffff else k_fastresend k);
          current = clk (k_reads k);
          k = k\<lparr>k_reads := k_reads k + 1\<rparr>;
          (b, st) = rb_ForEach (send_visit clk k resent n seg) (k_snd_buf k)
           (Some \<lparr>rt_current = current, rt_change = 0, rt_lost = 0, rt_minrto = sint (k_interval k),
                  rt_wr = wr, rt_state = k_state k, rt_reads = k_reads k\<rparr>)
      in map_option (\<lambda>rt. (word_of_int (rt_minrto rt), flush_congestion cwnd resent (rt_change rt) (rt_lost rt)
           (k\<lparr>k_snd_buf := b, k_state := rt_state rt, k_reads := rt_reads rt,
               k_output := k_output k @ flushBuffer (rt_wr rt)\<rparr>))) st)"

lemma flush_data_split:
  "flush_data clk seg wr k
     = flush_move (Suc (rb_Len (k_snd_queue k))) (flush_window k) 0 k \<bind> (\<lambda>(n, k1). flush_rest clk seg wr (flush_window k) n k1)"
  unfolding flush_data_def flush_rest_def flush_window_def currentMs_def Let_def prod.case
  by (intro bind_option_cong) (auto simp: map_conv_bind_option comp_def simp del: flush_move.simps split: prod.split)

lemma flush_rest_logs:
  assumes "k_output k = []"
  shows "flush_rest clk seg wr cwnd n (logs ds k) = map_option (sent_after ds) (flush_rest clk seg wr cwnd n k)"
  using assms by (simp add: flush_rest_def Let_def sent_after_def flush_congestion_keeps option.map_comp comp_def flip: logs_def split: prod.split)

lemma flush_data_logs:
  assumes "k_output k = []"
  shows "flush_data clk seg wr (logs ds k) = map_option (sent_after ds) (flush_data clk seg wr k)"
proof -
  have cwnd: "flush_window (logs ds k) = flush_window k" by (simp add: flush_window_def Let_def)
  show ?thesis
  proof (cases "flush_move (Suc (rb_Len (k_snd_queue k))) (flush_window k) 0 k")
    case None
    then show ?thesis unfolding flush_data_split flush_move_logs logs_simps cwnd by simp
  next
    case (Some x)
    then show ?thesis
      using flush_move_keeps[of _ "flush_window k" 0 k "fst x" "snd x"] assms
      unfolding flush_data_split flush_move_logs logs_simps cwnd
      by (simp add: flush_rest_logs case_prod_beta del: flush_move.simps)
  qed
qed

lemma flush_probe_keeps: "k_output (flush_probe_wait clk k) = k_output k"
  by (simp add: flush_probe_wait_def currentMs_def Let_def)

lemma kcp_flush_logs:
  assumes "k_output k = []"
  shows "kcp_flush clk ackOnly (logs ds k) = map_option (sent_after ds) (kcp_flush clk ackOnly k)"
proof -
  have data: "flush_data clk seg wr (logs ds ((flush_probe_wait clk (k\<lparr>k_acklist := []\<rparr>))\<lparr>k_probe := 0\<rparr>))
      = map_option (sent_after ds) (flush_data clk seg wr ((flush_probe_wait clk (k\<lparr>k_acklist := []\<rparr>))\<lparr>k_probe := 0\<rparr>))" for seg wr
    by (rule flush_data_logs) (simp add: flush_probe_keeps assms)
  show ?thesis
    by (cases ackOnly) (auto simp: kcp_flush_def Let_def data sent_after_def assms map_option_bind comp_def intro!: bind_option_cong split: prod.split)
qed

lemma logs_Nil: "k_output k = [] \<longleftrightarrow> logs [] k = k"
  by (metis logs_own logs_simps(36))

lemma kcp_Input_logs:
  assumes out: "k_output k = []"
  shows "kcp_Input clk data regular ackNoDelay (logs ds k) = map_option (sent_after ds) (kcp_Input clk data regular ackNoDelay k)"
proof -
  let ?v = "(k, False, 0, False)"
  have v: "v_logs ds ?v = (logs ds k, False, 0, False)" for ds by simp
  have same: "input_loop regular data ?v = map_option (map_sum (map_prod id (logs [])) (v_logs [])) (input_loop regular data ?v)"
    using input_loop_logs[of regular data "[]" ?v] out by (simp add: logs_Nil)
  show ?thesis
  proof (cases "input_loop regular data ?v")
    case None
    then show ?thesis
      using input_loop_logs[of regular data ds ?v] out by (simp add: kcp_Input_def sent_after_def v)
  next
    case (Some r)
    note loop = input_loop_logs[of regular data ds ?v, unfolded v Some]
    show ?thesis
    proof (cases r)
      case (Inl e)
      have "k_output (snd e) = []" using same unfolding Some Inl by (cases e) (simp add: logs_Nil)
      then show ?thesis using Some loop out Inl by (cases e) (simp add: kcp_Input_def sent_after_def)
    next
      case (Inr w)
      obtain k1 flag latest slides where w: "w = (k1, flag, latest, slides)" by (cases w)
      have "logs [] k1 = k1" using same unfolding Some Inr w by simp
      then have k2: "logs [] (input_rtt clk regular flag latest k1) = input_rtt clk regular flag latest k1"
        by (metis input_rtt_logs)
      show ?thesis
      proof (cases "input_cwnd (k_snd_una k) (input_rtt clk regular flag latest k1)")
        case None
        then show ?thesis using Some loop Inr w out by (simp add: kcp_Input_def sent_after_def)
      next
        case c: (Some k3)
        have k3: "k_output k3 = []"
          using input_cwnd_logs[of "k_snd_una k" "[]" "input_rtt clk regular flag latest k1"] unfolding k2 c by (simp add: logs_Nil)
        have fl: "kcp_flush clk b (logs ds k3) \<bind> (\<lambda>(_, k'). Some (0, k')) = map_option (sent_after ds) (kcp_flush clk b k3 \<bind> (\<lambda>(_, k'). Some (0, k')))"
          for b
          unfolding kcp_flush_logs[OF k3] by (cases "kcp_flush clk b k3") (auto simp: sent_after_def)
        show ?thesis
          using Some loop Inr w out c k3 by (simp add: kcp_Input_def fl) (simp add: sent_after_def)
      qed
    qed
  qed
qed

end
