(* ===== verification/Peer_Progress.thy ===== *)
theory Peer_Progress
  imports Peer_Session Kcp_Progress Kcp_Output
begin

text \<open>
  Two peers make progress as their KCP connections do: taking in datagrams and the flush of a
  tick are the operations of \<open>kcp.go\<close> on the ends of the session, so that what a round of
  datagrams achieves (\<open>Kcp_Progress\<close>) holds for the peers.
\<close>

section \<open>A peer runs its KCP\<close>

lemma peer_end_logs: "e_k (peer_end p) = logs (outs (p_events p)) (p_Kcp p)"
  by (simp add: peer_end_def logs_def)

lemma peer_end_output:
  "e_k (peer_end (kcp_output k p)) = logs (outs (p_events p) @ k_output k) k"
  by (simp add: peer_end_def kcp_output_def logs_def)

lemma flush_parts_logged [simp]:
  "flush_flight (logs ds k) = flush_flight k" "fast_limit (logs ds k) = fast_limit k"
  by (simp_all add: flush_flight_def flush_moved_def flush_window_def fast_limit_def Let_def)

text \<open>A datagram that the peer does not hand to KCP would not change it either.\<close>

lemma input_header_cmd: "input_header data = Some (seg, len, rest) \<Longrightarrow> sg_cmd seg = data ! 4"
  by (cases data; cases "tl data"; cases "tl (tl data)"; cases "tl (tl (tl data))"; cases "tl (tl (tl (tl data)))")
    (auto simp: input_header_def ikcp_decode32u_def ikcp_decode8u_def ikcp_decode16u_def bind_eq_Some_conv split: if_splits)

lemma cmd_range: "IKCP_CMD_PUSH \<le> c \<and> c \<le> IKCP_CMD_WINS \<Longrightarrow> c = IKCP_CMD_PUSH \<or> c = IKCP_CMD_ACK \<or> c = IKCP_CMD_WASK \<or> c = IKCP_CMD_WINS"
  for c :: byte
  by (simp add: word_le_nat_alt word_unat_eq_iff) linarith

lemma input_rejects:
  assumes "length m < IKCP_OVERHEAD \<or> \<not> (m ! 4 \<ge> IKCP_CMD_PUSH \<and> m ! 4 \<le> IKCP_CMD_WINS)"
  shows "\<exists>code. kcp_Input clk m regular ackNoDelay k = Some (code, k)"
proof (cases "length m < IKCP_OVERHEAD")
  case True
  then show ?thesis by (simp add: kcp_Input_def)
next
  case False
  then obtain seg len rest where h: "input_header m = Some (seg, len, rest)" using input_header_Some[of m] by auto
  have "sg_cmd seg \<noteq> IKCP_CMD_PUSH" "sg_cmd seg \<noteq> IKCP_CMD_ACK" "sg_cmd seg \<noteq> IKCP_CMD_WASK" "sg_cmd seg \<noteq> IKCP_CMD_WINS"
    using assms False input_header_cmd[OF h] by auto
  then show ?thesis using False h by (simp add: kcp_Input_def input_loop.simps)
qed

lemma OnRaw_end:
  assumes inv: "peer_inv p" and len: "length m \<le> unat (k_mtu (p_Kcp p))"
  shows "\<exists>q code. OnRawInputReliable kc m p = Some q \<and> kcp_Input kc m True True (e_k (peer_end p)) = Some (code, e_k (peer_end q))
    \<and> peer_inv q \<and> k_mtu (p_Kcp q) = k_mtu (p_Kcp p) \<and> p_received q = p_received p \<and> p_State q = p_State p \<and> p_Cookie q = p_Cookie p"
proof -
  obtain q where q: "OnRawInputReliable kc m p = Some q" "peer_takes m p q" using OnRawInputReliable_ok[OF assms] by blast
  have f: "peer_inv q" "k_mtu (p_Kcp q) = k_mtu (p_Kcp p)" "p_received q = p_received p" "p_Cookie q = p_Cookie p"
    using q(2) by (simp_all add: peer_takes_def peer_fixed_def)
  have out: "k_output (p_Kcp p) = []" using inv by (simp add: peer_inv_def)
  show ?thesis
  proof (cases "length m < IKCP_OVERHEAD \<or> \<not> (m ! 4 \<ge> IKCP_CMD_PUSH \<and> m ! 4 \<le> IKCP_CMD_WINS)")
    case True
    then have "q = p" using q(1) by (simp add: OnRawInputReliable_def)
    then show ?thesis using input_rejects[OF True, of kc True True "e_k (peer_end p)"] q(1) f by auto
  next
    case False
    then obtain code k where k: "kcp_Input kc m True True (p_Kcp p) = Some (code, k)" "q = kcp_output k p"
      using q(1) by (auto simp: OnRawInputReliable_def bind_eq_Some_conv)
    have "kcp_Input kc m True True (e_k (peer_end p)) = Some (code, logs (outs (p_events p) @ k_output k) k)"
      unfolding peer_end_logs kcp_Input_logs[OF out] k(1) by (simp add: sent_after_def)
    then have "kcp_Input kc m True True (e_k (peer_end p)) = Some (code, e_k (peer_end q))"
      unfolding k(2) peer_end_output .
    moreover have "p_State q = p_State p" by (simp add: k(2) kcp_output_def)
    ultimately show ?thesis using q(1) f by blast
  qed
qed

fun raw_all :: "clock \<Rightarrow> bytes list \<Rightarrow> 'a KcpPeer_scheme \<Rightarrow> 'a KcpPeer_scheme option" where
  "raw_all kc [] p = Some p"
| "raw_all kc (m # ms) p = do { p \<leftarrow> OnRawInputReliable kc m p; raw_all kc ms p }"

lemma raw_all_end:
  assumes "peer_inv p" and "\<forall>m \<in> set ms. length m \<le> unat (k_mtu (p_Kcp p))"
  shows "\<exists>q. raw_all kc ms p = Some q \<and> take_all kc True True ms (e_k (peer_end p)) = Some (e_k (peer_end q))"
  using assms
proof (induction ms arbitrary: p)
  case (Cons m ms)
  obtain q code where q: "OnRawInputReliable kc m p = Some q"
      "kcp_Input kc m True True (e_k (peer_end p)) = Some (code, e_k (peer_end q))" "peer_inv q" "k_mtu (p_Kcp q) = k_mtu (p_Kcp p)"
    using OnRaw_end[of p m kc] Cons.prems by auto
  then show ?case using Cons.IH[OF q(3)] Cons.prems(2) by simp
qed simp

section \<open>The flush of a tick\<close>

definition flush_due :: "clock \<Rightarrow> 'a KcpPeer_scheme \<Rightarrow> bool" where
  "flush_due pc p \<longleftrightarrow> p_State p \<noteq> KcpDisconnected \<and> k_state (p_Kcp p) \<noteq> 0xFFFFFFFF
     \<and> (p_flushInterval p = 0 \<or> p_flushInterval p \<le> pc (p_reads p))"

lemma TickOutgoing_flushes:
  assumes "flush_due pc p" and "peer_TickOutgoing kc pc h p = Some q"
  shows "\<exists>t k. kcp_flush kc False (p_Kcp p) = Some (t, k) \<and> p_Kcp q = k\<lparr>k_output := []\<rparr>
    \<and> p_events q = p_events p @ map (\<lambda>m. EvRawSend (raw_reliable (p_Cookie p) m)) (k_output k)"
proof -
  have "tick_flush kc pc p = Some q"
    using assms by (cases "p_State p") (auto simp: flush_due_def peer_TickOutgoing_def HandleDeadLink_def)
  then show ?thesis
    using assms(1) by (auto simp: tick_flush_def peer_Time_def flush_due_def bind_eq_Some_conv kcp_output_def split: if_splits)
qed

section \<open>A round\<close>

text \<open>
  What a round of datagrams from \<open>a\<close> to \<open>b\<close> achieves: \<open>ds\<close> has those of the flush of \<open>a\<close>, and may
  have older ones and repetitions.
\<close>

lemma peers_round:
  assumes fine: "peers_fine mtu mss a b"
    and few: "seg_total (unat mss) (p_sent a) < 2 ^ 31" "seg_total (unat mss) (p_sent b) < 2 ^ 31"
    and calm: "EvError ErrorCodeCongestion \<notin> set (p_events a)" "EvError ErrorCodeCongestion \<notin> set (p_events b)"
    and flush: "kcp_flush kc False (p_Kcp a) = Some (t, k)"
    and due: "\<forall>x \<in> set (flush_flight (p_Kcp a)). sg_acked x \<noteq> 1 \<longrightarrow> owed kc (fast_limit (p_Kcp a)) x"
    and room: "unat (k_snd_nxt k) + ReceiveQueueCount b \<le> unat (k_rcv_nxt (p_Kcp b)) + unat (k_rcv_wnd (p_Kcp b))"
    and ds: "set (k_output k) \<subseteq> set ds" "set ds \<subseteq> set (outs (p_events a)) \<union> set (k_output k)"
  shows "\<exists>b'. raw_all kc' ds b = Some b' \<and> k_rcv_nxt (p_Kcp b') = k_snd_nxt k
    \<and> msg_log (unat mss) (p_received b) @ map pl (rcv_queue_list (p_Kcp b')) = take (unat (k_snd_nxt k)) (msg_log (unat mss) (p_sent a))
    \<and> unat (k_snd_nxt k) + length (snd_queue_list k) = length (msg_log (unat mss) (p_sent a))"
proof -
  let ?a = "peer_end a" and ?b = "peer_end b"
  have inv: "peer_inv a" "peer_inv b" using fine by (simp_all add: peers_fine_def peer_fine_def)
  have fixed: "k_mss (p_Kcp a) = mss" "k_mtu (p_Kcp a) = k_mtu (p_Kcp b)" "k_conv (p_Kcp a) = k_conv (p_Kcp b)"
    "k_mss (p_Kcp b) = mss"
    using fine by (simp_all add: peers_fine_def)
  have log: "e_log ?a = msg_log (unat mss) (p_sent a)" "e_log ?b = msg_log (unat mss) (p_sent b)"
    using fixed by (simp_all add: e_log_def peer_end_def)
  have short: "length (e_log ?a) < 2 ^ 31" "length (e_log ?b) < 2 ^ 31" using few by (simp_all add: log length_msg_log)
  have s: "session_ok ?a ?b" "sync (e_k ?a) (e_k ?b)"
    using fine few calm short by (simp_all add: peers_fine_def calm_def)
  let ?o = "outs (p_events a)"
  have out: "k_output (p_Kcp a) = []" using inv(1) by (simp add: peer_inv_def)
  have fl: "kcp_flush kc False (e_k ?a) = Some (t, logs (?o @ k_output k) k)"
    unfolding peer_end_logs kcp_flush_logs[OF out] flush by (simp add: sent_after_def)
  have "sends_ok (p_Kcp a) k" using kcp_flush_sends[of "p_Kcp a" kc False] flush inv(1) by (auto simp: peer_inv_def)
  then have len: "\<forall>m \<in> set (k_output k). length m \<le> unat (k_mtu (p_Kcp a))"
    using peer_sends[OF inv(1), of k] by (auto simp: peer_does_def kcp_output_def events_ok_def)
  have rq: "rb_inv (k_rcv_queue (p_Kcp b))" using inv(2) by (auto simp: peer_inv_def rcv_inv_def)
  have "\<exists>kb. take_all kc' True True ds (e_k ?b) = Some kb \<and> k_rcv_nxt kb = k_snd_nxt (logs (?o @ k_output k) k)
    \<and> msg_log (unat (k_mss (e_k ?a))) (e_got ?b) @ map pl (rcv_queue_list kb)
        = take (unat (k_snd_nxt (logs (?o @ k_output k) k))) (e_log ?a)"
  proof (rule round_takes[OF s short _ fl])
    show "k_conv (e_k ?a) = k_conv (e_k ?b)" using fixed(3) by (simp add: peer_end_def)
    show "\<forall>x \<in> set (flush_flight (e_k ?a)). sg_acked x \<noteq> 1 \<longrightarrow> owed kc (fast_limit (e_k ?a)) x"
      using due unfolding peer_end_logs flush_parts_logged .
    show "unat (k_snd_nxt (logs (?o @ k_output k) k)) + length (rcv_queue_list (e_k ?b))
        \<le> unat (k_rcv_nxt (e_k ?b)) + unat (k_rcv_wnd (e_k ?b))"
      using room rq by (simp add: peer_end_def ReceiveQueueCount_def rb_Len_list)
    show "set (drop (length (k_output (e_k ?a))) (k_output (logs (?o @ k_output k) k))) \<subseteq> set ds"
      "set ds \<subseteq> set (k_output (logs (?o @ k_output k) k))"
      using ds by (simp_all add: peer_end_logs)
  qed
  then obtain kb where kb: "take_all kc' True True ds (e_k ?b) = Some kb" "k_rcv_nxt kb = k_snd_nxt k"
      "msg_log (unat mss) (p_received b) @ map pl (rcv_queue_list kb) = take (unat (k_snd_nxt k)) (e_log ?a)"
    using fixed(1) by (auto simp: peer_end_def)
  have "\<forall>m \<in> set ds. length m \<le> unat (k_mtu (p_Kcp b))"
  proof
    fix m
    assume "m \<in> set ds"
    then have "m \<in> set (outs (p_events a)) \<or> m \<in> set (k_output k)" using ds(2) by blast
    then show "length m \<le> unat (k_mtu (p_Kcp b))"
      using len peers_fine_net[OF peers_fine_sym[OF fine]] unfolding fixed(2) by blast
  qed
  then obtain b' where b': "raw_all kc' ds b = Some b'" "take_all kc' True True ds (e_k ?b) = Some (e_k (peer_end b'))"
    using raw_all_end[OF inv(2)] by blast
  then have q: "kb = logs (outs (p_events b')) (p_Kcp b')" using kb(1) by (simp add: peer_end_logs)
  let ?k = "logs (?o @ k_output k) k"
  have "ep_step (set (k_output (e_k ?b))) ?a (?a\<lparr>e_k := ?k\<rparr>)" using fl by (rule ep_flush)
  then have "session_ok (?a\<lparr>e_k := ?k\<rparr>) ?b" using session_step s(1) short(2) by fastforce
  moreover from this have "k_mss k = mss" using session_ok_mss[of "?a\<lparr>e_k := ?k\<rparr>" ?b] fixed(4) by (simp add: peer_end_def)
  then have "e_log (?a\<lparr>e_k := ?k\<rparr>) = e_log ?a" using fixed(1) by (simp add: e_log_def peer_end_def)
  ultimately have "unat (k_snd_nxt k) + length (snd_queue_list k) = length (e_log ?a)"
    using log_bound[of "?a\<lparr>e_k := ?k\<rparr>"] short(1) by (simp add: session_ok_def)
  then show ?thesis using b'(1) kb(2,3) q by (simp add: log(1))
qed

end
