(* ===== verification/Link_Progress.thy ===== *)
theory Link_Progress
  imports Peer_Progress Server_Examples
begin

text \<open>
  A client and the connection of a server make progress: the datagrams of one tick of the client,
  once they reach the connection, bring it up to date.
\<close>

section \<open>Datagrams for a connection\<close>

fun conn_take :: "clock \<Rightarrow> clock \<Rightarrow> 'a handler \<Rightarrow> bytes list \<Rightarrow> 'a KcpPeer_scheme \<Rightarrow> 'a KcpPeer_scheme option" where
  "conn_take kc pc h [] d = Some d"
| "conn_take kc pc h (seg # segs) d = do { d \<leftarrow> conn_RawInput kc pc h seg d; conn_take kc pc h segs d }"

lemma raw_cookie_reliable: "raw_cookie (raw_reliable cookie m) = cookie"
  by (simp add: raw_cookie_def Decode32U_def raw_reliable_eq drop_Cons')

lemma conn_raw_reliable:
  assumes "p_State d = KcpAuthenticated \<longrightarrow> p_Cookie d = cookie"
  shows "conn_RawInput kc pc h (raw_reliable cookie m) d = OnRawInputReliable kc m d"
proof (cases "m = []")
  case True
  then show ?thesis by (simp add: conn_RawInput_eq raw_reliable_eq OnRawInputReliable_def)
next
  case False
  then show ?thesis
    using assms by (auto simp: conn_RawInput_eq raw_cookie_reliable dispatch_def) (simp_all add: raw_reliable_eq)
qed

lemma conn_take_reliable:
  assumes "p_State d = KcpAuthenticated \<longrightarrow> p_Cookie d = cookie"
  shows "conn_take kc pc h (map (raw_reliable cookie) ms) d = raw_all kc ms d"
  using assms
proof (induction ms arbitrary: d)
  case (Cons m ms)
  have "p_State q = p_State d \<and> p_Cookie q = p_Cookie d" if "OnRawInputReliable kc m d = Some q" for q
    using that by (auto simp: OnRawInputReliable_def kcp_output_def bind_eq_Some_conv split: if_splits)
  then show ?case
    using Cons by (cases "OnRawInputReliable kc m d") (simp_all add: conn_raw_reliable)
qed simp

section \<open>The first tick\<close>

definition link_hello :: "(KcpClient \<times> KcpClient) option" where
  "link_hello = do {
     c \<leftarrow> NewKcpClient demo_config;
     (_, c) \<leftarrow> Connect (at 100) print_user True True c;
     c' \<leftarrow> client_TickOutgoing (at 100) (at 100) print_user c;
     Some (c, c')
   }"

definition hello_datagram :: bytes where
  "hello_datagram = drop 5 (hd demo_ds1)"

lemma link_hello_runs:
  "map_option (\<lambda>(c, c'). (cl_active c, p_State c, k_state (p_Kcp c), p_flushInterval c, p_Cookie c)) link_hello
     = Some (True, KcpConnected, 0, 0, 0)"
  "map_option (\<lambda>(c, c'). (list_all (\<lambda>s. sg_xmit s = 0) (flush_flight (p_Kcp c)), p_sent c, uncongested (p_events c))) link_hello
     = Some (True, [[1]], True)"
  "map_option (\<lambda>(c, c'). (k_snd_nxt (p_Kcp c'), SendQueueCount c', outs (p_events c'), outs (drop (length (p_events c)) (p_events c')))) link_hello
     = Some (1, 0, [hello_datagram], [hello_datagram])"
  by code_simp+

lemma conn_hello_runs:
  "map_option (\<lambda>d. (p_State d, ReceiveQueueCount d, k_rcv_nxt (p_Kcp d), 1 \<le> k_rcv_wnd (p_Kcp d), p_sent d, p_received d, p_events d))
     (NewKcpServerConnection demo_config 0x04030201) = Some (KcpConnected, 0, 0, True, [], [], [])"
  by code_simp

lemma hello_log:
  "msg_log (unat (k_mss (reset_kcp demo_config))) [[1]] = [(0, [1])]" "seg_total (unat (k_mss (reset_kcp demo_config))) [[1]] = 1"
  by code_simp+

section \<open>Properties\<close>

text \<open>
  C6: a tick of the client makes progress. Take any state that a client and its connection reach with
  fewer than 2 to the 31 segments each and without a congestion report, in which the client is
  active and accepted: the connection is not authenticated yet, or its cookie is the one the client
  uses (as long as the server's answers are lost the client has not learned it, and its datagrams
  are dropped). If a flush of the client is due and owes a transmission to every segment that is
  not acknowledged, and the connection has room for them, then the KCP datagrams of this tick,
  received by the connection in any order, any number of times and among any older ones, bring
  it up to date: it expects what the client will send next, and together with the messages read
  before, its queue holds a prefix of what the client has sent; when nothing stays queued at the
  client, that is every message of its user. (A flush is due when the client's peer is not
  disconnected, its link is not dead and its flush time has come.)
\<close>

theorem client_round_delivers:
  assumes "config_ok cfg" and "client_user u" and "peer_handler h"
    and "NewKcpClient cfg = Some c0" and "Connect kc0 u True True c0 = Some (err, c1)"
    and "NewKcpServerConnection cfg cookie = Some d0"
    and "link_session u h (c1, KcpPeer.extend d0 x) (c, d)"
    and "seg_total (unat (k_mss (reset_kcp cfg))) (p_sent c) < 2 ^ 31"
    and "seg_total (unat (k_mss (reset_kcp cfg))) (p_sent d) < 2 ^ 31"
    and "EvError ErrorCodeCongestion \<notin> set (p_events c)" and "EvError ErrorCodeCongestion \<notin> set (p_events d)"
    and "cl_active c" and "flush_due pc c" and "client_TickOutgoing kc pc u c = Some c'"
    and "\<forall>s \<in> set (flush_flight (p_Kcp c)). sg_acked s \<noteq> 1 \<longrightarrow> owed kc (fast_limit (p_Kcp c)) s"
    and "p_State d = KcpAuthenticated \<longrightarrow> p_Cookie d = p_Cookie c"
    and "unat (k_snd_nxt (p_Kcp c')) + ReceiveQueueCount d \<le> unat (k_rcv_nxt (p_Kcp d)) + unat (k_rcv_wnd (p_Kcp d))"
    and "set (outs (drop (length (p_events c)) (p_events c'))) \<subseteq> set ms" and "set ms \<subseteq> set (outs (p_events c'))"
  shows "\<exists>d'. conn_take kc' pc' h (map (raw_reliable (p_Cookie c)) ms) d = Some d'
    \<and> k_rcv_nxt (p_Kcp d') = k_snd_nxt (p_Kcp c')
    \<and> prefix (msg_log (unat (k_mss (reset_kcp cfg))) (p_received d) @ map pl (rcv_queue_list (p_Kcp d')))
        (msg_log (unat (k_mss (reset_kcp cfg))) (p_sent c))
    \<and> (SendQueueCount c' = 0 \<longrightarrow> msg_log (unat (k_mss (reset_kcp cfg))) (p_received d) @ map pl (rcv_queue_list (p_Kcp d'))
        = msg_log (unat (k_mss (reset_kcp cfg))) (p_sent c))"
proof -
  let ?M = "unat (k_mss (reset_kcp cfg))"
  have fine: "peers_fine (k_mtu (reset_kcp cfg)) (k_mss (reset_kcp cfg)) c d"
    using link_session_fine[OF assms(7,2,3) link_start_fine[OF assms(1,2,4,5,6)]] by simp
  have tick: "peer_TickOutgoing kc pc (client_handler u) c = Some c'"
    using assms(12,14) by (simp add: client_TickOutgoing_def)
  then obtain t k where k: "kcp_flush kc False (p_Kcp c) = Some (t, k)" "p_Kcp c' = k\<lparr>k_output := []\<rparr>"
      "p_events c' = p_events c @ map (\<lambda>m. EvRawSend (raw_reliable (p_Cookie c) m)) (k_output k)"
    using TickOutgoing_flushes[OF assms(13)] by blast
  obtain d' where d': "raw_all kc' ms d = Some d'" "k_rcv_nxt (p_Kcp d') = k_snd_nxt k"
      "msg_log ?M (p_received d) @ map pl (rcv_queue_list (p_Kcp d')) = take (unat (k_snd_nxt k)) (msg_log ?M (p_sent c))"
      "unat (k_snd_nxt k) + length (snd_queue_list k) = length (msg_log ?M (p_sent c))"
    using peers_round[OF fine assms(8-11) k(1) assms(15), of ms kc'] assms(17-19) by (auto simp: k(2,3))
  have "take (unat (k_snd_nxt k)) (msg_log ?M (p_sent c)) = msg_log ?M (p_sent c)" if "SendQueueCount c' = 0"
  proof -
    have "kcp_inv (p_Kcp c)" using fine by (simp add: peers_fine_def peer_fine_def peer_inv_def)
    then have "rb_inv (k_snd_queue k)" using kcp_flush_sends[of "p_Kcp c" kc False] k(1) by (auto simp: sends_ok_def kcp_inv_def snd_inv_def)
    then have "snd_queue_list k = []" using that k(2) by (simp add: SendQueueCount_def rb_Len_list)
    then show ?thesis using d'(4) by simp
  qed
  then show ?thesis using d' by (simp add: conn_take_reliable[OF assms(16)] k(2) take_is_prefix)
qed

theorem client_round_delivers_witness:
  "\<exists>d0 d'. conn_take (at 100) (at 100) demo_handler (map (raw_reliable 0) [hello_datagram, hello_datagram])
        (KcpPeer.extend d0 (server_conn.fields demo_server)) = Some d' \<and> map pl (rcv_queue_list (p_Kcp d')) = [(0, [1])]"
proof -
  obtain c c' where r: "link_hello = Some (c, c')" using link_hello_runs(1) by auto
  obtain c0 err where c: "NewKcpClient demo_config = Some c0" "Connect (at 100) print_user True True c0 = Some (err, c)"
      "client_TickOutgoing (at 100) (at 100) print_user c = Some c'"
    using r by (auto simp: link_hello_def bind_eq_Some_conv)
  obtain d0 where d0: "NewKcpServerConnection demo_config 0x04030201 = Some d0" using conn_hello_runs by auto
  let ?d = "KcpPeer.extend d0 (server_conn.fields demo_server)"
  have fc: "cl_active c" "p_State c = KcpConnected" "k_state (p_Kcp c) = 0" "p_flushInterval c = 0" "p_Cookie c = 0"
    "\<forall>s \<in> set (flush_flight (p_Kcp c)). sg_xmit s = 0" "p_sent c = [[1]]" "uncongested (p_events c)"
    "k_snd_nxt (p_Kcp c') = 1" "SendQueueCount c' = 0" "outs (p_events c') = [hello_datagram]"
    "outs (drop (length (p_events c)) (p_events c')) = [hello_datagram]"
    using link_hello_runs by (simp_all add: r list_all_iff)
  have fd: "p_State ?d = KcpConnected" "ReceiveQueueCount ?d = 0" "k_rcv_nxt (p_Kcp ?d) = 0" "1 \<le> k_rcv_wnd (p_Kcp ?d)"
    "p_sent ?d = []" "p_received ?d = []" "p_events ?d = []"
    using conn_hello_runs by (simp_all add: d0 KcpPeer.defs ReceiveQueueCount_def)
  have one: "1 \<le> unat (k_rcv_wnd (p_Kcp ?d))" using fd(4) by (simp add: word_le_nat_alt)
  have total: "seg_total (unat (k_mss (reset_kcp demo_config))) [[1]] < 2 ^ 31" "seg_total (unat (k_mss (reset_kcp demo_config))) [] < 2 ^ 31"
    by (simp_all add: hello_log(2)) (simp add: seg_total_def)
  have "\<exists>d'. conn_take (at 100) (at 100) demo_handler (map (raw_reliable (p_Cookie c)) [hello_datagram, hello_datagram]) ?d = Some d'
    \<and> k_rcv_nxt (p_Kcp d') = k_snd_nxt (p_Kcp c')
    \<and> prefix (msg_log (unat (k_mss (reset_kcp demo_config))) (p_received ?d) @ map pl (rcv_queue_list (p_Kcp d')))
        (msg_log (unat (k_mss (reset_kcp demo_config))) (p_sent c))
    \<and> (SendQueueCount c' = 0 \<longrightarrow> msg_log (unat (k_mss (reset_kcp demo_config))) (p_received ?d) @ map pl (rcv_queue_list (p_Kcp d'))
        = msg_log (unat (k_mss (reset_kcp demo_config))) (p_sent c))"
    by (rule client_round_delivers[OF demo_config_ok print_handler demo_handler c(1,2) d0 link_start _ _ _ _ fc(1) _ c(3)])
      (use fc fd one total in \<open>simp_all add: uncongested_iff flush_due_def owed_def\<close>)
  then obtain d' where "conn_take (at 100) (at 100) demo_handler (map (raw_reliable 0) [hello_datagram, hello_datagram]) ?d = Some d'"
      "msg_log (unat (k_mss (reset_kcp demo_config))) [] @ map pl (rcv_queue_list (p_Kcp d')) = [(0, [1])]"
    using fc(5,7,10) fd(6) hello_log(1) by auto
  moreover have "msg_log (unat (k_mss (reset_kcp demo_config))) [] = []" by (simp add: msg_log_def)
  ultimately show ?thesis by (metis append_Nil)
qed

end
