(* ===== verification/Pools.thy ===== *)
theory Pools
  imports Peer_Examples
begin

text \<open>
  The pools (\<open>pool.go\<close>, \<open>buffer_pool.go\<close>, \<open>connection_pool.go\<close>) and the peer's use of them.
  A \<open>Pool\<close> keeps its items behind pointers it recycles: the store maps pointers to items, and
  \<open>po_next\<close> is the next pointer that \<open>new\<close> returns. A \<open>sync.Pool\<close> hands out any of its elements,
  or behaves as if it were empty: which one is a number, the choice, an argument of every operation.
  The contents of a recycled buffer are what its last user left there.

  A connection of the connection pool is its peer, if it has one; \<open>Get\<close> overwrites its other
  fields.
\<close>

section \<open>The code\<close>

definition sync_Get :: "nat \<Rightarrow> 'b list \<Rightarrow> 'b option \<times> 'b list" where
  "sync_Get choice xs =
     (if choice < length xs then (Some (xs ! choice), take choice xs @ drop (Suc choice) xs) else (None, xs))"

record 'b Pool =
  po_items :: "nat list"
  po_pointers :: "nat list"
  po_store :: "nat \<Rightarrow> 'b"
  po_next :: nat

definition Pool_New :: "'b \<Rightarrow> 'b Pool" where
  "Pool_New zero = \<lparr>po_items = [], po_pointers = [], po_store = (\<lambda>_. zero), po_next = 0\<rparr>"

text \<open>\<open>item\<close> is what the function given to \<open>New\<close> makes; the zero pool has none.\<close>

definition Pool_Get :: "nat \<Rightarrow> 'b option \<Rightarrow> 'b \<Rightarrow> 'b Pool \<Rightarrow> 'b \<times> 'b Pool" where
  "Pool_Get choice item zero p =
     (let (pooled, items) = sync_Get choice (po_items p);
          p = p\<lparr>po_items := items\<rparr>;
          (pooled, p) =
            (case (pooled, item) of
               (None, Some val) \<Rightarrow>
                 (Some (po_next p), p\<lparr>po_store := (po_store p)(po_next p := val), po_next := Suc (po_next p)\<rparr>)
             | _ \<Rightarrow> (pooled, p))
      in case pooled of
           None \<Rightarrow> (zero, p)
         | Some ptr \<Rightarrow>
             (po_store p ptr, p\<lparr>po_store := (po_store p)(ptr := zero), po_pointers := ptr # po_pointers p\<rparr>))"

definition Pool_Put :: "nat \<Rightarrow> 'b \<Rightarrow> 'b Pool \<Rightarrow> 'b Pool" where
  "Pool_Put choice item p =
     (let (pooled, pointers) = sync_Get choice (po_pointers p);
          p = p\<lparr>po_pointers := pointers\<rparr>;
          (ptr, p) = (case pooled of Some ptr \<Rightarrow> (ptr, p) | None \<Rightarrow> (po_next p, p\<lparr>po_next := Suc (po_next p)\<rparr>))
      in p\<lparr>po_store := (po_store p)(ptr := item), po_items := ptr # po_items p\<rparr>)"

text \<open>
  The pool of a peer's small buffers. A buffer stands for the whole array behind a slice; of a
  recycled one, the first bytes are used.
\<close>

definition GetBuf :: "nat \<Rightarrow> nat \<Rightarrow> nat \<Rightarrow> bytes Pool \<Rightarrow> bytes \<times> bytes Pool" where
  "GetBuf choice mtu n p =
     (let (buf, p) = Pool_Get choice (Some (replicate mtu 0)) [] p
      in if length buf \<ge> n then (buf, p) else (replicate n 0, p))"

definition PutBuf :: "nat \<Rightarrow> bytes \<Rightarrow> bytes Pool \<Rightarrow> bytes Pool" where
  "PutBuf choice buf p = (if length buf > 0 then Pool_Put choice buf p else p)"

text \<open>The output function of a peer's KCP instance, for one datagram of it: what it gives to \<open>RawSend\<close>.\<close>

definition pooled_output :: "nat \<Rightarrow> nat \<Rightarrow> nat \<Rightarrow> u32 \<Rightarrow> bytes \<Rightarrow> bytes Pool \<Rightarrow> bytes \<times> bytes Pool" where
  "pooled_output c1 c2 mtu cookie buf p =
     (let requiredSize = length buf + 5;
          (arr, p) = GetBuf c1 mtu requiredSize p;
          out = take requiredSize arr;
          out = out[0 := channel_byte KcpReliable];
          out = Encode32U out 1 cookie;
          out = take 5 out @ go_copy (drop 5 out) buf
      in (out, PutBuf c2 (out @ drop requiredSize arr) p))"

subsection \<open>Buffers\<close>

record BufferPool =
  bp_message :: "bytes Pool"
  bp_send :: "bytes Pool"
  bp_raw :: "bytes Pool"
  bp_reliableMax :: int
  bp_mtu :: int

definition NewBufferPool :: "KcpConfig \<Rightarrow> BufferPool" where
  "NewBufferPool config =
     (let reliableMax = ReliableMaxMessageSize (cf_Mtu config) (cf_ReceiveWindowSize config);
          reliableMax = (if reliableMax < 0 then 0 else reliableMax)
      in \<lparr>bp_message = Pool_New [], bp_send = Pool_New [], bp_raw = Pool_New [],
          bp_reliableMax = reliableMax, bp_mtu = cf_Mtu config\<rparr>)"

definition GetMessageBuffer :: "nat \<Rightarrow> BufferPool \<Rightarrow> bytes \<times> BufferPool" where
  "GetMessageBuffer choice bp =
     (let (buf, q) = Pool_Get choice (Some (replicate (1 + nat (bp_reliableMax bp)) 0)) [] (bp_message bp)
      in (buf, bp\<lparr>bp_message := q\<rparr>))"

definition PutMessageBuffer :: "nat \<Rightarrow> bytes \<Rightarrow> BufferPool \<Rightarrow> BufferPool" where
  "PutMessageBuffer choice buf bp = bp\<lparr>bp_message := Pool_Put choice buf (bp_message bp)\<rparr>"

definition GetSendBuffer :: "nat \<Rightarrow> BufferPool \<Rightarrow> bytes \<times> BufferPool" where
  "GetSendBuffer choice bp =
     (let (buf, q) = Pool_Get choice (Some (replicate (1 + nat (bp_reliableMax bp)) 0)) [] (bp_send bp)
      in (buf, bp\<lparr>bp_send := q\<rparr>))"

definition PutSendBuffer :: "nat \<Rightarrow> bytes \<Rightarrow> BufferPool \<Rightarrow> BufferPool" where
  "PutSendBuffer choice buf bp = bp\<lparr>bp_send := Pool_Put choice buf (bp_send bp)\<rparr>"

definition GetRawBuffer :: "nat \<Rightarrow> BufferPool \<Rightarrow> bytes \<times> BufferPool" where
  "GetRawBuffer choice bp =
     (let (buf, q) = Pool_Get choice (Some (replicate (nat (bp_mtu bp)) 0)) [] (bp_raw bp)
      in (buf, bp\<lparr>bp_raw := q\<rparr>))"

definition PutRawBuffer :: "nat \<Rightarrow> bytes \<Rightarrow> BufferPool \<Rightarrow> BufferPool" where
  "PutRawBuffer choice buf bp = bp\<lparr>bp_raw := Pool_Put choice buf (bp_raw bp)\<rparr>"

subsection \<open>Peers with a buffer pool\<close>

text \<open>
  A peer made with an external pool, and its raw buffer. A nil buffer is an empty one, which a
  message or send buffer never is otherwise.
\<close>

record pooled_peer = KcpPeer +
  pp_rawSendBuffer :: "bytes option"

type_synonym choices = "nat \<times> nat \<times> nat"

fun pooled_Reset :: "choices \<Rightarrow> KcpConfig \<Rightarrow> pooled_peer \<Rightarrow> BufferPool \<Rightarrow> (pooled_peer \<times> BufferPool) option" where
  "pooled_Reset (c1, c2, c3) config p bp = do {
     p \<leftarrow> peer_Reset config p;
     let (mb, bp) = GetMessageBuffer c1 bp;
     let (sb, bp) = GetSendBuffer c2 bp;
     let (rb, bp) = GetRawBuffer c3 bp;
     Some (p\<lparr>p_kcpMessageBuffer := mb, p_kcpSendBuffer := sb, pp_rawSendBuffer := Some rb\<rparr>, bp)
   }"

definition NewKcpPeerWithBufferPool :: "choices \<Rightarrow> u32 \<Rightarrow> KcpConfig \<Rightarrow> BufferPool \<Rightarrow> (pooled_peer \<times> BufferPool) option" where
  "NewKcpPeerWithBufferPool cs cookie config bp =
     map_option (\<lambda>(p, bp). (p\<lparr>p_Cookie := cookie\<rparr>, bp))
       (pooled_Reset cs config (KcpPeer.extend zero_peer (pooled_peer.fields None)) bp)"

fun ReleaseBuffers :: "choices \<Rightarrow> pooled_peer \<Rightarrow> BufferPool \<Rightarrow> pooled_peer \<times> BufferPool" where
  "ReleaseBuffers (c1, c2, c3) p bp =
     (let (p, bp) = (if p_kcpMessageBuffer p \<noteq> []
                     then (p\<lparr>p_kcpMessageBuffer := []\<rparr>, PutMessageBuffer c1 (p_kcpMessageBuffer p) bp) else (p, bp));
          (p, bp) = (if p_kcpSendBuffer p \<noteq> []
                     then (p\<lparr>p_kcpSendBuffer := []\<rparr>, PutSendBuffer c2 (p_kcpSendBuffer p) bp) else (p, bp))
      in case pp_rawSendBuffer p of
           None \<Rightarrow> (p, bp)
         | Some rb \<Rightarrow> (p\<lparr>pp_rawSendBuffer := None\<rparr>, PutRawBuffer c3 rb bp))"

subsection \<open>Connections\<close>

record ConnectionPool =
  cn_pool :: "pooled_peer option Pool"
  cn_config :: KcpConfig
  cn_buffers :: BufferPool

definition NewConnectionPool :: "KcpConfig \<Rightarrow> BufferPool \<Rightarrow> ConnectionPool" where
  "NewConnectionPool config bp = \<lparr>cn_pool = Pool_New None, cn_config = config, cn_buffers = bp\<rparr>"

definition ConnectionPool_Get :: "nat \<Rightarrow> choices \<Rightarrow> u32 \<Rightarrow> ConnectionPool \<Rightarrow> (pooled_peer \<times> ConnectionPool) option" where
  "ConnectionPool_Get choice cs cookie cn =
     (let (conn, pool) = Pool_Get choice (Some None) None (cn_pool cn);
          cn = cn\<lparr>cn_pool := pool\<rparr>
      in case conn of
           None \<Rightarrow>
             map_option (\<lambda>(p, bp). (p, cn\<lparr>cn_buffers := bp\<rparr>))
               (NewKcpPeerWithBufferPool cs cookie (cn_config cn) (cn_buffers cn))
         | Some p \<Rightarrow>
             map_option (\<lambda>(p, bp). (p\<lparr>p_Cookie := cookie\<rparr>, cn\<lparr>cn_buffers := bp\<rparr>))
               (pooled_Reset cs (cn_config cn) p (cn_buffers cn)))"

text \<open>\<open>None\<close> is a nil connection; one without a peer is \<open>Some None\<close>.\<close>

definition ConnectionPool_Put :: "nat \<Rightarrow> choices \<Rightarrow> pooled_peer option option \<Rightarrow> ConnectionPool \<Rightarrow> ConnectionPool" where
  "ConnectionPool_Put choice cs conn cn =
     (case conn of
        None \<Rightarrow> cn
      | Some peer \<Rightarrow>
          let (peer, bp) = (case peer of
                              None \<Rightarrow> (None, cn_buffers cn)
                            | Some p \<Rightarrow> (let (p, bp) = ReleaseBuffers cs p (cn_buffers cn) in (Some p, bp)))
          in cn\<lparr>cn_pool := Pool_Put choice peer (cn_pool cn), cn_buffers := bp\<rparr>)"

section \<open>A pool is a bag\<close>

definition po_inv :: "'b Pool \<Rightarrow> bool" where
  "po_inv p \<longleftrightarrow> distinct (po_items p @ po_pointers p) \<and> (\<forall>a \<in> set (po_items p @ po_pointers p). a < po_next p)"

definition po_bag :: "'b Pool \<Rightarrow> 'b multiset" where
  "po_bag p = image_mset (po_store p) (mset (po_items p))"

lemma po_New [simp]: "po_inv (Pool_New z)" "po_bag (Pool_New z) = {#}"
  by (simp_all add: po_inv_def po_bag_def Pool_New_def)

lemma sync_Get_cases:
  obtains "sync_Get c xs = (None, xs)" | ys x zs where "xs = ys @ x # zs" "sync_Get c xs = (Some x, ys @ zs)"
proof (cases "c < length xs")
  case True
  then show thesis
    using that(2)[of "take c xs" "xs ! c" "drop (Suc c) xs"] id_take_nth_drop[OF True] by (simp add: sync_Get_def)
qed (use that(1) in \<open>simp add: sync_Get_def\<close>)

text \<open>Storing through a pointer that no item uses does not change the bag.\<close>

lemma po_store_other: "a \<notin> set xs \<Longrightarrow> image_mset (f(a := v)) (mset xs) = image_mset f (mset xs)"
  by (rule image_mset_cong) auto

lemma Pool_Put_bag:
  assumes "po_inv p"
  shows "po_inv (Pool_Put c x p) \<and> po_bag (Pool_Put c x p) = add_mset x (po_bag p)"
proof (rule sync_Get_cases[of c "po_pointers p"])
  assume g: "sync_Get c (po_pointers p) = (None, po_pointers p)"
  have "po_next p \<notin> set (po_items p)" using assms by (auto simp: po_inv_def)
  then show ?thesis
    using assms by (auto simp: Pool_Put_def g po_inv_def po_bag_def po_store_other less_Suc_eq)
next
  fix ys a zs
  assume g: "po_pointers p = ys @ a # zs" "sync_Get c (po_pointers p) = (Some a, ys @ zs)"
  then have "a \<notin> set (po_items p)" "sync_Get c (ys @ a # zs) = (Some a, ys @ zs)" using assms by (auto simp: po_inv_def)
  then show ?thesis
    using assms by (auto simp: Pool_Put_def po_inv_def po_bag_def po_store_other g(1))
qed

lemma Pool_Get_bag:
  assumes "po_inv p"
  shows "case Pool_Get c item z p of (v, q) \<Rightarrow> po_inv q
    \<and> (add_mset v (po_bag q) = po_bag p \<or> (v = (case item of Some x \<Rightarrow> x | None \<Rightarrow> z)) \<and> po_bag q = po_bag p)"
proof (rule sync_Get_cases[of c "po_items p"])
  assume g: "sync_Get c (po_items p) = (None, po_items p)"
  have "po_next p \<notin> set (po_items p)" using assms by (auto simp: po_inv_def)
  then show ?thesis
    using assms by (auto simp: Pool_Get_def g po_inv_def po_bag_def po_store_other less_Suc_eq split: option.split)
next
  fix ys a zs
  assume g: "po_items p = ys @ a # zs" "sync_Get c (po_items p) = (Some a, ys @ zs)"
  then have "a \<notin> set (ys @ zs)" using assms by (auto simp: po_inv_def)
  then have "image_mset ((po_store p)(a := z)) (mset (ys @ zs)) = image_mset (po_store p) (mset (ys @ zs))"
    by (rule po_store_other)
  moreover have "sync_Get c (ys @ a # zs) = (Some a, ys @ zs)" using g by simp
  ultimately show ?thesis
    using assms by (auto simp: Pool_Get_def po_inv_def po_bag_def g(1) split: option.split)
qed

lemma sync_Get_0 [simp]: "sync_Get 0 (x # xs) = (Some x, xs)"
  by (simp add: sync_Get_def)

lemma Pool_Get_Put: "fst (Pool_Get 0 item z (Pool_Put c x p)) = x"
  by (cases "sync_Get c (po_pointers p)"; cases "fst (sync_Get c (po_pointers p))")
    (simp_all add: Pool_Get_def Pool_Put_def)

text \<open>What the users of a pool rely on: it is a bag that \<open>put\<close> adds to and \<open>get\<close> takes from, or makes an item.\<close>

locale item_pool =
  fixes get :: "nat \<Rightarrow> 'b option \<Rightarrow> 'b \<Rightarrow> 'p \<Rightarrow> 'b \<times> 'p"
    and put :: "nat \<Rightarrow> 'b \<Rightarrow> 'p \<Rightarrow> 'p"
    and bag :: "'p \<Rightarrow> 'b multiset"
    and inv :: "'p \<Rightarrow> bool"
  assumes put_bag: "inv p \<Longrightarrow> inv (put c x p) \<and> bag (put c x p) = add_mset x (bag p)"
    and get_bag: "inv p \<Longrightarrow> get c item z p = (v, q) \<Longrightarrow> inv q
      \<and> (bag p = add_mset v (bag q) \<or> v = (case item of Some x \<Rightarrow> x | None \<Rightarrow> z) \<and> bag q = bag p)"
begin

lemma put_all: "inv p \<Longrightarrow> \<forall>y \<in># bag p. P y \<Longrightarrow> P x \<Longrightarrow> inv (put c x p) \<and> (\<forall>y \<in># bag (put c x p). P y)"
  using put_bag[of p c x] by auto

lemma get_all:
  assumes "inv p" and all: "\<forall>y \<in># bag p. P y" and x: "P x" and "get c (Some x) z p = (v, q)"
  shows "P v \<and> inv q \<and> (\<forall>y \<in># bag q. P y)"
proof -
  have "inv q" "bag p = add_mset v (bag q) \<or> v = x \<and> bag q = bag p" using get_bag[OF assms(1,4)] by simp_all
  then show ?thesis using all x by (elim disjE) simp_all
qed

end

interpretation pool: item_pool Pool_Get Pool_Put po_bag po_inv
  using Pool_Put_bag Pool_Get_bag by unfold_locales (fastforce split: prod.splits)+

definition po_all :: "('b \<Rightarrow> bool) \<Rightarrow> 'b Pool \<Rightarrow> bool" where
  "po_all P p \<longleftrightarrow> po_inv p \<and> (\<forall>x \<in># po_bag p. P x)"

lemma po_all_New [simp]: "po_all P (Pool_New z)"
  by (simp add: po_all_def)

lemma Pool_Put_all: "po_all P p \<Longrightarrow> P x \<Longrightarrow> po_all P (Pool_Put c x p)"
  using pool.put_all[of p P x c] by (simp add: po_all_def)

lemma Pool_Get_all:
  assumes "po_all P p" and "P x" and "Pool_Get c (Some x) z p = (v, q)"
  shows "P v" and "po_all P q"
  using pool.get_all[of p P x c z v q] assms by (simp_all add: po_all_def)

text \<open>A pointer on its way back keeps no item alive.\<close>

definition po_clean :: "'b \<Rightarrow> 'b Pool \<Rightarrow> bool" where
  "po_clean z p \<longleftrightarrow> (\<forall>a \<in> set (po_pointers p). po_store p a = z)"

lemma po_clean_New [simp]: "po_clean z (Pool_New z)"
  by (simp add: po_clean_def Pool_New_def)

lemma Pool_Put_clean:
  assumes "po_inv p" and "po_clean z p"
  shows "po_clean z (Pool_Put c x p)"
proof (rule sync_Get_cases[of c "po_pointers p"])
  assume g: "sync_Get c (po_pointers p) = (None, po_pointers p)"
  have "po_next p \<notin> set (po_pointers p)" using assms(1) by (auto simp: po_inv_def)
  then show ?thesis using assms(2) by (auto simp: Pool_Put_def g po_clean_def)
next
  fix ys a zs
  assume g: "po_pointers p = ys @ a # zs" "sync_Get c (po_pointers p) = (Some a, ys @ zs)"
  then have "a \<notin> set (ys @ zs)" "sync_Get c (ys @ a # zs) = (Some a, ys @ zs)" using assms(1) by (auto simp: po_inv_def)
  then show ?thesis using assms(2) by (auto simp: Pool_Put_def po_clean_def g(1))
qed

lemma Pool_Get_clean:
  assumes "po_inv p" and "po_clean z p"
  shows "po_clean z (snd (Pool_Get c item z p))"
proof (rule sync_Get_cases[of c "po_items p"])
  assume g: "sync_Get c (po_items p) = (None, po_items p)"
  have "po_next p \<notin> set (po_pointers p)" using assms(1) by (auto simp: po_inv_def)
  then show ?thesis using assms(2) by (auto simp: Pool_Get_def g po_clean_def split: option.split)
next
  fix ys a zs
  assume g: "po_items p = ys @ a # zs" "sync_Get c (po_items p) = (Some a, ys @ zs)"
  then have "sync_Get c (ys @ a # zs) = (Some a, ys @ zs)" by simp
  then show ?thesis using assms(2) by (auto simp: Pool_Get_def po_clean_def g(1) split: option.split)
qed

section \<open>The pools of a server\<close>

definition bp_fine :: "KcpConfig \<Rightarrow> BufferPool \<Rightarrow> bool" where
  "bp_fine cfg bp \<longleftrightarrow> bp_reliableMax bp = reset_max cfg \<and> bp_mtu bp = cf_Mtu cfg
     \<and> po_all (\<lambda>b. length b = 1 + nat (reset_max cfg)) (bp_message bp)
     \<and> po_all (\<lambda>b. length b = 1 + nat (reset_max cfg)) (bp_send bp)
     \<and> po_all (\<lambda>b. length b = nat (cf_Mtu cfg)) (bp_raw bp)"

lemma bp_fine_New: "config_ok cfg \<Longrightarrow> bp_fine cfg (NewBufferPool cfg)"
  using ReliableMax_eq[of "cf_ReceiveWindowSize cfg" "cf_Mtu cfg"]
  by (auto simp: bp_fine_def NewBufferPool_def config_ok_def reset_max_def Let_def max_def)

lemma bp_fine_Get:
  assumes bp: "bp_fine cfg bp"
  shows "GetMessageBuffer c bp = (b, bq) \<Longrightarrow> bp_fine cfg bq \<and> length b = 1 + nat (reset_max cfg)"
    and "GetSendBuffer c bp = (b, bq) \<Longrightarrow> bp_fine cfg bq \<and> length b = 1 + nat (reset_max cfg)"
    and "GetRawBuffer c bp = (b, bq) \<Longrightarrow> bp_fine cfg bq \<and> length b = nat (cf_Mtu cfg)"
proof -
  assume g: "GetMessageBuffer c bp = (b, bq)"
  obtain q where "Pool_Get c (Some (replicate (1 + nat (reset_max cfg)) 0)) [] (bp_message bp) = (b, q)"
      "bq = bp\<lparr>bp_message := q\<rparr>"
    using g bp by (auto simp: GetMessageBuffer_def bp_fine_def split: prod.splits)
  with bp Pool_Get_all[OF _ _ this(1), where P = "\<lambda>b. length b = 1 + nat (reset_max cfg)"] show "bp_fine cfg bq \<and> length b = 1 + nat (reset_max cfg)"
    by (simp add: bp_fine_def)
next
  assume g: "GetSendBuffer c bp = (b, bq)"
  obtain q where "Pool_Get c (Some (replicate (1 + nat (reset_max cfg)) 0)) [] (bp_send bp) = (b, q)"
      "bq = bp\<lparr>bp_send := q\<rparr>"
    using g bp by (auto simp: GetSendBuffer_def bp_fine_def split: prod.splits)
  with bp Pool_Get_all[OF _ _ this(1), where P = "\<lambda>b. length b = 1 + nat (reset_max cfg)"] show "bp_fine cfg bq \<and> length b = 1 + nat (reset_max cfg)"
    by (simp add: bp_fine_def)
next
  assume g: "GetRawBuffer c bp = (b, bq)"
  obtain q where "Pool_Get c (Some (replicate (nat (cf_Mtu cfg)) 0)) [] (bp_raw bp) = (b, q)"
      "bq = bp\<lparr>bp_raw := q\<rparr>"
    using g bp by (auto simp: GetRawBuffer_def bp_fine_def split: prod.splits)
  with bp Pool_Get_all[OF _ _ this(1), where P = "\<lambda>b. length b = nat (cf_Mtu cfg)"] show "bp_fine cfg bq \<and> length b = nat (cf_Mtu cfg)"
    by (simp add: bp_fine_def)
qed

lemma bp_fine_Put:
  assumes "bp_fine cfg bp"
  shows "length b = 1 + nat (reset_max cfg) \<Longrightarrow> bp_fine cfg (PutMessageBuffer c b bp)"
    and "length b = 1 + nat (reset_max cfg) \<Longrightarrow> bp_fine cfg (PutSendBuffer c b bp)"
    and "length b = nat (cf_Mtu cfg) \<Longrightarrow> bp_fine cfg (PutRawBuffer c b bp)"
  using assms by (simp_all add: bp_fine_def PutMessageBuffer_def PutSendBuffer_def PutRawBuffer_def Pool_Put_all)

definition pooled_fresh :: "KcpConfig \<Rightarrow> pooled_peer \<Rightarrow> bool" where
  "pooled_fresh cfg p \<longleftrightarrow> peer_inv p \<and> p_Kcp p = reset_kcp cfg \<and> p_State p = KcpConnected \<and> p_Timeout p = cf_Timeout cfg
     \<and> p_lastReceiveTime p = 0 \<and> p_LastPingTime p = 0 \<and> p_rtt p = 0
     \<and> p_ReliableMax p = reset_max cfg \<and> p_UnreliableMax p = cf_Mtu cfg - 6"

text \<open>What a peer may give back: buffers of the right length, or none.\<close>

definition pooled_buffers :: "KcpConfig \<Rightarrow> pooled_peer \<Rightarrow> bool" where
  "pooled_buffers cfg p \<longleftrightarrow> length (p_kcpMessageBuffer p) \<in> {0, 1 + nat (reset_max cfg)}
     \<and> length (p_kcpSendBuffer p) \<in> {0, 1 + nat (reset_max cfg)}
     \<and> (\<forall>b. pp_rawSendBuffer p = Some b \<longrightarrow> length b = nat (cf_Mtu cfg))"

lemma pooled_Reset_ok:
  assumes ok: "config_ok cfg" and bp: "bp_fine cfg bp"
  shows "\<exists>q bq. pooled_Reset cs cfg p bp = Some (q, bq) \<and> pooled_fresh cfg q \<and> bp_fine cfg bq
    \<and> pooled_buffers cfg q \<and> p_disconnectOnce q = p_disconnectOnce p"
proof -
  obtain c1 c2 c3 where cs: "cs = (c1, c2, c3)" by (cases cs)
  obtain r where r: "peer_Reset cfg p = Some r" using Reset_eq[OF ok] by blast
  obtain mb b1 where m: "GetMessageBuffer c1 bp = (mb, b1)" by fastforce
  obtain sb b2 where s: "GetSendBuffer c2 b1 = (sb, b2)" by fastforce
  obtain rb b3 where w: "GetRawBuffer c3 b2 = (rb, b3)" by fastforce
  note m' = bp_fine_Get(1)[OF bp m]
  note s' = bp_fine_Get(2)[OF conjunct1[OF m'] s]
  note w' = bp_fine_Get(3)[OF conjunct1[OF s'] w]
  moreover have "p_Kcp r = reset_kcp cfg" "p_State r = KcpConnected" "p_ReliableMax r = reset_max cfg"
      "p_UnreliableMax r = cf_Mtu cfg - 6" "p_Timeout r = cf_Timeout cfg" "p_lastReceiveTime r = 0" "p_LastPingTime r = 0"
      "p_rtt r = 0" "p_disconnectOnce r = p_disconnectOnce p"
    using r unfolding Reset_eq[OF ok] by auto
  ultimately show ?thesis
    using Reset_inv[OF ok r] m' s' w' by (auto simp: cs r m s w pooled_fresh_def pooled_buffers_def peer_inv_def)
qed

lemma NewPooled_ok:
  assumes "config_ok cfg" and "bp_fine cfg bp"
  shows "\<exists>q bq. NewKcpPeerWithBufferPool cs cookie cfg bp = Some (q, bq) \<and> pooled_fresh cfg q \<and> p_Cookie q = cookie
    \<and> bp_fine cfg bq \<and> pooled_buffers cfg q"
proof -
  obtain q bq where q: "pooled_Reset cs cfg (KcpPeer.extend zero_peer (pooled_peer.fields None)) bp = Some (q, bq)"
      "pooled_fresh cfg q" "bp_fine cfg bq" "pooled_buffers cfg q"
    using pooled_Reset_ok[OF assms] by blast
  have "pooled_fresh cfg (q\<lparr>p_Cookie := cookie\<rparr>)" using q(2) by (auto simp: pooled_fresh_def peer_inv_def)
  then show ?thesis using q by (simp add: NewKcpPeerWithBufferPool_def pooled_buffers_def)
qed

lemma ReleaseBuffers_ok:
  assumes "bp_fine cfg bp" and "pooled_buffers cfg p" and "ReleaseBuffers cs p bp = (q, bq)"
  shows "bp_fine cfg bq \<and> p_disconnectOnce q = p_disconnectOnce p"
  using assms bp_fine_Put
  by (cases cs) (auto simp: pooled_buffers_def Let_def split: if_splits option.splits)

definition cn_fine :: "KcpConfig \<Rightarrow> ConnectionPool \<Rightarrow> bool" where
  "cn_fine cfg cn \<longleftrightarrow> config_ok cfg \<and> cn_config cn = cfg \<and> po_inv (cn_pool cn) \<and> bp_fine cfg (cn_buffers cn)"

lemma cn_fine_New: "config_ok cfg \<Longrightarrow> cn_fine cfg (NewConnectionPool cfg (NewBufferPool cfg))"
  by (simp add: cn_fine_def NewConnectionPool_def bp_fine_New)

text \<open>A run of the pool's operations. Connections come back with the buffers they took, or without.\<close>

inductive cn_reach :: "KcpConfig \<Rightarrow> ConnectionPool \<Rightarrow> bool" for cfg where
  cn_new: "cn_reach cfg (NewConnectionPool cfg (NewBufferPool cfg))"
| cn_get: "cn_reach cfg cn \<Longrightarrow> ConnectionPool_Get c cs cookie cn = Some (p, cn') \<Longrightarrow> cn_reach cfg cn'"
| cn_put: "cn_reach cfg cn \<Longrightarrow> (\<And>p. conn = Some (Some p) \<Longrightarrow> pooled_buffers cfg p)
    \<Longrightarrow> cn_reach cfg (ConnectionPool_Put c cs conn cn)"

lemma Connection_Get_ok:
  assumes "cn_fine cfg cn"
  shows "\<exists>p cn'. ConnectionPool_Get c cs cookie cn = Some (p, cn') \<and> pooled_fresh cfg p \<and> p_Cookie p = cookie
    \<and> pooled_buffers cfg p \<and> cn_fine cfg cn'"
proof -
  have cn: "config_ok cfg" "cn_config cn = cfg" "po_inv (cn_pool cn)" "bp_fine cfg (cn_buffers cn)"
    using assms by (simp_all add: cn_fine_def)
  obtain conn pool where g: "Pool_Get c (Some None) None (cn_pool cn) = (conn, pool)" by fastforce
  have pool: "po_inv pool" using pool.get_bag[OF cn(3) g] by simp
  show ?thesis
  proof (cases conn)
    case None
    obtain q bq where "NewKcpPeerWithBufferPool cs cookie cfg (cn_buffers cn) = Some (q, bq)" "pooled_fresh cfg q"
        "p_Cookie q = cookie" "bp_fine cfg bq" "pooled_buffers cfg q"
      using NewPooled_ok[OF cn(1,4)] by blast
    then show ?thesis using cn pool by (simp add: ConnectionPool_Get_def g None cn_fine_def)
  next
    case (Some p)
    obtain q bq where q: "pooled_Reset cs cfg p (cn_buffers cn) = Some (q, bq)" "pooled_fresh cfg q" "bp_fine cfg bq"
        "pooled_buffers cfg q"
      using pooled_Reset_ok[OF cn(1,4)] by blast
    have "pooled_fresh cfg (q\<lparr>p_Cookie := cookie\<rparr>)" using q(2) by (auto simp: pooled_fresh_def peer_inv_def)
    then show ?thesis using cn pool q by (simp add: ConnectionPool_Get_def g Some cn_fine_def pooled_buffers_def)
  qed
qed

lemma Connection_Put_ok:
  assumes "cn_fine cfg cn" and "\<And>p. conn = Some (Some p) \<Longrightarrow> pooled_buffers cfg p"
  shows "cn_fine cfg (ConnectionPool_Put c cs conn cn)"
proof (cases conn)
  case (Some peer)
  have cn: "config_ok cfg" "cn_config cn = cfg" "po_inv (cn_pool cn)" "bp_fine cfg (cn_buffers cn)"
    using assms(1) by (simp_all add: cn_fine_def)
  have "po_inv (Pool_Put c x (cn_pool cn))" for x using pool.put_bag[OF cn(3)] by simp
  moreover have "bp_fine cfg bq" if "peer = Some p" "ReleaseBuffers cs p (cn_buffers cn) = (q, bq)" for p q bq
  proof -
    have "pooled_buffers cfg p" by (rule assms(2)) (simp only: Some that(1))
    from ReleaseBuffers_ok[OF cn(4) this that(2)] show ?thesis by (rule conjunct1)
  qed
  ultimately show ?thesis
    using cn by (cases peer) (auto simp: ConnectionPool_Put_def Some cn_fine_def simp del: ReleaseBuffers.simps split: prod.splits)
qed (use assms(1) in \<open>simp add: ConnectionPool_Put_def\<close>)

lemma cn_reach_fine: "cn_reach cfg cn \<Longrightarrow> config_ok cfg \<Longrightarrow> cn_fine cfg cn"
proof (induction rule: cn_reach.induct)
  case (cn_get cn c cs cookie p cn')
  then show ?case using Connection_Get_ok[of cfg cn c cs cookie] by auto
qed (simp_all add: cn_fine_New Connection_Put_ok)

section \<open>What the pools promise\<close>

text \<open>
  A pool is a bag of items: \<open>Put\<close> adds one, \<open>Get\<close> takes one that was put, or makes a new one,
  whichever elements the two \<open>sync.Pool\<close>s choose to give; no item is given out twice, and the
  pointers kept for later hold on to none.
\<close>

theorem pool_is_bag:
  assumes "po_inv p" and "po_clean z p" and "Pool_Get c item z p = (v, q)"
  shows "po_inv q \<and> po_clean z q
    \<and> (po_bag p = add_mset v (po_bag q) \<or> v = (case item of Some x \<Rightarrow> x | None \<Rightarrow> z) \<and> po_bag q = po_bag p)
    \<and> po_inv (Pool_Put c x p) \<and> po_clean z (Pool_Put c x p) \<and> po_bag (Pool_Put c x p) = add_mset x (po_bag p)
    \<and> fst (Pool_Get 0 item z (Pool_Put c x p)) = x"
  using pool.get_bag[OF assms(1,3)] pool.put_bag[OF assms(1), of c x] Pool_Get_clean[OF assms(1,2), of c item]
    Pool_Put_clean[OF assms(1,2), of c x] assms(3) Pool_Get_Put[of item z c x p]
  by simp_all

lemma pool_is_bag_witness:
  "\<exists>p q. p = Pool_Put 0 (9 :: nat) (Pool_New 0) \<and> Pool_Get 0 (Some 5) 0 p = (9, q) \<and> po_inv q \<and> po_clean 0 q \<and> po_bag q = {#}"
proof -
  define p where "p = Pool_Put 0 (9 :: nat) (Pool_New 0)"
  obtain v q where g: "Pool_Get 0 (Some 5) 0 p = (v, q)" by fastforce
  have v: "v = 9" using g by (auto simp: p_def Pool_Get_def Pool_Put_def Pool_New_def sync_Get_def)
  have p: "po_inv p" "po_clean 0 p" "po_bag p = {#9#}"
    by (simp_all add: p_def Pool_Put_bag Pool_Put_clean po_clean_New)
  from pool_is_bag[OF p(1,2) g] p(3) v have "po_inv q" "po_clean 0 q" "po_bag q = {#}" by simp_all
  then show ?thesis using p_def g v by blast
qed

text \<open>
  The output function builds its datagram in a recycled buffer: whatever bytes the buffer's last
  user left there and whatever its length, the datagram is the one built in a fresh buffer, and
  the pool stays a bag.
\<close>

theorem pooled_output_fresh:
  assumes "po_inv p"
  shows "fst (pooled_output c1 c2 mtu cookie buf p) = raw_reliable cookie buf
    \<and> po_inv (snd (pooled_output c1 c2 mtu cookie buf p))"
proof -
  define n where "n = length buf + 5"
  obtain arr q where g: "GetBuf c1 mtu n p = (arr, q)" by fastforce
  obtain b r where b: "Pool_Get c1 (Some (replicate mtu 0)) [] p = (b, r)" by fastforce
  have q: "po_inv q" "n \<le> length arr" using g b pool.get_bag[OF assms b] by (auto simp: GetBuf_def split: if_splits)
  have "\<exists>a0 a1 a2 a3 a4 rest. take n arr = a0 # a1 # a2 # a3 # a4 # rest \<and> length rest = length buf"
  proof -
    have "length (take n arr) = Suc (Suc (Suc (Suc (Suc (length buf)))))" using q(2) by (simp add: n_def)
    then show ?thesis unfolding length_Suc_conv by blast
  qed
  then obtain a0 a1 a2 a3 a4 rest where a: "take n arr = a0 # a1 # a2 # a3 # a4 # rest" "length rest = length buf" by blast
  have l: "Suc (Suc (Suc (Suc (Suc 0)))) \<le> length arr" using q(2) by (simp add: n_def)
  have "po_inv (PutBuf c2 x q)" for x using pool.put_bag[OF q(1)] q(1) by (simp add: PutBuf_def)
  then show ?thesis
    using g a by (simp add: pooled_output_def raw_reliable_def n_def Let_def Encode32U_def go_copy_same_length numeral_eq_Suc l)
qed

lemma pooled_output_fresh_witness:
  "\<exists>p. po_inv p \<and> po_bag p = {#replicate 20 9#} \<and> fst (pooled_output 0 0 60 7 [1, 2] p) = [1, 7, 0, 0, 0, 1, 2]"
proof (intro exI[of _ "Pool_Put 0 (replicate 20 9) (Pool_New [])"] conjI)
  show p: "po_inv (Pool_Put 0 (replicate 20 9) (Pool_New []))" by (simp add: Pool_Put_bag)
  show "po_bag (Pool_Put 0 (replicate 20 9) (Pool_New [])) = {#replicate 20 9#}" by (simp add: Pool_Put_bag)
  show "fst (pooled_output 0 0 60 7 [1, 2] (Pool_Put 0 (replicate 20 9) (Pool_New []))) = [1, 7, 0, 0, 0, 1, 2]"
    using pooled_output_fresh[OF p, of 0 0 60 7 "[1, 2]"] by (simp add: raw_reliable_def) code_simp
qed

text \<open>
  C37: however a server's connection pool was used, it gives out a connection whose peer has what
  \<open>Reset\<close> sets for the pool's configuration: a new KCP connection and the connected state, its timeout
  and the size limits of messages, the times of the last message and the last ping and the round-trip
  time at zero; with the cookie asked for, and buffers of the lengths it needs. (What \<open>Reset\<close> does
  not set, a recycled connection has from its earlier use: \<open>disconnectOnce\<close>, see
  \<open>pooled_connection_stale\<close>, \<open>LastPongTime\<close> and \<open>flushInterval\<close>.)
\<close>

theorem connection_pool_fine:
  assumes "config_ok cfg" and "cn_reach cfg cn"
  shows "\<exists>p cn'. ConnectionPool_Get c cs cookie cn = Some (p, cn') \<and> pooled_fresh cfg p \<and> p_Cookie p = cookie
    \<and> pooled_buffers cfg p \<and> cn_reach cfg cn'"
  using Connection_Get_ok[OF cn_reach_fine[OF assms(2,1)], of c cs cookie] cn_get[OF assms(2)] by blast

lemma connection_pool_fine_witness:
  "\<exists>p cn q cn'. ConnectionPool_Get 0 (0, 0, 0) 1 (NewConnectionPool demo_config (NewBufferPool demo_config)) = Some (p, cn)
    \<and> ConnectionPool_Get 0 (0, 0, 0) 2 (ConnectionPool_Put 0 (0, 0, 0) (Some (Some p)) cn) = Some (q, cn')
    \<and> pooled_fresh demo_config q \<and> p_Cookie q = 2"
proof -
  obtain p cn where g: "ConnectionPool_Get 0 (0, 0, 0) 1 (NewConnectionPool demo_config (NewBufferPool demo_config)) = Some (p, cn)"
      "pooled_buffers demo_config p" "cn_reach demo_config cn"
    using connection_pool_fine[OF demo_config_ok cn_new, of 0 "(0, 0, 0)" 1] by blast
  have "cn_reach demo_config (ConnectionPool_Put 0 (0, 0, 0) (Some (Some p)) cn)"
    using g(2) by (intro cn_put[OF g(3)]) simp
  from connection_pool_fine[OF demo_config_ok this, of 0 "(0, 0, 0)" 2] g(1) show ?thesis by blast
qed

text \<open>
  C38: a connection that ended by \<open>Disconnect\<close> and comes back from the pool cannot be ended again: its
  peer is connected, but \<open>Disconnect\<close> neither changes its state, nor tells the other side, nor
  calls the handler, because \<open>Reset\<close> leaves \<open>disconnectOnce\<close> spent.
\<close>

theorem pooled_connection_stale:
  assumes "cn_fine cfg cn" and "pooled_buffers cfg p" and "p_disconnectOnce p"
  shows "\<exists>q cn'. ConnectionPool_Get 0 cs' cookie (ConnectionPool_Put c cs (Some (Some p)) cn) = Some (q, cn')
    \<and> p_State q = KcpConnected \<and> p_Cookie q = cookie \<and> Disconnect h q = Some q"
proof -
  obtain r bp where r: "ReleaseBuffers cs p (cn_buffers cn) = (r, bp)" by fastforce
  have cn: "config_ok cfg" "cn_config cn = cfg" "bp_fine cfg (cn_buffers cn)" using assms(1) by (simp_all add: cn_fine_def)
  have bp: "bp_fine cfg bp" "p_disconnectOnce r" using ReleaseBuffers_ok[OF cn(3) assms(2) r] assms(3) by simp_all
  define pool where "pool = Pool_Put c (Some r) (cn_pool cn)"
  have put: "ConnectionPool_Put c cs (Some (Some p)) cn = cn\<lparr>cn_pool := pool, cn_buffers := bp\<rparr>"
    by (simp add: ConnectionPool_Put_def r pool_def)
  obtain pool' where g: "Pool_Get 0 (Some None) None pool = (Some r, pool')"
    using Pool_Get_Put[of "Some None" None c "Some r" "cn_pool cn"]
    by (cases "Pool_Get 0 (Some None) None pool") (simp add: pool_def)
  obtain q bq where q: "pooled_Reset cs' cfg r bp = Some (q, bq)" "pooled_fresh cfg q" "p_disconnectOnce q"
    using pooled_Reset_ok[OF cn(1) bp(1), of cs' r] bp(2) by auto
  show ?thesis
    using q cn(2) by (simp add: put ConnectionPool_Get_def g Disconnect_def pooled_fresh_def)
qed

lemma quiet_Disconnect_buffers:
  "pooled_buffers cfg p \<Longrightarrow> \<exists>r. Disconnect quiet p = Some r \<and> p_disconnectOnce r \<and> pooled_buffers cfg r"
  by (cases "p_disconnectOnce p") (auto simp: Disconnect_def fire_def quiet_def SendDisconnect_eq pooled_buffers_def Let_def)

lemma pooled_connection_stale_witness:
  "\<exists>p r q cn cn'. ConnectionPool_Get 0 (0, 0, 0) 1 (NewConnectionPool demo_config (NewBufferPool demo_config)) = Some (p, cn)
    \<and> Disconnect quiet p = Some r
    \<and> ConnectionPool_Get 0 (0, 0, 0) 2 (ConnectionPool_Put 0 (0, 0, 0) (Some (Some r)) cn) = Some (q, cn')
    \<and> p_State q = KcpConnected \<and> Disconnect quiet q = Some q"
proof -
  have fine: "cn_fine demo_config (NewConnectionPool demo_config (NewBufferPool demo_config))"
    by (rule cn_fine_New[OF demo_config_ok])
  obtain p cn where g: "ConnectionPool_Get 0 (0, 0, 0) 1 (NewConnectionPool demo_config (NewBufferPool demo_config)) = Some (p, cn)"
      "pooled_buffers demo_config p" "pooled_fresh demo_config p" "cn_fine demo_config cn"
    using Connection_Get_ok[OF fine, of 0 "(0, 0, 0)" 1] by blast
  obtain r where r: "Disconnect quiet p = Some r" "p_disconnectOnce r" "pooled_buffers demo_config r"
    using quiet_Disconnect_buffers[OF g(2)] by blast
  from pooled_connection_stale[OF g(4) r(3,2), of "(0, 0, 0)" 2 0 "(0, 0, 0)" quiet] g(1) r(1) show ?thesis by blast
qed

end
