(* ===== verification/Sockets.thy ===== *)
theory Sockets
  imports Pools Server Client
begin

text \<open>
  How datagrams reach the server and the client (\<open>server.go\<close>, \<open>client.go\<close>, \<open>common.go\<close>): opening the
  server's socket, and reading datagrams into the one receive buffer and from there into a
  recycled one. The network is a parameter: what \<open>net.ListenUDP\<close> and the buffer size calls answer,
  and the outcomes of the reads of a tick, each with the random bytes of a new connection's cookie
  and the choices of the buffer pool. \<open>ReadFromUDP\<close> drops what does not fit into its buffer.
\<close>

section \<open>The code\<close>

datatype net_error = NetTimeout | NetClosed | NetOther

definition isTimeoutError :: "net_error \<Rightarrow> bool" where
  "isTimeoutError err \<longleftrightarrow> err = NetTimeout"

subsection \<open>Opening the socket\<close>

datatype net_family = Udp6 | Udp4

type_synonym 'sock listener = "net_family \<Rightarrow> u16 \<Rightarrow> net_error + 'sock"

definition createServerSocket :: "'sock listener \<Rightarrow> bool \<Rightarrow> u16 \<Rightarrow> net_error + 'sock" where
  "createServerSocket listen dual port =
     (if dual
      then (case listen Udp6 port of
              Inr conn \<Rightarrow> Inr conn
            | Inl _ \<Rightarrow> (case listen Udp4 port of Inl err \<Rightarrow> Inl err | Inr conn \<Rightarrow> Inr conn))
      else (case listen Udp4 port of Inl err \<Rightarrow> Inl err | Inr conn \<Rightarrow> Inr conn))"

definition ConfigureSocketBuffers ::
    "('sock \<Rightarrow> int \<Rightarrow> net_error option) \<Rightarrow> ('sock \<Rightarrow> int \<Rightarrow> net_error option) \<Rightarrow> 'sock \<Rightarrow> int \<Rightarrow> int \<Rightarrow> net_error option" where
  "ConfigureSocketBuffers setRead setWrite conn recvBufferSize sendBufferSize =
     (case setRead conn recvBufferSize of
        Some err \<Rightarrow> Some err
      | None \<Rightarrow> (case setWrite conn sendBufferSize of Some err \<Rightarrow> Some err | None \<Rightarrow> None))"

datatype start_error = AlreadyStarted | NetError net_error

definition server_Start ::
    "'sock listener \<Rightarrow> ('sock \<Rightarrow> int \<Rightarrow> net_error option) \<Rightarrow> ('sock \<Rightarrow> int \<Rightarrow> net_error option) \<Rightarrow> u16 \<Rightarrow> KcpServer
      \<Rightarrow> start_error option \<times> KcpServer" where
  "server_Start listen setRead setWrite port s =
     (if sv_conn s then (Some AlreadyStarted, s)
      else case createServerSocket listen (cf_DualMode (sv_config s)) port of
        Inl err \<Rightarrow> (Some (NetError err), s)
      | Inr udpConn \<Rightarrow>
          let s = s\<lparr>sv_conn := True\<rparr>
          in case ConfigureSocketBuffers setRead setWrite udpConn (cf_RecvBufferSize (sv_config s))
                    (cf_SendBufferSize (sv_config s)) of
               Some err \<Rightarrow> (Some (NetError err), s)
             | None \<Rightarrow> (None, s))"

definition ResolveHostname :: "(string \<Rightarrow> net_error + 'ip list) \<Rightarrow> string \<Rightarrow> 'ip list \<times> bool" where
  "ResolveHostname lookup hostname =
     (case lookup hostname of Inl err \<Rightarrow> ([], False) | Inr addresses \<Rightarrow> (addresses, length addresses \<ge> 1))"

subsection \<open>Reading datagrams\<close>

datatype sock_read = DeadlineError | ReadError net_error | Datagram bytes Addr

text \<open>The receive buffer, the pool of the datagrams' buffers, and the most bytes a new one holds.\<close>

record sock_buffers =
  io_recvBuf :: bytes
  io_pool :: "bytes Pool"
  io_mtu :: nat

definition NewServerBuffers :: "KcpConfig \<Rightarrow> sock_buffers" where
  "NewServerBuffers config =
     \<lparr>io_recvBuf = replicate (nat (cf_Mtu config)) 0, io_pool = Pool_New [], io_mtu = nat (cf_Mtu config)\<rparr>"

definition server_getBuf :: "nat \<Rightarrow> nat \<Rightarrow> sock_buffers \<Rightarrow> bytes \<times> sock_buffers" where
  "server_getBuf choice n io =
     (let (buf, pool) = Pool_Get choice (Some (replicate (io_mtu io) 0)) [] (io_pool io);
          io = io\<lparr>io_pool := pool\<rparr>
      in if length buf \<ge> n then (buf, io) else (replicate n 0, io))"

definition server_putBuf :: "nat \<Rightarrow> bytes \<Rightarrow> sock_buffers \<Rightarrow> sock_buffers" where
  "server_putBuf choice buf io =
     (if length buf > 0 then io\<lparr>io_pool := Pool_Put choice buf (io_pool io)\<rparr> else io)"

text \<open>The result is the array behind the slice that is returned, and the slice's length.\<close>

definition rawReceiveFrom :: "nat \<Rightarrow> sock_read \<Rightarrow> bool \<Rightarrow> sock_buffers \<Rightarrow> (bytes \<times> nat \<times> Addr) option \<times> sock_buffers" where
  "rawReceiveFrom choice r conn io =
     (if \<not> conn then (None, io)
      else case r of
        DeadlineError \<Rightarrow> (None, io)
      | ReadError err \<Rightarrow> (None, io)
      | Datagram data addr \<Rightarrow>
          (let n = min (length (io_recvBuf io)) (length data);
               io = io\<lparr>io_recvBuf := go_copy (io_recvBuf io) data\<rparr>
           in if n \<le> 0 then (None, io)
              else (let (buf, io) = server_getBuf choice n io;
                        buf = go_copy (take n buf) (take n (io_recvBuf io)) @ drop n buf
                    in (Some (buf, n, addr), io))))"

type_synonym read = "sock_read \<times> bytes option \<times> nat \<times> nat"

fun server_poll :: "clock \<Rightarrow> clock \<Rightarrow> server_user \<Rightarrow> read list \<Rightarrow> KcpServer \<times> sock_buffers \<Rightarrow> (KcpServer \<times> sock_buffers) option" where
  "server_poll kc pc u [] (s, io) = Some (s, io)"
| "server_poll kc pc u ((r, random, c1, c2) # rs) (s, io) =
     (case rawReceiveFrom c1 r (sv_conn s) io of
        (None, io) \<Rightarrow> Some (s, io)
      | (Some (seg, n, remote), io) \<Rightarrow> do {
          s \<leftarrow> processMessage kc pc u (take n seg) remote random s;
          server_poll kc pc u rs (s, server_putBuf c2 seg io)
        })"

definition NewClientBuffers :: "KcpConfig \<Rightarrow> sock_buffers" where
  "NewClientBuffers config =
     \<lparr>io_recvBuf = replicate (nat (cf_Mtu config)) 0, io_pool = Pool_New [], io_mtu = nat (cf_Mtu config)\<rparr>"

definition client_getBuf :: "nat \<Rightarrow> nat \<Rightarrow> sock_buffers \<Rightarrow> bytes \<times> sock_buffers" where
  "client_getBuf choice n io =
     (let (buf, pool) = Pool_Get choice (Some (replicate (io_mtu io) 0)) [] (io_pool io);
          io = io\<lparr>io_pool := pool\<rparr>
      in if length buf \<ge> n then (buf, io) else (replicate n 0, io))"

definition client_putBuf :: "nat \<Rightarrow> bytes \<Rightarrow> sock_buffers \<Rightarrow> sock_buffers" where
  "client_putBuf choice buf io =
     (if length buf > 0 then io\<lparr>io_pool := Pool_Put choice buf (io_pool io)\<rparr> else io)"

definition RawReceive :: "nat \<Rightarrow> sock_read \<Rightarrow> bool \<Rightarrow> sock_buffers \<Rightarrow> (bytes \<times> nat) option \<times> sock_buffers" where
  "RawReceive choice r conn io =
     (if \<not> conn then (None, io)
      else case r of
        DeadlineError \<Rightarrow> (None, io)
      | ReadError err \<Rightarrow> (None, io)
      | Datagram data addr \<Rightarrow>
          (let n = min (length (io_recvBuf io)) (length data);
               io = io\<lparr>io_recvBuf := go_copy (io_recvBuf io) data\<rparr>
           in if n \<le> 0 then (None, io)
              else (let (buf, io) = client_getBuf choice n io;
                        buf = go_copy (take n buf) (take n (io_recvBuf io)) @ drop n buf
                    in (Some (buf, n), io))))"

fun client_poll ::
    "nat \<Rightarrow> clock \<Rightarrow> clock \<Rightarrow> user \<Rightarrow> (sock_read \<times> nat \<times> nat) list \<Rightarrow> KcpClient \<times> sock_buffers
      \<Rightarrow> (KcpClient \<times> sock_buffers) option" where
  "client_poll 0 kc pc u rs (c, io) = Some (c, io)"
| "client_poll (Suc n) kc pc u [] (c, io) = Some (c, io)"
| "client_poll (Suc n) kc pc u ((r, c1, c2) # rs) (c, io) =
     (case RawReceive c1 r (cl_conn c) io of
        (None, io) \<Rightarrow> Some (c, io)
      | (Some (seg, m), io) \<Rightarrow> do {
          c \<leftarrow> client_RawInput kc pc u (take m seg) c;
          client_poll n kc pc u rs (c, client_putBuf c2 seg io)
        })"

section \<open>Recycled buffers do not show\<close>

text \<open>The datagrams of a tick, as the rest of the development has them: cut to the receive buffer, up to a failed read.\<close>

fun arrived :: "nat \<Rightarrow> read list \<Rightarrow> (bytes \<times> Addr \<times> bytes option) list" where
  "arrived m ((Datagram data addr, random, cs) # rs) = (take m data, addr, random) # arrived m rs"
| "arrived m rs = []"

fun client_arrived :: "nat \<Rightarrow> (sock_read \<times> nat \<times> nat) list \<Rightarrow> bytes list" where
  "client_arrived m ((Datagram data addr, cs) # rs) = take m data # client_arrived m rs"
| "client_arrived m rs = []"

definition io_fine :: "nat \<Rightarrow> sock_buffers \<Rightarrow> bool" where
  "io_fine m io \<longleftrightarrow> length (io_recvBuf io) = m \<and> po_inv (io_pool io)"

lemma io_fine_New:
  "io_fine (nat (cf_Mtu cfg)) (NewServerBuffers cfg)" "io_fine (nat (cf_Mtu cfg)) (NewClientBuffers cfg)"
  by (simp_all add: io_fine_def NewServerBuffers_def NewClientBuffers_def)

lemma client_is_server:
  "client_getBuf = server_getBuf" "client_putBuf = server_putBuf"
  "RawReceive c r conn io = map_prod (map_option (\<lambda>(seg, n, addr). (seg, n))) id (rawReceiveFrom c r conn io)"
  by (auto simp: fun_eq_iff client_getBuf_def server_getBuf_def client_putBuf_def server_putBuf_def
      RawReceive_def rawReceiveFrom_def Let_def min_def split: sock_read.split prod.split)

lemma getBuf_fine:
  assumes "io_fine m io" and "server_getBuf c n io = (buf, io')"
  shows "io_fine m io' \<and> n \<le> length buf \<and> io_recvBuf io' = io_recvBuf io"
proof -
  obtain b q where b: "Pool_Get c (Some (replicate (io_mtu io) 0)) [] (io_pool io) = (b, q)" by fastforce
  have "po_inv q" using pool.get_bag[OF _ b] assms(1) by (simp add: io_fine_def)
  then show ?thesis using assms by (auto simp: server_getBuf_def b io_fine_def Let_def split: if_splits)
qed

lemma putBuf_fine: "io_fine m io \<Longrightarrow> io_fine m (server_putBuf c buf io)"
  using pool.put_bag[of "io_pool io" c buf] by (simp add: server_putBuf_def io_fine_def)

lemma receive_datagram:
  assumes io: "io_fine m io" and d: "take m data \<noteq> []"
  shows "\<exists>seg n io'. rawReceiveFrom c (Datagram data addr) True io = (Some (seg, n, addr), io')
    \<and> take n seg = take m data \<and> io_fine m io'"
proof -
  define n where "n = min m (length data)"
  define io1 where "io1 = io\<lparr>io_recvBuf := go_copy (io_recvBuf io) data\<rparr>"
  have io1: "io_fine m io1" "take n (io_recvBuf io1) = take m data"
    using io by (simp_all add: io1_def io_fine_def n_def go_copy_def min_def)
  obtain buf io2 where b: "server_getBuf c n io1 = (buf, io2)" by fastforce
  note f = getBuf_fine[OF io1(1) b]
  have "0 < n" using d by (simp add: n_def)
  then have "rawReceiveFrom c (Datagram data addr) True io
      = (Some (go_copy (take n buf) (take n (io_recvBuf io2)) @ drop n buf, n, addr), io2)"
    using io b by (simp add: rawReceiveFrom_def io_fine_def n_def[symmetric] io1_def[symmetric])
  moreover have "go_copy (take n buf) (take n (io_recvBuf io2)) = take m data"
    using f io1(2) by (subst go_copy_same_length) (simp_all add: n_def)
  moreover have "take n (take m data @ xs) = take m data" for xs by (simp add: n_def min_def)
  ultimately show ?thesis using f by simp
qed

lemma receive_nothing:
  assumes "io_fine m io" and "\<And>data addr. r = Datagram data addr \<Longrightarrow> conn \<Longrightarrow> take m data = []"
  shows "\<exists>io'. rawReceiveFrom c r conn io = (None, io') \<and> io_fine m io'"
proof (cases "\<exists>data addr. r = Datagram data addr \<and> conn")
  case True
  then obtain data addr where d: "r = Datagram data addr" "conn" by blast
  have "min m (length data) = 0" using assms(2)[OF d] by (auto simp: min_def)
  then show ?thesis using assms(1) d by (simp add: rawReceiveFrom_def io_fine_def Let_def)
next
  case False
  then show ?thesis using assms(1) by (cases r) (auto simp: rawReceiveFrom_def)
qed

lemma server_poll_ok:
  assumes "io_fine m io"
  shows "map_option fst (server_poll kc pc u rs (s, io)) = server_receive kc pc u (arrived m rs) s
    \<and> (\<forall>s' io'. server_poll kc pc u rs (s, io) = Some (s', io') \<longrightarrow> io_fine m io')"
  using assms
proof (induction m rs arbitrary: s io rule: arrived.induct)
  case (1 m data addr random cs rs)
  obtain c1 c2 where cs: "cs = (c1, c2)" by fastforce
  show ?case
  proof (cases "sv_conn s \<and> take m data \<noteq> []")
    case True
    obtain seg n io' where r: "rawReceiveFrom c1 (Datagram data addr) True io = (Some (seg, n, addr), io')"
        "take n seg = take m data" "io_fine m io'"
      using receive_datagram[OF "1.prems"] True by blast
    show ?thesis
    proof (cases "processMessage kc pc u (take m data) addr random s")
      case None
      then show ?thesis using True r by (simp add: cs)
    next
      case (Some t)
      then show ?thesis
        using True r "1.IH"[OF putBuf_fine[OF r(3)], of t c2 seg] by (simp add: cs)
    qed
  next
    case False
    then obtain io' where "rawReceiveFrom c1 (Datagram data addr) (sv_conn s) io = (None, io')" "io_fine m io'"
      using receive_nothing[OF "1.prems", of "Datagram data addr" "sv_conn s" c1] by auto
    then show ?thesis using False by (auto simp: cs)
  qed
qed (auto simp: rawReceiveFrom_def split: sock_read.splits)

lemma client_poll_ok:
  assumes "io_fine m io"
  shows "map_option fst (client_poll n kc pc u rs (c, io)) = client_receive n kc pc u (client_arrived m rs) c
    \<and> (\<forall>c' io'. client_poll n kc pc u rs (c, io) = Some (c', io') \<longrightarrow> io_fine m io')"
  using assms
proof (induction n kc pc u rs "(c, io)" arbitrary: c io rule: client_poll.induct)
  case (3 n kc pc u r c1 c2 rs c io)
  show ?case
  proof (cases "\<exists>data addr. r = Datagram data addr \<and> cl_conn c \<and> take m data \<noteq> []")
    case True
    then obtain data addr where d: "r = Datagram data addr" "cl_conn c" "take m data \<noteq> []" by blast
    obtain seg k io' where g: "rawReceiveFrom c1 (Datagram data addr) True io = (Some (seg, k, addr), io')"
        "take k seg = take m data" "io_fine m io'"
      using receive_datagram[OF 3(2) d(3)] by blast
    have r: "RawReceive c1 r (cl_conn c) io = (Some (seg, k), io')" using g(1) d by (simp add: client_is_server)
    show ?thesis
    proof (cases "client_RawInput kc pc u (take m data) c")
      case None
      then show ?thesis using r d g(2) by simp
    next
      case (Some t)
      have "io_fine m (client_putBuf c2 seg io')" using putBuf_fine[OF g(3)] by (simp add: client_is_server)
      then show ?thesis using r d g(2) Some 3(1)[OF r[symmetric] refl refl] by simp
    qed
  next
    case False
    then obtain io' where "rawReceiveFrom c1 r (cl_conn c) io = (None, io')" "io_fine m io'"
      using receive_nothing[OF 3(2), of r "cl_conn c" c1] by blast
    then show ?thesis using False by (cases r) (auto simp: client_is_server)
  qed
qed auto

section \<open>What the server promises\<close>

text \<open>
  C26: the server's receive loop, which reads every datagram into one buffer and copies it into a
  recycled one, does what it would do on the list of the datagrams that arrived, each cut to the
  MTU, up to the first read that fails: no byte of an earlier datagram shows, whatever buffers
  the pool hands out, and the loop leaves the pool and the buffer fit for the next tick.
\<close>

theorem server_poll_refines:
  assumes "io_fine m io"
  shows "map_option fst (server_poll kc pc u rs (s, io)) = server_receive kc pc u (arrived m rs) s
    \<and> (\<forall>s' io'. server_poll kc pc u rs (s, io) = Some (s', io') \<longrightarrow> io_fine m io')"
  using server_poll_ok[OF assms] .

lemma server_poll_refines_witness:
  "\<exists>s io. s = NewKcpServer demo_config\<lparr>sv_conn := True\<rparr> \<and> io_fine 60 io
    \<and> server_poll demo_clock demo_clock (\<lambda>_ _. Some)
         [(Datagram (goodbye 7) (UDPAddr [127, 0, 0, 1] 4000), None, 0, 0), (ReadError NetTimeout, None, 0, 0), (Datagram [1] (UDPAddr [127, 0, 0, 1] 4000), None, 0, 0)]
         (s, NewServerBuffers demo_config) = Some (s, io)"
proof -
  let ?s = "NewKcpServer demo_config\<lparr>sv_conn := True\<rparr>"
  let ?rs = "[(Datagram (goodbye 7) (UDPAddr [127, 0, 0, 1] 4000), None, 0, 0), (ReadError NetTimeout, None, 0, 0), (Datagram [1] (UDPAddr [127, 0, 0, 1] 4000), None, 0, 0)] :: read list"
  have io: "io_fine 60 (NewServerBuffers demo_config)"
    using io_fine_New(1)[of demo_config] by (simp add: demo_config_def NewKcpConfig_def DefaultKcpConfig_def WithMtu_def
      WithSendWindowSize_def WithReceiveWindowSize_def)
  have "processMessage demo_clock demo_clock (\<lambda>_ _. Some) (goodbye 7) (UDPAddr [127, 0, 0, 1] 4000) None ?s = Some ?s"
    by (simp add: processMessage_def stray_disconnect_def goodbye_def NewKcpServer_def Let_def nth_append)
  then have "server_receive demo_clock demo_clock (\<lambda>_ _. Some) (arrived 60 ?rs) ?s = Some ?s"
    by (simp add: goodbye_def)
  with server_poll_refines[OF io, of demo_clock demo_clock "\<lambda>_ _. Some" ?rs ?s] show ?thesis by auto
qed

text \<open>
  \<open>Start\<close> fails on a started server without effect; it fails when no socket can be opened,
  which for a dual-stack server means neither of the two; otherwise the server is active
  afterwards, even when \<open>Start\<close> returns the error of a refused buffer size. Such a \<open>Start\<close>
  cannot be tried again: every later one finds the server started.
\<close>

theorem start_outcomes:
  assumes "server_Start listen setRead setWrite port s = (e, s')"
  shows "s' = s\<lparr>sv_conn := sv_conn s'\<rparr>
    \<and> (sv_conn s' \<longleftrightarrow> sv_conn s \<or> (\<exists>k. listen Udp4 port = Inr k) \<or> cf_DualMode (sv_config s) \<and> (\<exists>k. listen Udp6 port = Inr k))
    \<and> (sv_conn s \<longrightarrow> e = Some AlreadyStarted)
    \<and> (e = None \<longleftrightarrow> \<not> sv_conn s \<and> (\<exists>k. createServerSocket listen (cf_DualMode (sv_config s)) port = Inr k
        \<and> setRead k (cf_RecvBufferSize (sv_config s)) = None \<and> setWrite k (cf_SendBufferSize (sv_config s)) = None))
    \<and> (sv_conn s' \<longrightarrow> server_Start listen setRead setWrite port s' = (Some AlreadyStarted, s'))"
  using assms
  by (auto simp: server_Start_def createServerSocket_def ConfigureSocketBuffers_def Let_def
      split: if_splits sum.splits option.splits)

lemma start_outcomes_witness:
  "\<exists>s s'. server_Start (\<lambda>_ _. Inr ()) (\<lambda>_ _. Some NetOther) (\<lambda>_ _. None) 7777 s = (Some (NetError NetOther), s')
    \<and> \<not> sv_conn s \<and> sv_conn s'
    \<and> server_Start (\<lambda>_ _. Inr ()) (\<lambda>_ _. Some NetOther) (\<lambda>_ _. None) 7777 s' = (Some AlreadyStarted, s')"
proof -
  let ?s = "NewKcpServer demo_config"
  obtain s' where s': "server_Start (\<lambda>_ _. Inr ()) (\<lambda>_ _. Some NetOther) (\<lambda>_ _. None) 7777 ?s = (Some (NetError NetOther), s')"
    by (simp add: server_Start_def createServerSocket_def ConfigureSocketBuffers_def NewKcpServer_def)
  have "\<not> sv_conn ?s" by (simp add: NewKcpServer_def)
  with start_outcomes[OF s'] s' show ?thesis by auto
qed

end
