(* ===== verification/Peer_Lock.thy ===== *)
theory Peer_Lock
  imports Connection_Contract Peer_Examples
begin

text \<open>
  The lock of a peer (\<open>peer.go\<close>, \<open>TrackedMutex\<close>). The other theories leave it out; here the
  operations that take it are given with it, on a peer extended by its lock. A result \<open>None\<close>
  is a call that waits for ever: the lock is not reentrant, and the goroutine that holds it is the
  one that waits. The lock is free again after every operation, as long as the callbacks that run
  under it leave it alone: the handlers of a client and of a server's connection do, for every user
  of their contracts (\<open>under_lock\<close> runs them on a peer that has a lock); an \<open>OnError\<close> that sends
  a message does not.
\<close>

section \<open>The lock\<close>

record TrackedMutex =
  tm_mu :: bool
  tm_name :: string
  tm_lockThreshold :: int
  tm_lockStartTime :: "int option"
  tm_location :: string
  tm_warnings :: "(string \<times> int \<times> int \<times> string) list"

text \<open>\<open>tm_warnings\<close> is the log output; \<open>None\<close> is the zero time, which the clock never shows.\<close>

definition NewTrackedMutex :: "string \<Rightarrow> int \<Rightarrow> TrackedMutex" where
  "NewTrackedMutex name threshold =
     \<lparr>tm_mu = False, tm_name = name, tm_lockThreshold = threshold, tm_lockStartTime = None, tm_location = [], tm_warnings = []\<rparr>"

definition LockWithLocation :: "int \<Rightarrow> string \<Rightarrow> TrackedMutex \<Rightarrow> TrackedMutex option" where
  "LockWithLocation now location tm =
     (if tm_mu tm then None else Some (tm\<lparr>tm_mu := True, tm_lockStartTime := Some now, tm_location := location\<rparr>))"

definition tm_Unlock :: "int \<Rightarrow> TrackedMutex \<Rightarrow> TrackedMutex option" where
  "tm_Unlock now tm =
     (let tm = (case tm_lockStartTime tm of
                  None \<Rightarrow> tm
                | Some t \<Rightarrow>
                    let holdTime = now - t;
                        tm = (if holdTime > tm_lockThreshold tm
                              then tm\<lparr>tm_warnings := tm_warnings tm @ [(tm_name tm, holdTime, tm_lockThreshold tm, tm_location tm)]\<rparr>
                              else tm)
                    in tm\<lparr>tm_lockStartTime := None, tm_location := []\<rparr>)
      in if tm_mu tm then Some (tm\<lparr>tm_mu := False\<rparr>) else None)"

definition lock_free :: "TrackedMutex \<Rightarrow> bool" where
  "lock_free tm \<longleftrightarrow> \<not> tm_mu tm \<and> tm_lockStartTime tm = None \<and> tm_location tm = []"

lemma lock_free_New [simp]: "lock_free (NewTrackedMutex name threshold)"
  by (simp add: lock_free_def NewTrackedMutex_def)

text \<open>Taking and giving back: the lock is as before, but for a warning when it was held too long.\<close>

lemma lock_unlock:
  assumes "lock_free tm"
  shows "\<exists>held. LockWithLocation t0 loc tm = Some held \<and> tm_mu held
    \<and> tm_Unlock t1 held = Some (tm\<lparr>tm_warnings := tm_warnings tm
        @ (if t1 - t0 > tm_lockThreshold tm then [(tm_name tm, t1 - t0, tm_lockThreshold tm, loc)] else [])\<rparr>)"
  using assms by (cases tm) (simp add: LockWithLocation_def tm_Unlock_def lock_free_def Let_def)

section \<open>The operations that take the lock\<close>

text \<open>A peer with its lock, and the fields of its owner (a client, a connection of the server).\<close>

record 'x locked_peer = KcpPeer +
  lp_lock :: TrackedMutex
  lp_owner :: 'x

type_synonym 'x lock_user = "event \<Rightarrow> 'x locked_peer \<Rightarrow> 'x locked_peer option"

definition lock_peer :: "int \<Rightarrow> string \<Rightarrow> 'x locked_peer \<Rightarrow> 'x locked_peer option" where
  "lock_peer now location p = map_option (\<lambda>tm. p\<lparr>lp_lock := tm\<rparr>) (LockWithLocation now location (lp_lock p))"

definition unlock_peer :: "int \<Rightarrow> 'x locked_peer \<Rightarrow> 'x locked_peer option" where
  "unlock_peer now p = map_option (\<lambda>tm. p\<lparr>lp_lock := tm\<rparr>) (tm_Unlock now (lp_lock p))"

definition locked :: "int \<Rightarrow> int \<Rightarrow> string \<Rightarrow> ('x locked_peer \<Rightarrow> 'x locked_peer option) \<Rightarrow> 'x locked_peer \<Rightarrow> 'x locked_peer option" where
  "locked t0 t1 location f p = do { p \<leftarrow> lock_peer t0 location p; p \<leftarrow> f p; unlock_peer t1 p }"

definition locked_SendReliable ::
    "int \<Rightarrow> int \<Rightarrow> clock \<Rightarrow> 'x lock_user \<Rightarrow> KcpHeaderReliable \<Rightarrow> bytes \<Rightarrow> 'x locked_peer \<Rightarrow> 'x locked_peer option" where
  "locked_SendReliable t0 t1 kc h header content = locked t0 t1 ''SendReliable'' (SendReliable kc h header content)"

definition locked_ReceiveNextReliable ::
    "int \<Rightarrow> int \<Rightarrow> clock \<Rightarrow> 'x lock_user \<Rightarrow> 'x locked_peer \<Rightarrow> ((KcpHeaderReliable \<times> bytes) option \<times> 'x locked_peer) option" where
  "locked_ReceiveNextReliable t0 t1 pc h p = do {
     p \<leftarrow> lock_peer t0 ''ReceiveNextReliable'' p;
     let msgSize = kcp_PeekSize (p_Kcp p);
     let fail = (\<lambda>p. do { p \<leftarrow> fire h (EvError ErrorCodeInvalidReceive) p; p \<leftarrow> unlock_peer t1 p;
                         p \<leftarrow> Disconnect h p; Some (None, p) });
     if msgSize \<le> 0 then do { p \<leftarrow> unlock_peer t1 p; Some (None, p) }
     else if msgSize > int (length (p_kcpMessageBuffer p)) then fail p
     else do {
       (received, buf, k) \<leftarrow> kcp_Recv (p_kcpMessageBuffer p) (p_Kcp p);
       let p = p\<lparr>p_Kcp := k, p_kcpMessageBuffer := buf\<rparr>;
       if received < 0 then fail p
       else let p = p\<lparr>p_received := p_received p @ [take (nat msgSize) buf]\<rparr>;
                (header, valid) = ParseReliable (buf ! 0)
            in if \<not> valid then fail p
               else do {
                 p \<leftarrow> unlock_peer t1 p;
                 let message = take (nat msgSize - 1) (drop 1 buf);
                 let (now, p) = peer_Time pc p;
                 Some (Some (header, message), p\<lparr>p_lastReceiveTime := now\<rparr>)
               }
     }
   }"

definition locked_OnRawInputReliable :: "int \<Rightarrow> int \<Rightarrow> clock \<Rightarrow> bytes \<Rightarrow> 'x locked_peer \<Rightarrow> 'x locked_peer option" where
  "locked_OnRawInputReliable t0 t1 kc message p =
     (if length message < IKCP_OVERHEAD \<or> \<not> (message ! 4 \<ge> IKCP_CMD_PUSH \<and> message ! 4 \<le> IKCP_CMD_WINS) then Some p
      else locked t0 t1 ''OnRawInputReliable'' (OnRawInputReliable kc message) p)"

definition locked_TickOutgoing :: "int \<Rightarrow> int \<Rightarrow> clock \<Rightarrow> clock \<Rightarrow> 'x lock_user \<Rightarrow> 'x locked_peer \<Rightarrow> 'x locked_peer option" where
  "locked_TickOutgoing t0 t1 kc pc h p =
     (case p_State p of
        KcpConnected \<Rightarrow> do { p \<leftarrow> HandleDeadLink h p; locked t0 t1 ''TickOutgoing_Connected'' (tick_flush kc pc) p }
      | KcpAuthenticated \<Rightarrow> do { p \<leftarrow> HandleDeadLink h p; locked t0 t1 ''TickOutgoing_Authenticated'' (tick_flush kc pc) p }
      | KcpDisconnected \<Rightarrow> Some p)"

section \<open>Callbacks that leave the lock alone\<close>

lemma more_lock: "KcpPeer.more q = KcpPeer.more p \<Longrightarrow> lp_lock q = lp_lock p"
  by (cases p; cases q) (simp add: KcpPeer.defs)

locale lock_keeper =
  fixes h :: "'x lock_user"
  assumes contract: "peer_inv p \<Longrightarrow> ok_from p (h ev p)"
    and keeps: "h ev p = Some q \<Longrightarrow> lp_lock q = lp_lock p"

sublocale lock_keeper \<subseteq> handles: peer_handler h
  by unfold_locales (rule contract)

sublocale lock_keeper \<subseteq> framed: peer_frame h "\<lambda>p q. lp_lock q = lp_lock p"
  by unfold_locales (auto simp: keeps dest: more_lock)

interpretation quiet_lock: lock_keeper quiet
  by unfold_locales (simp_all add: quiet_def ok_from_refl)

text \<open>
  The handlers of the program. An owner whose callbacks do not know of the lock sees the peer with
  its own fields, and what it does to them and to the peer is done under the lock.
\<close>

definition owner_view :: "'x locked_peer \<Rightarrow> 'x KcpPeer_scheme" where
  "owner_view p = KcpPeer.extend (KcpPeer.truncate p) (lp_owner p)"

definition owner_back :: "TrackedMutex \<Rightarrow> 'x KcpPeer_scheme \<Rightarrow> 'x locked_peer" where
  "owner_back tm q = KcpPeer.extend (KcpPeer.truncate q) (locked_peer.fields tm (KcpPeer.more q))"

definition under_lock :: "(event \<Rightarrow> 'x KcpPeer_scheme \<Rightarrow> 'x KcpPeer_scheme option) \<Rightarrow> 'x lock_user" where
  "under_lock h ev p = map_option (owner_back (lp_lock p)) (h ev (owner_view p))"

lemma owner_view_simps [simp]:
  "p_Kcp (owner_view p) = p_Kcp p" "p_Cookie (owner_view p) = p_Cookie p" "p_State (owner_view p) = p_State p"
  "p_Timeout (owner_view p) = p_Timeout p" "p_kcpMessageBuffer (owner_view p) = p_kcpMessageBuffer p"
  "p_kcpSendBuffer (owner_view p) = p_kcpSendBuffer p" "p_ReliableMax (owner_view p) = p_ReliableMax p"
  "p_UnreliableMax (owner_view p) = p_UnreliableMax p" "p_disconnectOnce (owner_view p) = p_disconnectOnce p"
  "p_events (owner_view p) = p_events p" "p_sent (owner_view p) = p_sent p" "p_received (owner_view p) = p_received p"
  by (simp_all add: owner_view_def KcpPeer.defs)

lemma owner_back_simps [simp]:
  "p_Kcp (owner_back tm p) = p_Kcp p" "p_Cookie (owner_back tm p) = p_Cookie p" "p_State (owner_back tm p) = p_State p"
  "p_Timeout (owner_back tm p) = p_Timeout p" "p_kcpMessageBuffer (owner_back tm p) = p_kcpMessageBuffer p"
  "p_kcpSendBuffer (owner_back tm p) = p_kcpSendBuffer p" "p_ReliableMax (owner_back tm p) = p_ReliableMax p"
  "p_UnreliableMax (owner_back tm p) = p_UnreliableMax p" "p_disconnectOnce (owner_back tm p) = p_disconnectOnce p"
  "p_events (owner_back tm p) = p_events p" "p_sent (owner_back tm p) = p_sent p" "p_received (owner_back tm p) = p_received p"
  "lp_lock (owner_back tm p) = tm"
  by (simp_all add: owner_back_def KcpPeer.defs locked_peer.defs)

text \<open>The contract looks at the peer only.\<close>

lemma peer_inv_view [simp]: "peer_inv (owner_view p) = peer_inv p" and peer_inv_back [simp]: "peer_inv (owner_back tm q) = peer_inv q"
  by (simp_all add: peer_inv_def)

lemma peer_end_view [simp]: "peer_end (owner_view p) = peer_end p" and peer_end_back [simp]: "peer_end (owner_back tm q) = peer_end q"
  by (simp_all add: peer_end_def)

lemma peer_does_back:
  assumes "peer_does ds (owner_view p) q"
  shows "peer_does ds p (owner_back tm q)"
proof -
  have "peer_fixed p (owner_back tm q) = peer_fixed (owner_view p) q" by (simp add: peer_fixed_def)
  moreover have "keeps_session p (owner_back tm q) = keeps_session (owner_view p) q"
    by (simp add: keeps_session_def in_sync_def calm_def)
  moreover have "auth_log p = auth_log (owner_view p)" "auth_log (owner_back tm q) = auth_log q" by (simp_all add: auth_log_def)
  moreover have "rcv_load p = rcv_load (owner_view p)" "rcv_load (owner_back tm q) = rcv_load q"
    by (simp_all add: rcv_load_def ReceiveQueueCount_def ReceiveBufferCount_def)
  moreover have "events_ok evs p (owner_back tm q) = events_ok evs (owner_view p) q" for evs by (simp add: events_ok_def)
  ultimately show ?thesis using assms by (simp add: peer_does_def)
qed

lemma under_lock_keeper:
  fixes h :: "event \<Rightarrow> 'x KcpPeer_scheme \<Rightarrow> 'x KcpPeer_scheme option"
  assumes "peer_handler h"
  shows "lock_keeper (under_lock h)"
proof
  fix p :: "'x locked_peer" and ev
  assume "peer_inv p"
  then have "ok_from (owner_view p) (h ev (owner_view p))"
    by (intro peer_handler.handler_ok[OF assms]) (simp add: peer_inv_view)
  then show "ok_from p (under_lock h ev p)"
    using peer_does_back[of "[]" p] by (auto simp: ok_from_def under_lock_def)
next
  fix p q :: "'x locked_peer" and ev
  assume "under_lock h ev p = Some q"
  then show "lp_lock q = lp_lock p"
    by (auto simp: under_lock_def)
qed

sublocale client_user \<subseteq> client_lock: lock_keeper "under_lock (client_handler u)"
  by (rule under_lock_keeper[OF handler])

sublocale server_users \<subseteq> server_lock: lock_keeper "under_lock (server_handler kc u connectionId)" for kc connectionId
  by (rule under_lock_keeper[OF handler])

lemma print_lock_keeper: "lock_keeper (under_lock (client_handler print_user))"
  by (rule under_lock_keeper[OF print.handler])

lemma echo_lock_keeper: "lock_keeper (under_lock (server_handler kc (echo_user kc' pc') connectionId))"
  by (rule under_lock_keeper[OF echo.handler])

interpretation print_lock: lock_keeper "under_lock (client_handler print_user)"
  by (rule print_lock_keeper)

interpretation echo_lock: lock_keeper "under_lock (server_handler kc (echo_user kc' pc') connectionId)" for kc kc' pc' connectionId
  by (rule echo_lock_keeper)

lemma peer_inv_lock [simp]: "peer_inv (p\<lparr>lp_lock := tm\<rparr>) = peer_inv p"
  by (simp add: peer_inv_def)

text \<open>A body that returns and keeps the lock, with the lock around it, returns and frees it.\<close>

lemma locked_returns:
  assumes free: "lock_free (lp_lock p)" and f: "\<And>tm. \<exists>q. f (p\<lparr>lp_lock := tm\<rparr>) = Some q \<and> lp_lock q = tm"
  shows "\<exists>q. locked t0 t1 loc f p = Some q \<and> lock_free (lp_lock q)"
proof -
  obtain held tm where h: "LockWithLocation t0 loc (lp_lock p) = Some held" "tm_Unlock t1 held = Some tm" "lock_free tm"
    using lock_unlock[OF free, of t0 loc t1] free by (auto simp: lock_free_def)
  obtain q where "f (p\<lparr>lp_lock := held\<rparr>) = Some q" "lp_lock q = held" using f by blast
  then show ?thesis using h by (simp add: locked_def lock_peer_def unlock_peer_def)
qed

lemma lock_held:
  fixes p :: "'x locked_peer"
  assumes "lock_free (lp_lock p)"
  shows "\<exists>held. lock_peer t0 loc p = Some (p\<lparr>lp_lock := held\<rparr>)
    \<and> (\<forall>q :: 'x locked_peer. lp_lock q = held \<longrightarrow> (\<exists>tm. unlock_peer t1 q = Some (q\<lparr>lp_lock := tm\<rparr>) \<and> lock_free tm))"
proof -
  obtain held tm where "LockWithLocation t0 loc (lp_lock p) = Some held" "tm_Unlock t1 held = Some tm" "lock_free tm"
    using lock_unlock[OF assms, of t0 loc t1] assms by (auto simp: lock_free_def)
  then show ?thesis by (intro exI[of _ held]) (auto simp: lock_peer_def unlock_peer_def)
qed

lemma frames_lock: "frames (\<lambda>p q. lp_lock q = lp_lock p) p m \<Longrightarrow> m = Some q \<Longrightarrow> lp_lock q = lp_lock p"
  by (simp add: frames_def)

context lock_keeper
begin

lemma SendReliable_free:
  assumes "peer_inv p" and "lock_free (lp_lock p)"
  shows "\<exists>q. locked_SendReliable t0 t1 kc h header content p = Some q \<and> lock_free (lp_lock q)"
  unfolding locked_SendReliable_def
proof (rule locked_returns[OF assms(2)])
  fix tm
  have "peer_inv (p\<lparr>lp_lock := tm\<rparr>)" using assms(1) by simp
  then obtain q where "SendReliable kc h header content (p\<lparr>lp_lock := tm\<rparr>) = Some q"
    using handles.SendReliable_ok[of "p\<lparr>lp_lock := tm\<rparr>" kc header content] by (auto simp: ok_from_def)
  then show "\<exists>q. SendReliable kc h header content (p\<lparr>lp_lock := tm\<rparr>) = Some q \<and> lp_lock q = tm"
    using frames_lock[OF framed.SendReliable_frame] by force
qed

text \<open>The error path of receiving gives the lock back before it disconnects.\<close>

lemma fail_free:
  fixes p :: "'x locked_peer"
  assumes "peer_inv p" and un: "\<And>q :: 'x locked_peer. lp_lock q = lp_lock p \<Longrightarrow> \<exists>tm. unlock_peer t1 q = Some (q\<lparr>lp_lock := tm\<rparr>) \<and> lock_free tm"
  shows "\<exists>r. do { p \<leftarrow> fire h (EvError c) p; p \<leftarrow> unlock_peer t1 p; p \<leftarrow> Disconnect h p; Some (None, p) }
      = Some (None :: (KcpHeaderReliable \<times> bytes) option, r) \<and> lock_free (lp_lock r)"
proof -
  obtain q where q: "fire h (EvError c) p = Some q" "peer_ok p q"
    using handles.fire_error[OF assms(1), of c] by (auto simp: ok_from_def)
  have "lp_lock q = lp_lock p" using frames_lock[OF framed.fire_frame q(1)] .
  then obtain tm where tm: "unlock_peer t1 q = Some (q\<lparr>lp_lock := tm\<rparr>)" "lock_free tm" using un by blast
  have "peer_inv (q\<lparr>lp_lock := tm\<rparr>)" using peer_does_inv[OF q(2)] by simp
  then obtain r where r: "Disconnect h (q\<lparr>lp_lock := tm\<rparr>) = Some r"
    using handles.Disconnect_ok[of "q\<lparr>lp_lock := tm\<rparr>"] by (auto simp: ok_from_def)
  have "lp_lock r = tm" using frames_lock[OF framed.Disconnect_frame r] by simp
  then show ?thesis using q(1) tm r by simp
qed

lemma ReceiveNext_free:
  fixes p :: "'x locked_peer"
  assumes inv: "peer_inv p" and free: "lock_free (lp_lock p)"
  shows "\<exists>res q. locked_ReceiveNextReliable t0 t1 pc h p = Some (res, q) \<and> lock_free (lp_lock q)"
proof -
  obtain held where l: "lock_peer t0 ''ReceiveNextReliable'' p = Some (p\<lparr>lp_lock := held\<rparr>)"
    and un: "\<And>q :: 'x locked_peer. lp_lock q = held \<Longrightarrow> \<exists>tm. unlock_peer t1 q = Some (q\<lparr>lp_lock := tm\<rparr>) \<and> lock_free tm"
    using lock_held[OF free] by blast
  let ?p = "p\<lparr>lp_lock := held\<rparr>"
  let ?n = "kcp_PeekSize (p_Kcp p)"
  have inv': "peer_inv ?p" using inv by simp
  have fail: "\<exists>r. do { p \<leftarrow> fire h (EvError c) q; p \<leftarrow> unlock_peer t1 p; p \<leftarrow> Disconnect h p; Some (None, p) }
    = Some (None :: (KcpHeaderReliable \<times> bytes) option, r) \<and> lock_free (lp_lock r)" if "peer_inv q" "lp_lock q = held" for q :: "'x locked_peer" and c
    by (rule fail_free[OF that(1) un]) (simp add: that(2))
  consider "?n \<le> 0" | "0 < ?n" "int (length (p_kcpMessageBuffer p)) < ?n" | "0 < ?n" "?n \<le> int (length (p_kcpMessageBuffer p))"
    by linarith
  then show ?thesis
  proof cases
    case 1
    obtain tm where "unlock_peer t1 ?p = Some (?p\<lparr>lp_lock := tm\<rparr>)" "lock_free tm" using un[of ?p] by auto
    then show ?thesis using l 1 by (simp add: locked_ReceiveNextReliable_def)
  next
    case 2
    obtain r where "do { p \<leftarrow> fire h (EvError ErrorCodeInvalidReceive) ?p; p \<leftarrow> unlock_peer t1 p; p \<leftarrow> Disconnect h p; Some (None, p) }
        = Some (None :: (KcpHeaderReliable \<times> bytes) option, r)" "lock_free (lp_lock r)" using fail[OF inv'] by auto
    then show ?thesis using l 2 by (simp add: locked_ReceiveNextReliable_def Let_def)
  next
    case 3
    obtain k buf m where r: "kcp_Recv (p_kcpMessageBuffer ?p) (p_Kcp ?p) = Some (?n, buf, k)" "take (nat ?n) buf = m"
      and q: "let q = ?p\<lparr>p_Kcp := k, p_kcpMessageBuffer := buf, p_received := p_received ?p @ [m]\<rparr> in
          peer_inv q \<and> peer_fixed ?p q \<and> keeps_session ?p q \<and> rcv_load q < rcv_load ?p"
      using peer_kcp_Recv[OF inv'] 3 by auto
    let ?q = "?p\<lparr>p_Kcp := k, p_kcpMessageBuffer := buf, p_received := p_received p @ [m]\<rparr>"
    have qinv: "peer_inv ?q" using q by (simp add: Let_def)
    obtain header valid where ps: "ParseReliable (buf ! 0) = (header, valid)" by (cases "ParseReliable (buf ! 0)")
    show ?thesis
    proof (cases valid)
      case True
      obtain tm where "unlock_peer t1 ?q = Some (?q\<lparr>lp_lock := tm\<rparr>)" "lock_free tm" using un[of ?q] by auto
      then show ?thesis
        using l 3 r ps True by (simp add: locked_ReceiveNextReliable_def Let_def peer_Time_def)
    next
      case False
      then show ?thesis
        using l 3 r ps fail[OF qinv, of ErrorCodeInvalidReceive] by (auto simp: locked_ReceiveNextReliable_def Let_def)
    qed
  qed
qed

lemma TickOutgoing_free:
  assumes inv: "peer_inv p" and free: "lock_free (lp_lock p)"
  shows "\<exists>q. locked_TickOutgoing t0 t1 kc pc h p = Some q \<and> lock_free (lp_lock q)"
proof -
  obtain q where q: "HandleDeadLink h p = Some q" "peer_ok p q"
    using handles.HandleDeadLink_ok[OF inv] by (auto simp: ok_from_def)
  have lq: "lock_free (lp_lock q)" using frames_lock[OF framed.HandleDeadLink_frame q(1)] free by simp
  have flush: "\<exists>r. locked t0 t1 loc (tick_flush kc pc) q = Some r \<and> lock_free (lp_lock r)" for loc
  proof (rule locked_returns[OF lq])
    fix tm
    have "peer_inv (q\<lparr>lp_lock := tm\<rparr>)" using peer_does_inv[OF q(2)] by simp
    then obtain r where r: "tick_flush kc pc (q\<lparr>lp_lock := tm\<rparr>) = Some r"
      using tick_flush_ok[of "q\<lparr>lp_lock := tm\<rparr>" kc pc] by (auto simp: ok_from_def)
    have "lp_lock r = tm"
      using r by (auto simp: tick_flush_def peer_Time_def kcp_output_def bind_eq_Some_conv split: if_splits)
    then show "\<exists>r. tick_flush kc pc (q\<lparr>lp_lock := tm\<rparr>) = Some r \<and> lp_lock r = tm" using r by blast
  qed
  show ?thesis using q(1) flush free by (cases "p_State p") (simp_all add: locked_TickOutgoing_def)
qed

end

lemma OnRawInput_free:
  assumes inv: "peer_inv p" and free: "lock_free (lp_lock p)" and len: "length message \<le> unat (k_mtu (p_Kcp p))"
  shows "\<exists>q. locked_OnRawInputReliable t0 t1 kc message p = Some q \<and> lock_free (lp_lock q)"
proof -
  have "\<exists>q. locked t0 t1 ''OnRawInputReliable'' (OnRawInputReliable kc message) p = Some q \<and> lock_free (lp_lock q)"
  proof (rule locked_returns[OF free])
    fix tm
    have "peer_inv (p\<lparr>lp_lock := tm\<rparr>)" using inv by simp
    then obtain q where q: "OnRawInputReliable kc message (p\<lparr>lp_lock := tm\<rparr>) = Some q"
      using OnRawInputReliable_ok[of "p\<lparr>lp_lock := tm\<rparr>" message kc] len by auto
    have "lp_lock q = tm"
      using frames_lock[OF quiet_lock.framed.OnRawInputReliable_frame q] by simp
    then show "\<exists>q. OnRawInputReliable kc message (p\<lparr>lp_lock := tm\<rparr>) = Some q \<and> lp_lock q = tm" using q by blast
  qed
  then show ?thesis using free by (simp add: locked_OnRawInputReliable_def)
qed

section \<open>A callback that sends\<close>

text \<open>A user who answers every error with a reliable message.\<close>

definition answering_user :: "int \<Rightarrow> clock \<Rightarrow> bytes \<Rightarrow> 'x lock_user" where
  "answering_user t kc answer ev p =
     (case ev of EvError code \<Rightarrow> locked_SendReliable t t kc quiet KcpHeaderData answer p | _ \<Rightarrow> Some p)"

lemma held_blocks: "tm_mu (lp_lock p) \<Longrightarrow> locked t0 t1 loc f p = None"
  by (simp add: locked_def lock_peer_def LockWithLocation_def)

lemma lock_peer_holds: "lock_peer t loc p = Some q \<Longrightarrow> tm_mu (lp_lock q) \<and> (\<exists>tm. q = p\<lparr>lp_lock := tm\<rparr>)"
  by (auto simp: lock_peer_def LockWithLocation_def split: if_splits)

section \<open>Properties\<close>

definition lock_demo :: "'x \<Rightarrow> 'x locked_peer" where
  "lock_demo x = KcpPeer.extend demo_peer (locked_peer.fields (NewTrackedMutex ''KcpPeer-7'' 10000000) x)"

lemma lock_demo: "peer_inv (lock_demo x)" "lock_free (lp_lock (lock_demo x))" "p_Kcp (lock_demo x) = p_Kcp demo_peer"
  "p_ReliableMax (lock_demo x) = p_ReliableMax demo_peer"
proof -
  show "peer_inv (lock_demo x)" using demo_peer_inv by (simp add: lock_demo_def peer_inv_def KcpPeer.defs)
  show "lock_free (lp_lock (lock_demo x))" by (simp add: lock_demo_def KcpPeer.defs locked_peer.defs)
  show "p_Kcp (lock_demo x) = p_Kcp demo_peer" "p_ReliableMax (lock_demo x) = p_ReliableMax demo_peer"
    by (simp_all add: lock_demo_def KcpPeer.defs)
qed

text \<open>
  C39: the lock of a peer is given back on every path. Sending a reliable message, receiving one,
  taking in a datagram of at most one MTU of KCP and flushing in a tick return, and the lock is
  free again afterwards, in every state that keeps the invariant, for every handler that keeps the
  contract and leaves the lock alone: in particular for the handler of a client and for that of a
  server's connection, with any users whose callbacks do not take the lock for these events. (On a
  longer datagram \<open>Input\<close> would panic with the lock held; the receive buffers are not larger.)
\<close>

theorem locks_released:
  assumes "lock_keeper h" and "peer_inv p" and "lock_free (lp_lock p)" and "length message \<le> unat (k_mtu (p_Kcp p))"
  shows "(\<exists>q. locked_SendReliable t0 t1 kc h header content p = Some q \<and> lock_free (lp_lock q))
    \<and> (\<exists>res q. locked_ReceiveNextReliable t0 t1 pc h p = Some (res, q) \<and> lock_free (lp_lock q))
    \<and> (\<exists>q. locked_OnRawInputReliable t0 t1 kc message p = Some q \<and> lock_free (lp_lock q))
    \<and> (\<exists>q. locked_TickOutgoing t0 t1 kc pc h p = Some q \<and> lock_free (lp_lock q))"
  using lock_keeper.SendReliable_free[OF assms(1-3)] lock_keeper.ReceiveNext_free[OF assms(1-3)]
    OnRawInput_free[OF assms(2-4)] lock_keeper.TickOutgoing_free[OF assms(1-3)] by blast

theorem locks_released_witness:
  "(\<exists>q. locked_SendReliable 0 1 (\<lambda>_. 5) (under_lock (client_handler print_user)) KcpHeaderData [1, 2, 3]
        (lock_demo (KcpClient.fields demo_config True True True)) = Some q \<and> lock_free (lp_lock q))
   \<and> (\<exists>q. locked_TickOutgoing 0 1 (\<lambda>_. 5) (\<lambda>_. 5) (under_lock (server_handler (\<lambda>_. 5) (echo_user (\<lambda>_. 5) (\<lambda>_. 5)) 9))
        (lock_demo (server_conn.fields (NewKcpServer demo_config))) = Some q \<and> lock_free (lp_lock q))"
  using locks_released[OF print_lock_keeper lock_demo(1,2), of "[]"]
    locks_released[OF echo_lock_keeper lock_demo(1,2), of "[]"] by auto

text \<open>
  C40: \<open>SendReliable\<close> reports its errors while it holds the lock. A user who answers an error
  with a reliable message on the same connection, which is harmless otherwise, makes the call
  wait for ever: for a message that is too large, and whenever the send window is full.
\<close>

theorem error_callback_blocks:
  assumes "peer_inv p" and "lock_free (lp_lock p)"
    and "p_ReliableMax p < int (length content) \<or> unat (k_snd_wnd (p_Kcp p)) \<le> kcp_WaitSnd (p_Kcp p)
      \<or> unat (k_rmt_wnd (p_Kcp p)) \<le> kcp_WaitSnd (p_Kcp p)"
  shows "locked_SendReliable t0 t1 kc (answering_user t kc' answer) header content p = None
    \<and> (\<exists>q. answering_user t kc' answer (EvError code) p = Some q \<and> lock_free (lp_lock q))"
proof -
  obtain held where l: "lock_peer t0 ''SendReliable'' p = Some (p\<lparr>lp_lock := held\<rparr>)"
    using lock_held[OF assms(2)] by blast
  then have mu: "tm_mu held" using lock_peer_holds[OF l] by simp
  obtain buf where s: "SendReliable kc (answering_user t kc' answer) header content (p\<lparr>lp_lock := held\<rparr>)
      = answering_user t kc' answer (EvError ErrorCodeInvalidSend)
          ((p\<lparr>lp_lock := held\<rparr>)\<lparr>p_kcpSendBuffer := buf, p_events := p_events p @ [EvError ErrorCodeInvalidSend]\<rparr>)"
    using SendReliable_cases[of "p\<lparr>lp_lock := held\<rparr>" content kc "answering_user t kc' answer" header] assms(1,3)
    by (auto split: if_splits)
  have "SendReliable kc (answering_user t kc' answer) header content (p\<lparr>lp_lock := held\<rparr>) = None"
    unfolding s by (simp add: answering_user_def locked_SendReliable_def held_blocks mu)
  then have "locked_SendReliable t0 t1 kc (answering_user t kc' answer) header content p = None"
    using l by (simp add: locked_SendReliable_def locked_def)
  moreover have "\<exists>q. answering_user t kc' answer (EvError code) p = Some q \<and> lock_free (lp_lock q)"
    using quiet_lock.SendReliable_free[OF assms(1,2)] by (simp add: answering_user_def)
  ultimately show ?thesis by blast
qed

theorem error_callback_blocks_witness:
  "locked_SendReliable 0 1 (\<lambda>_. 5) (answering_user 0 (\<lambda>_. 5) [7]) KcpHeaderData
     (replicate (Suc (nat (p_ReliableMax demo_peer))) 0) (lock_demo ()) = None"
  using error_callback_blocks[OF lock_demo(1,2), of "()" "replicate (Suc (nat (p_ReliableMax demo_peer))) 0"]
  by (simp add: lock_demo(4))

end
