(* ===== verification/Spec2Isabelle.thy ===== *)
theory Spec2Isabelle
  imports Buffer_Properties Kcp_Properties Kcp_Transfer Session_Properties Peer_Properties Server_Properties Link_Progress Pools Sockets Peer_Lock
begin

text \<open>
  A verification of \<open>kcp2k-go\<close>, a reliable message protocol on top of UDP. This theory holds the
  promise of the protocol core and imports the rest. File names are those of the repository's
  \<open>src\<close> directory.

  \<^bold>\<open>The program.\<close> \<open>kcp.go\<close> is the protocol core: \<open>Send\<close> cuts messages into segments, \<open>flush\<close> packs
  segments and acknowledgements into datagrams for an output function, \<open>Input\<close> takes a datagram
  of the other end apart, \<open>Recv\<close> gives out whole messages, and \<open>Update\<close> and \<open>Check\<close> are its
  clockwork. Its containers are the ring buffer of \<open>ringbuffer.go\<close> and a binary heap of the
  standard library. \<open>peer.go\<close> adds a session: a handshake, pings, timeouts, an unreliable channel
  and the security cookie. A client (\<open>client.go\<close>) and a connection of a server
  (\<open>connection.go\<close>) each own a peer, call it in their ticks and are its event handler, which may
  call the peer in return. The server (\<open>server.go\<close>) keeps a table of connections by the hash of
  their address. Buffers and connections can be recycled (\<open>pool.go\<close>, \<open>buffer_pool.go\<close>,
  \<open>connection_pool.go\<close>).

  \<^bold>\<open>The model, theory by theory.\<close> A definition has the name of the code's function, with a prefix
  where a name is used twice (\<open>kcp_\<close>, \<open>rb_\<close>, \<open>heap_\<close>, \<open>peer_\<close>, \<open>conn_\<close>, \<open>client_\<close>, \<open>server_\<close>); the
  field \<open>x\<close> of a struct is a record field with the struct's prefix (\<open>k_\<close>, \<open>sg_\<close>, \<open>p_\<close>, \<open>cf_\<close>, \<open>cl_\<close>,
  \<open>sv_\<close>).

    \<^item> \<open>Kcp_Prelude\<close>: machine types, Go's \<open>copy\<close>, loops with an early exit. \<open>Serial_Arith\<close>: the
      32-bit helpers and comparison around the circle (\<open>kcp.go\<close>).
    \<^item> \<open>Ring_Buffer\<close> (\<open>ringbuffer.go\<close>) refines a FIFO queue, the interface \<open>fifo_queue\<close>; \<open>Segment_Heap\<close>
      (\<open>segmentHeap\<close> of \<open>kcp.go\<close> on \<open>container/heap\<close>) is a priority queue by the distance from
      the next number expected, the interfaces \<open>heap_order\<close> and \<open>priority_queue\<close>; \<open>Wire\<close>: the
      codec, the headers and error codes (\<open>utils.go\<close>, \<open>header.go\<close>, \<open>channel.go\<close>, \<open>error_code.go\<close>).
      \<open>Buffer_Properties\<close> states what the three promise.
    \<^item> \<open>Kcp_State\<close> (the struct, its invariant \<open>kcp_inv\<close>, the configuration calls), \<open>Kcp_Recv\<close>,
      \<open>Kcp_Send\<close>, \<open>Kcp_Ack\<close>, \<open>Kcp_Flush\<close>, \<open>Kcp_Input\<close>, \<open>Kcp_Update\<close>: the operations of \<open>kcp.go\<close>; each
      keeps the invariant, and has its frame (which fields it leaves alone) and its effect as
      lemmas. \<open>Kcp_Transmit\<close> shows what a flush does send, \<open>Kcp_Acknowledge\<close> that what \<open>Input\<close> has taken
      in from inside the window is acknowledged by the next flush. \<open>Kcp_Properties\<close> and \<open>Kcp_Transfer\<close>
      state the properties, \<open>Kcp_Examples\<close> has the evaluated exchange their witnesses use.
    \<^item> \<open>Kcp_Session\<close>: two connections and a network that loses, repeats, delays and reorders, as an
      inductive relation; every reachable pair of states agrees with the logs of both users.
      \<open>Kcp_Sync\<close>: the invariant \<open>sync\<close> of sessions of fewer than 2 to the 31 segments, that what one end
      lets go of the other has; \<open>Kcp_Progress\<close>: what a round of datagrams achieves; \<open>Session_Properties\<close>
      states both. \<open>Kcp_Output\<close>: the operations do not read what they handed to the output function.
    \<^item> \<open>Config\<close> (\<open>config.go\<close>, \<open>config_optimized.go\<close>, \<open>common.go\<close>), \<open>Peer\<close> (\<open>peer.go\<close>, \<open>state.go\<close>).
      \<open>Peer_Contract\<close>: the invariant \<open>peer_inv\<close> and the contract \<open>peer_ok\<close> of every operation, which
      includes being an end of a KCP session; \<open>Peer_Operations\<close>: every operation keeps the
      contract and none panics, for any handler that keeps it (\<open>peer_handler\<close>); \<open>Peer_Frame\<close>: an
      operation touches what extends the peer only through its handler (\<open>peer_frame\<close>);
      \<open>Peer_Session\<close>: two peers over a network; \<open>Peer_Progress\<close>: the round of datagrams for peers;
      \<open>Peer_Properties\<close>, \<open>Peer_Examples\<close>.
    \<^item> \<open>Connection\<close>, \<open>Client\<close>, \<open>Server\<close>: \<open>connection.go\<close>, \<open>client.go\<close>, \<open>server.go\<close> and the callbacks
      of the echo example (\<open>examples/echo/main.go\<close>). \<open>Connection_Contract\<close>: the interfaces of the
      users (\<open>connection_owner\<close>, \<open>server_users\<close>, \<open>client_user\<close>), the framing of datagrams;
      \<open>Server_Contract\<close>: the invariant \<open>server_inv\<close> and the reachable states of a server;
      \<open>Link_Session\<close>: a client and a connection of a server over a network with intruders;
      \<open>Link_Progress\<close>: what a tick of the client achieves; \<open>Client_Frame\<close>: the client's connected flag
      and cookie, and a client that reliable datagrams no longer reach; \<open>Server_Properties\<close>, \<open>Server_Examples\<close>.
    \<^item> \<open>Pools\<close>: the three pools and the peers that use them; a pool is a bag (\<open>item_pool\<close>).
    \<^item> \<open>Sockets\<close>: opening the server's socket, and the receive loops with their recycled buffers,
      which refine the loops of \<open>Server\<close> and \<open>Client\<close> on lists of datagrams.
    \<^item> \<open>Peer_Lock\<close>: the lock of a peer (\<open>TrackedMutex\<close> of \<open>peer.go\<close>) and the operations that take it; it is
      free again after each of them, for callbacks that leave it alone (\<open>lock_keeper\<close>), as the
      handlers of clients and of a server's connections do (\<open>under_lock\<close>).

  \<^bold>\<open>How the code is rendered.\<close> A method is a function from the state before to the result and the
  state after. Integers have their width: \<open>uint32\<close> is a 32-bit word that wraps around, \<open>byte\<close> an
  8-bit word; Go's \<open>int\<close> and \<open>uint\<close> have 64 bits and are integers cut by \<open>go_int\<close> where they can
  overflow. A result \<open>None\<close> is a panic (an index out of range, a failed allocation), and the
  theorems that no operation panics say that the result is \<open>Some\<close>. Slices that are only read are
  lists; a slice that is written through is returned. A clock is a function from the number
  of readings to the time read, so a clock may stand still, jump or wrap around.

  Calls out of the program are parameters or logs: the datagrams KCP hands to its output are the list
  \<open>k_output\<close>, from which the peer moves them to its event log \<open>p_events\<close> (\<open>EvRawSend\<close> are the
  datagrams it sends, the others the calls of its handler), so does a server connection to
  \<open>sv_log\<close>; \<open>p_sent\<close> and \<open>p_received\<close> record the messages given to and taken from KCP, for the
  specification only. A handler is a function on the state that extends the peer, so it may call
  the connection's operations in return; a user's callback acts on the connection it is called
  for. The users that the theorems are instantiated with are \<open>quiet\<close> (nothing in return), the echo
  server of the example, and a client that only prints.

  \<^bold>\<open>Loops.\<close> Loops over containers are recursions on their contents. The loop of \<open>Input\<close>, the cutting
  of messages and the move of segments that are in order recurse on what is left, with a proof
  that it shrinks. Three loops have fuel, and running out of it is \<open>None\<close>, as a panic is: the
  move of queued segments into flight and the merge of a message's fragments get one more than
  the queue is long, the receive loop of a peer one more than there are segments queued or
  waiting out of order, since each iteration but the last removes one. The theorems that
  no operation panics show that the fuel is enough (\<open>receive_loop_ok\<close> for any bound that large). The
  client reads at most 100 datagrams in a tick, as the code does.

  \<^bold>\<open>What is shown.\<close> The messages received at one end are a prefix of those sent at the other, for
  connections, for peers, and for a client and a server's connection. This is said of the reliable
  channel: datagrams of the unreliable channel may be lost, repeated or forged. A client takes the
  cookie of the first reliable datagram it is given and a connection checks cookies from the hello
  on, so until both have one, reliable datagrams are supposed to come from the other end.
  A flush sends all that is owed and stays within the windows, every segment received inside the
  window is acknowledged, and a datagram is read back as written. Acknowledgements are sound: a segment is dropped only when the other end has
  it, so an end that waits for nothing knows that its messages have arrived; that holds for a client
  and its connection too, up to the report of a congestion, upon which a peer throws away what is in
  flight. A round of datagrams makes progress: once the datagrams of a flush and of the answer
  get through, the receiver is up to date and the sender's buffer is empty; the first half holds for
  a tick of a client and its connection. No datagram makes
  \<open>Input\<close>, a peer or a server panic. A server reports
  events of a connection in order and only of connections that were through a handshake. The
  containers and pools refine their abstract types. Error returns are stated with their causes
  and that they change nothing. Where the code does not do what it means to, the theorem states
  what it does: a peer that comes back after its disconnect and can then not be disconnected, pings
  that hide a silent other end as long as they go out, an early ping after which the handshake's
  answers are dropped for good, a recycled connection that cannot be ended, a failed \<open>Start\<close>
  that leaves the server active, an error callback that sends and so waits for ever.

  \<^bold>\<open>Bounds.\<close> The promise of a session holds while the messages of a user take fewer than 2 to the 32
  segments, since sequence numbers have 32 bits; what is said of acknowledgements and progress holds
  for fewer than 2 to the 31, so that no comparison of sequence numbers wraps around. A configuration
  is sensible (\<open>config_ok\<close>) when its MTU is at least 55 bytes and its windows are positive and fit
  into 31 bits.

  \<^bold>\<open>Not modelled.\<close> The sockets themselves, name service and closing (their answers are parameters);
  other goroutines: each theorem is about one at a time, and but for \<open>Peer_Lock\<close> the theories leave
  locks out; log output and timing statistics; the recovery branches of the ticks, which run only
  after a panic, which the theorems exclude; \<open>LocalEndPoint\<close>, \<open>GetClientEndPoint\<close>; the four counters of
  \<open>utils.go\<close> that no type of the library implements; a call of \<open>Disconnect\<close> from within its own
  \<open>OnDisconnected\<close>, which \<open>sync.Once\<close> would deadlock on and which is a no-op here; the console part of
  the echo example. What a caller does with a slice after handing it over, or after giving it
  back to a pool, is outside the model.
\<close>

section \<open>The promise of the protocol\<close>

text \<open>
  C1: two connections over a network that may lose, repeat, delay and reorder datagrams: whatever
  the two users, the clocks and the network do, the messages received at one end are, message by
  message, a prefix of the messages sent at the other, as long as neither user's messages take
  2 to the 32 segments.
\<close>

theorem session_delivers:
  assumes "session (a0, b0) (a, b)" and "fresh a0" and "fresh b0" and "k_mtu (e_k a0) = k_mtu (e_k b0)"
    and "seg_total (unat (k_mss (e_k a0))) (e_sent a) < 2 ^ 32"
    and "seg_total (unat (k_mss (e_k a0))) (e_sent b) < 2 ^ 32"
  shows "prefix (e_got b) (e_sent a) \<and> prefix (e_got a) (e_sent b)"
  using session_reach_ok[OF assms(1-4)] assms(5,6) by (simp add: session_ok_def delivers_def)

theorem session_delivers_witness:
  "session (demo_end, demo_end) (demo_a\<lparr>e_k := demo_flushed\<rparr>, demo_b)
    \<and> e_got demo_b = [[1, 2, 3]] \<and> prefix (e_got demo_b) (e_sent demo_a)"
proof -
  have "prefix (e_got demo_b) (e_sent (demo_a\<lparr>e_k := demo_flushed\<rparr>)) \<and> prefix (e_got (demo_a\<lparr>e_k := demo_flushed\<rparr>)) (e_sent demo_b)"
    by (rule session_delivers[OF demo_delivery demo_start(1,1,2)])
      (simp_all add: demo_start(3) demo_a_def demo_b_def demo_total)
  then show ?thesis using demo_delivery by (simp add: demo_a_def demo_b_def)
qed

end
